(* ===== verification/Prelude.thy ===== *)
theory Prelude
  imports Main "HOL-Library.Word"
begin

section \<open>Shared types and generic facts\<close>

text \<open>
  The vocabulary the component theories share.  A Go \<open>byte\<close> is an 8-bit word, a Go
  \<open>uint64\<close> a 64-bit word (both wrap around), and a byte slice is a list of bytes; a nil
  slice and an empty slice are both the empty list, except where the code compares a slice
  with nil, in which case the model uses an option.  Go's \<open>int\<close> occurs in the modelled
  code only for lengths, offsets and loop counters of slices that fit in memory and is
  a \<open>nat\<close>.

  The collections \<open>rlp_simps\<close> (facts that evaluate headers and item encodings),
  \<open>nibble_simps\<close> (facts on nibbles packed into bytes) and \<open>trie_simps\<close> gather what
  the proofs of one component hand to the proofs of the next.
\<close>

unbundle bit_operations_syntax

named_theorems rlp_simps "evaluation of RLP headers and item encodings"
named_theorems nibble_simps "nibbles and the bytes they are packed into"
named_theorems trie_simps "facts on trie nodes used by simp"

type_synonym byte = "8 word"
type_synonym bytes = "byte list"
type_synonym uint64 = "64 word"
type_synonym uint16 = "16 word"
type_synonym uint32 = "32 word"

subsection \<open>Loops that stop at the first error\<close>

text \<open>
  \<open>foldE f s xs\<close> is the loop \<open>for _, x := range xs { if err := f(x); err != nil { return err } }\<close>
  over a state \<open>s\<close>: it stops at the first error.
\<close>

fun foldE :: "('s \<Rightarrow> 'a \<Rightarrow> 'e + 's) \<Rightarrow> 's \<Rightarrow> 'a list \<Rightarrow> 'e + 's" where
  "foldE f s [] = Inr s"
| "foldE f s (x # xs) = (case f s x of Inl e \<Rightarrow> Inl e | Inr s' \<Rightarrow> foldE f s' xs)"

lemma foldE_append:
  "foldE f s (xs @ ys) = (case foldE f s xs of Inl e \<Rightarrow> Inl e | Inr s' \<Rightarrow> foldE f s' ys)"
  by (induction xs arbitrary: s) (auto split: sum.splits)

lemma foldE_invariant:
  assumes "foldE f s xs = Inr s'" and "P s"
    and "\<And>s x t. x \<in> set xs \<Longrightarrow> P s \<Longrightarrow> f s x = Inr t \<Longrightarrow> P t"
  shows "P s'"
  using assms
proof (induction xs arbitrary: s)
  case (Cons x xs)
  from Cons.prems(1) obtain t where t: "f s x = Inr t" and rest: "foldE f t xs = Inr s'"
    by (auto split: sum.splits)
  have "P t" using Cons.prems(2,3) t by auto
  then show ?case using Cons.IH[OF rest] Cons.prems(3) by auto
qed simp

lemma foldE_succeeds:
  assumes "P s" and "\<And>s x. x \<in> set xs \<Longrightarrow> P s \<Longrightarrow> \<exists>t. f s x = Inr t \<and> P t"
  shows "\<exists>t. foldE f s xs = Inr t \<and> P t"
  using assms
proof (induction xs arbitrary: s)
  case (Cons x xs)
  then obtain t where "f s x = Inr t" "P t" by (metis list.set_intros(1))
  then show ?case using Cons.IH[of t] Cons.prems(2) by auto
qed simp

subsection \<open>Slices\<close>

definition subslice :: "nat \<Rightarrow> nat \<Rightarrow> 'a list \<Rightarrow> 'a list" where
  "subslice i j xs = take (j - i) (drop i xs)"

lemma length_subslice [simp]: "length (subslice i j xs) = min (j - i) (length xs - i)"
  by (simp add: subslice_def)

lemma subslice_append_left [simp]:
  "j \<le> length xs \<Longrightarrow> subslice i j (xs @ ys) = subslice i j xs"
  by (cases "i \<le> j") (simp_all add: subslice_def)

lemma subslice_append_right:
  "length xs \<le> i \<Longrightarrow> subslice i j (xs @ ys) = subslice (i - length xs) (j - length xs) ys"
  by (simp add: subslice_def)

lemma subslice_full [simp]: "subslice 0 (length xs) xs = xs"
  by (simp add: subslice_def)

lemma subslice_to_end: "length xs \<le> j \<Longrightarrow> subslice i j xs = drop i xs"
  by (simp add: subslice_def)

lemma subslice_drop_append: "i \<le> j \<Longrightarrow> j \<le> length xs \<Longrightarrow> subslice i j xs @ drop j xs = drop i xs"
  by (metis append_take_drop_id drop_drop le_add_diff_inverse2 subslice_def)

lemma subslice_split:
  assumes "p \<le> q" and "q \<le> r"
  shows "subslice p r s = subslice p q s @ subslice q r s"
proof -
  have "r - p = (q - p) + (r - q)" using assms by simp
  then have "take (r - p) (drop p s) = take (q - p) (drop p s) @ take (r - q) (drop (q - p) (drop p s))"
    by (simp only: take_add)
  then show ?thesis using assms by (simp add: subslice_def)
qed

lemma mod_2_eq_Suc_0 [simp]: "n mod 2 = Suc 0 \<longleftrightarrow> odd n"
  by (simp add: odd_iff_mod_2_eq_one)

subsection \<open>Bytes\<close>

lemma unat_byte_less [simp]: "unat (b :: byte) < 256"
  using unsigned_less[of b, where ?'a = nat] by simp

lemma unat_byte_of_nat [simp]: "unat (of_nat n :: byte) = n mod 256"
  by (simp add: unat_of_nat)

lemma byte_of_nat_unat [simp]: "(of_nat (unat (b :: byte)) :: byte) = b"
  by simp

lemma byte_eq_iff_unat: "(a :: byte) = b \<longleftrightarrow> unat a = unat b"
  by (rule word_unat_eq_iff)

lemma of_nat_byte_add256 [simp]: "(of_nat (n mod 256) :: byte) = of_nat n"
  by (simp add: byte_eq_iff_unat)

end
