(* ===== verification/Hex_Keys.thy ===== *)
theory Hex_Keys
  imports Prelude
begin

section \<open>Key encodings (trie/trie_encoding.go)\<close>

text \<open>
  Three encodings of a key: plain bytes (\<open>KEYBYTES\<close>), one nibble per byte with an
  optional terminator 16 (\<open>HEX\<close>), and the compact form stored in the database, whose
  first byte carries the terminator and the parity flags.  \<open>hasTerm\<close> is from
  \<open>trie_node_dec.go\<close>.
\<close>

definition hasTerm :: "bytes \<Rightarrow> bool" where
  "hasTerm s = (length s > 0 \<and> s ! (length s - 1) = 16)"

text \<open>
  \<open>decodeNibbles\<close> packs pairs of nibbles; its only caller passes an even number of them
  (lemma \<open>even_packed\<close>), an odd one would make the code index past the end.
\<close>

fun decodeNibbles :: "bytes \<Rightarrow> bytes" where
  "decodeNibbles (hi # lo # nibbles) = (push_bit 4 hi OR lo) # decodeNibbles nibbles"
| "decodeNibbles _ = []"

definition hexToCompact :: "bytes \<Rightarrow> bytes" where
  "hexToCompact hex =
    (let terminator = (if hasTerm hex then 1 else 0 :: byte);
         hex1 = (if hasTerm hex then take (length hex - 1) hex else hex);
         flag = push_bit 5 terminator
     in if length hex1 mod 2 = 1
        then (flag OR push_bit 4 1 OR hex1 ! 0) # decodeNibbles (drop 1 hex1)
        else flag # decodeNibbles hex1)"

definition keybytesToHex :: "bytes \<Rightarrow> bytes" where
  "keybytesToHex s = concat (map (\<lambda>b. [b div 16, b mod 16]) s) @ [16]"

definition compactToHex :: "bytes \<Rightarrow> bytes" where
  "compactToHex compact =
    (if length compact = 0 then compact
     else
       let base0 = keybytesToHex compact;
           base = (if base0 ! 0 < 2 then take (length base0 - 1) base0 else base0);
           chop = 2 - (base ! 0 AND 1)
       in drop (unat chop) base)"

text \<open>The loop of \<open>prefixLen\<close> over the common range of the two slices.\<close>

fun prefixLen :: "bytes \<Rightarrow> bytes \<Rightarrow> nat" where
  "prefixLen (x # a) (y # b) = (if x \<noteq> y then 0 else Suc (prefixLen a b))"
| "prefixLen _ _ = 0"

definition prefixConcat :: "bytes \<Rightarrow> bytes \<Rightarrow> bytes" where
  "prefixConcat s1 s2 = s1 @ s2"

subsection \<open>Nibbles and hex keys\<close>

definition nibbles :: "bytes \<Rightarrow> bool" where
  "nibbles xs \<longleftrightarrow> (\<forall>x \<in> set xs. unat x < 16)"

text \<open>A hex key: nibbles, with or without the terminator at the end.\<close>

definition hex_key :: "bytes \<Rightarrow> bool" where
  "hex_key k \<longleftrightarrow> nibbles (if hasTerm k then butlast k else k)"

lemma nibbles_simps [simp]:
  "nibbles []" "nibbles (x # xs) \<longleftrightarrow> unat x < 16 \<and> nibbles xs"
  "nibbles (xs @ ys) \<longleftrightarrow> nibbles xs \<and> nibbles ys"
  by (auto simp: nibbles_def)

lemma nibbles_take: "nibbles xs \<Longrightarrow> nibbles (take n xs)"
  and nibbles_drop: "nibbles xs \<Longrightarrow> nibbles (drop n xs)"
  by (auto simp: nibbles_def dest: in_set_takeD in_set_dropD)

lemma hasTerm_simps [simp]:
  "\<not> hasTerm []" "hasTerm (xs @ [x]) \<longleftrightarrow> x = 16" "hasTerm [x] \<longleftrightarrow> x = 16"
  "xs \<noteq> [] \<Longrightarrow> hasTerm (x # xs) = hasTerm xs"
  by (auto simp: hasTerm_def nth_append nth_Cons')

lemma hasTerm_append: "ys \<noteq> [] \<Longrightarrow> hasTerm (xs @ ys) = hasTerm ys"
  by (induction xs) auto

lemma hasTerm_last: "hasTerm k \<longleftrightarrow> k \<noteq> [] \<and> last k = 16"
  by (auto simp: hasTerm_def last_conv_nth)

lemma nibbles_not_hasTerm: "nibbles k \<Longrightarrow> \<not> hasTerm k"
  by (auto simp: hasTerm_last nibbles_def dest!: last_in_set)

lemma hex_key_cases:
  assumes "hex_key k"
  obtains "nibbles k" "\<not> hasTerm k" | ns where "k = ns @ [16]" "nibbles ns" "hasTerm k"
proof (cases "hasTerm k")
  case True
  then have "k = butlast k @ [16]" by (metis append_butlast_last_id hasTerm_last)
  with True assms that(2) show ?thesis by (simp add: hex_key_def)
next
  case False
  with assms that(1) show ?thesis by (simp add: hex_key_def)
qed

lemma hex_key_nibbles [simp]: "nibbles k \<Longrightarrow> hex_key k"
  and hex_key_term [simp]: "nibbles k \<Longrightarrow> hex_key (k @ [16])"
  by (simp_all add: hex_key_def nibbles_not_hasTerm)

lemma unat_pack [nibble_simps]:
  assumes "unat hi < 16" and "unat lo < 16"
  shows "unat (push_bit 4 hi OR lo :: byte) = 16 * unat hi + unat lo"
proof -
  have "\<not> bit lo n" if "4 \<le> n" for n
  proof -
    have "bit lo n \<longleftrightarrow> bit (unat lo) n" by (simp add: bit_unsigned_iff)
    then have "bit lo n \<longleftrightarrow> odd (unat lo div 2 ^ n)" by (simp add: bit_iff_odd)
    moreover have "(16::nat) \<le> 2 ^ n" using power_increasing[OF that, of "2::nat"] by simp
    ultimately show ?thesis using assms(2) by simp
  qed
  then have "push_bit 4 hi AND lo = 0"
    by (intro bit_word_eqI) (auto simp: bit_simps not_le)
  then have "push_bit 4 hi OR lo = push_bit 4 hi + lo" by (simp add: disjunctive_add_eq_or)
  moreover have "unat (push_bit 4 hi) = 16 * unat hi"
    using assms(1) by (simp add: push_bit_eq_mult unat_word_ariths)
  ultimately show ?thesis using assms by (simp add: unat_word_ariths)
qed

lemma unpack [nibble_simps]:
  assumes "unat hi < 16" and "unat lo < 16"
  shows "(push_bit 4 hi OR lo) div 16 = (hi :: byte)" and "(push_bit 4 hi OR lo) mod 16 = (lo :: byte)"
  using assms by (simp_all add: byte_eq_iff_unat unat_div unat_mod unat_pack)

lemma unat_nibble [simp]: "unat (b div 16 :: byte) < 16" "unat (b mod 16 :: byte) < 16"
proof -
  have "unat b < 16 * 16" using unat_byte_less[of b] by simp
  then show "unat (b div 16 :: byte) < 16" by (simp add: unat_div less_mult_imp_div_less)
  show "unat (b mod 16 :: byte) < 16" by (simp add: unat_mod)
qed

lemma pack [nibble_simps]: "push_bit 4 (b div 16) OR (b mod 16) = (b :: byte)"
  by (simp only: byte_eq_iff_unat unat_pack[OF unat_nibble]) (simp add: unat_div unat_mod)

subsection \<open>Round trips of the key encodings\<close>

definition unpack_nibbles :: "bytes \<Rightarrow> bytes" where
  "unpack_nibbles s = concat (map (\<lambda>b. [b div 16, b mod 16]) s)"

lemma keybytesToHex_unpack: "keybytesToHex s = unpack_nibbles s @ [16]"
  by (simp add: keybytesToHex_def unpack_nibbles_def)

lemma unpack_nibbles_simps [simp]:
  "unpack_nibbles [] = []" "unpack_nibbles (b # s) = b div 16 # b mod 16 # unpack_nibbles s"
  by (simp_all add: unpack_nibbles_def)

lemma nibbles_unpack [simp]: "nibbles (unpack_nibbles s)"
  by (induction s) simp_all

lemma length_unpack_nibbles [simp]: "length (unpack_nibbles s) = 2 * length s"
  by (induction s) simp_all

lemma unpack_decodeNibbles:
  "nibbles ns \<Longrightarrow> even (length ns) \<Longrightarrow> unpack_nibbles (decodeNibbles ns) = ns"
  by (induction ns rule: decodeNibbles.induct) (simp_all add: unpack)

lemma decodeNibbles_unpack [simp]: "decodeNibbles (unpack_nibbles s) = s"
  by (induction s) (simp_all add: pack)

lemma length_decodeNibbles: "length (decodeNibbles ns) = length ns div 2"
  by (induction ns rule: decodeNibbles.induct) simp_all

lemma keybytesToHex_inj: "keybytesToHex a = keybytesToHex b \<Longrightarrow> a = b"
  by (metis append1_eq_conv decodeNibbles_unpack keybytesToHex_unpack)

lemma hex_key_keybytesToHex: "hex_key (keybytesToHex s) \<and> hasTerm (keybytesToHex s)"
  by (simp add: keybytesToHex_unpack)

text \<open>The number of nibbles packed into the bytes after the flag byte is even.\<close>

lemma even_packed:
  "even (length (if length hex1 mod 2 = 1 then drop 1 hex1 else hex1))"
  by (cases hex1) auto

text \<open>
  The flag byte and the two ways back: compact form then hex form, and hex form then
  compact form.
\<close>

lemma hexToCompact_nonempty [simp]: "hexToCompact hex \<noteq> []"
  by (simp add: hexToCompact_def Let_def)

lemma compact_nibbles:
  "\<not> hasTerm ns \<Longrightarrow> hexToCompact ns =
     (if odd (length ns) then (16 OR hd ns) # decodeNibbles (tl ns) else 0 # decodeNibbles ns)"
  by (cases ns) (simp_all add: hexToCompact_def Let_def)

lemma compact_term:
  "hexToCompact (ns @ [16]) =
     (if odd (length ns) then (48 OR hd ns) # decodeNibbles (tl ns) else 32 # decodeNibbles ns)"
  by (cases ns) (simp_all add: hexToCompact_def Let_def hasTerm_append flip: or.assoc)

lemma flag_nibbles:
  assumes "unat h < 16"
  shows "(16 OR h) div 16 = (1 :: byte)" "(16 OR h) mod 16 = h"
    "(48 OR h) div 16 = (3 :: byte)" "(48 OR h) mod 16 = h"
  using unpack[of 1 h] unpack[of 3 h] assms by simp_all

lemma compactToHex_Cons:
  "compactToHex (f # s) =
    (let base = f div 16 # f mod 16 # unpack_nibbles s @ (if f div 16 < 2 then [] else [16])
     in drop (unat (2 - (f div 16 AND 1))) base)"
  by (simp add: compactToHex_def keybytesToHex_unpack Let_def butlast_append flip: butlast_conv_take)

theorem compactToHex_hexToCompact:
  assumes "hex_key hex"
  shows "compactToHex (hexToCompact hex) = hex"
  using assms
proof (cases hex rule: hex_key_cases)
  case 1
  then show ?thesis
    by (cases hex) (simp_all add: compact_nibbles compactToHex_Cons unpack_decodeNibbles flag_nibbles)
next
  case (2 ns)
  then show ?thesis
    by (cases ns) (simp_all only: compact_term,
      simp_all add: compactToHex_Cons unpack_decodeNibbles flag_nibbles)
qed

lemma hexToCompact_inj:
  "hex_key a \<Longrightarrow> hex_key b \<Longrightarrow> hexToCompact a = hexToCompact b \<Longrightarrow> a = b"
  by (metis compactToHex_hexToCompact)

subsection \<open>Common prefixes\<close>

lemma prefixLen_Nil [simp]: "prefixLen a [] = 0" "prefixLen [] b = 0"
  by (cases a; simp)+

lemma prefixLen_le: "prefixLen a b \<le> length a \<and> prefixLen a b \<le> length b"
  by (induction a b rule: prefixLen.induct) auto

lemma prefixLen_take: "take (prefixLen a b) a = take (prefixLen a b) b"
  by (induction a b rule: prefixLen.induct) auto

lemma prefixLen_differ:
  "prefixLen a b < length a \<Longrightarrow> prefixLen a b < length b \<Longrightarrow>
     a ! prefixLen a b \<noteq> b ! prefixLen a b"
  by (induction a b rule: prefixLen.induct) auto

lemma prefixLen_commute: "prefixLen a b = prefixLen b a"
  by (induction a b rule: prefixLen.induct) auto

lemma prefixLen_same [simp]: "prefixLen (a @ x) (a @ y) = length a + prefixLen x y"
  by (induction a) auto

lemma prefixLen_full_iff: "prefixLen a b = length b \<longleftrightarrow> take (length b) a = b"
  by (induction a b rule: prefixLen.induct) auto

text \<open>The two ways \<open>prefixLen\<close> can come out, as the trie operations use them.\<close>

lemma prefixLen_cases:
  obtains (full) rest where "prefixLen key k = length k" "key = k @ rest"
    | (split) p x y a b where "prefixLen key k = length p" "k = p @ x # a" "key = p @ y # b" "x \<noteq> y"
    | (short) x a where "prefixLen key k = length key" "k = key @ x # a"
proof -
  let ?m = "prefixLen key k"
  consider "?m = length k" | "?m < length k" "?m < length key" | "?m < length k" "?m = length key"
    using prefixLen_le[of key k] by linarith
  then show ?thesis
  proof cases
    case 1
    then have "key = k @ drop (length k) key" by (metis append_take_drop_id prefixLen_full_iff)
    with 1 full show ?thesis by blast
  next
    case 2
    let ?p = "take ?m k"
    have "k = ?p @ k ! ?m # drop (Suc ?m) k" using 2 by (simp add: id_take_nth_drop)
    moreover have "key = ?p @ key ! ?m # drop (Suc ?m) key"
      using 2 by (metis id_take_nth_drop prefixLen_take)
    moreover have "k ! ?m \<noteq> key ! ?m" using prefixLen_differ[of key k] 2 by metis
    moreover have "?m = length ?p" using 2 by simp
    ultimately show ?thesis by (rule split[rotated])
  next
    case 3
    have "k = take ?m k @ k ! ?m # drop (Suc ?m) k" using 3 by (simp add: id_take_nth_drop)
    moreover have "take ?m k = key" using 3 by (metis prefixLen_take take_all order_refl)
    ultimately show ?thesis using 3 short by metis
  qed
qed

end
