(* ===== verification/Patricia.thy ===== *)
theory Patricia
  imports Hex_Keys
begin

section \<open>The abstract Patricia trie\<close>

text \<open>
  The specification of the trie: a finite map from terminated hex keys to values, held in
  a fully loaded tree without hashes or flags.  \<open>ainsert\<close> and \<open>adelete\<close> are the
  tree operations that \<open>trie_insert\<close> and \<open>trie_delete\<close> refine (theory \<open>Trie_Correct\<close>);
  \<open>wf_atrie\<close> is the canonical form, and \<open>canonical\<close> says that a canonical tree is
  determined by its map.
\<close>

datatype atrie =
    AEmpty
  | AVal bytes
  | AShort bytes atrie
  | AFull "atrie list"

primrec alookup :: "atrie \<Rightarrow> bytes \<rightharpoonup> bytes" where
  "alookup AEmpty = (\<lambda>key. None)"
| "alookup (AVal v) = (\<lambda>key. if key = [] then Some v else None)"
| "alookup (AShort k c) =
    (\<lambda>key. if take (length k) key = k then alookup c (drop (length k) key) else None)"
| "alookup (AFull cs) =
    (\<lambda>key. case key of [] \<Rightarrow> None
      | x # r \<Rightarrow> if unat x < length cs then (map alookup cs ! unat x) r else None)"

definition no_achildren :: "atrie list" where
  "no_achildren = replicate 17 AEmpty"

definition aplace :: "bytes \<Rightarrow> atrie \<Rightarrow> atrie" where
  "aplace k c = (if k = [] then c else AShort k c)"

primrec ainsert :: "atrie \<Rightarrow> bytes \<Rightarrow> bytes \<Rightarrow> atrie" where
  "ainsert AEmpty = (\<lambda>key v. aplace key (AVal v))"
| "ainsert (AVal w) = (\<lambda>key v. aplace key (AVal v))"
| "ainsert (AShort k c) = (\<lambda>key v.
    if key = [] then AVal v
    else let m = prefixLen key k in
      if m = length k then AShort k (ainsert c (drop m key) v)
      else aplace (take m key)
        (AFull (no_achildren[unat (k ! m) := aplace (drop (m + 1) k) c,
                             unat (key ! m) := aplace (drop (m + 1) key) (AVal v)])))"
| "ainsert (AFull cs) = (\<lambda>key v.
    case key of [] \<Rightarrow> AVal v
    | x # r \<Rightarrow> AFull (cs[unat x := (map ainsert cs ! unat x) r v]))"

text \<open>Removing the level of a full node that has a single child left.\<close>

definition acollapse :: "atrie list \<Rightarrow> atrie" where
  "acollapse cs =
    (case filter (\<lambda>i. cs ! i \<noteq> AEmpty) [0..<length cs] of
       [p] \<Rightarrow> (case cs ! p of AShort k c \<Rightarrow> AShort (of_nat p # k) c | c \<Rightarrow> AShort [of_nat p] c)
     | _ \<Rightarrow> AFull cs)"

primrec adelete :: "atrie \<Rightarrow> bytes \<Rightarrow> atrie" where
  "adelete AEmpty = (\<lambda>key. AEmpty)"
| "adelete (AVal v) = (\<lambda>key. AEmpty)"
| "adelete (AShort k c) = (\<lambda>key.
    let m = prefixLen key k in
    if m < length k then AShort k c
    else if m = length key then AEmpty
    else case adelete c (drop (length k) key) of
        AShort k' c' \<Rightarrow> AShort (k @ k') c'
      | c' \<Rightarrow> AShort k c')"
| "adelete (AFull cs) = (\<lambda>key.
    case key of [] \<Rightarrow> AFull cs
    | x # r \<Rightarrow>
        (let c' = (map adelete cs ! unat x) r; cs' = cs[unat x := c'] in
         if c' \<noteq> AEmpty then AFull cs' else acollapse cs'))"

subsection \<open>Canonical form\<close>

text \<open>
  A subtree below a terminated path is a value or empty; below any other path it is empty
  or a canonical node.  A short node holds a value when its key is terminated and a full
  node otherwise; a full node has at least two children.
\<close>

primrec wf_anode :: "atrie \<Rightarrow> bool" where
  "wf_anode AEmpty = False"
| "wf_anode (AVal v) = False"
| "wf_anode (AShort k c) \<longleftrightarrow> k \<noteq> [] \<and> hex_key k \<and>
    (if hasTerm k then (case c of AVal v \<Rightarrow> v \<noteq> [] | _ \<Rightarrow> False)
     else wf_anode c \<and> (case c of AFull cs \<Rightarrow> True | _ \<Rightarrow> False))"
| "wf_anode (AFull cs) \<longleftrightarrow> length cs = 17 \<and>
    (\<forall>i < 16. cs ! i = AEmpty \<or> map wf_anode cs ! i) \<and>
    (case cs ! 16 of AEmpty \<Rightarrow> True | AVal v \<Rightarrow> v \<noteq> [] | _ \<Rightarrow> False) \<and>
    2 \<le> length (filter (\<lambda>c. c \<noteq> AEmpty) cs)"

definition sub_ok :: "bool \<Rightarrow> atrie \<Rightarrow> bool" where
  "sub_ok t a \<longleftrightarrow> a = AEmpty \<or> (if t then (\<exists>v. v \<noteq> [] \<and> a = AVal v) else wf_anode a)"

definition key_ok :: "bool \<Rightarrow> bytes \<Rightarrow> bool" where
  "key_ok t key \<longleftrightarrow> (if t then key = [] else hex_key key \<and> hasTerm key)"

definition wf_atrie :: "atrie \<Rightarrow> bool" where
  "wf_atrie a \<longleftrightarrow> sub_ok False a"

lemma two_nonempty: "2 \<le> length (filter P xs) \<longleftrightarrow> (\<exists>i j. i < j \<and> j < length xs \<and> P (xs ! i) \<and> P (xs ! j))"
proof (induction xs)
  case (Cons x xs)
  have one: "1 \<le> length (filter P xs) \<longleftrightarrow> (\<exists>j < length xs. P (xs ! j))"
    by (simp add: Suc_le_eq filter_empty_conv) (metis in_set_conv_nth)
  show ?case (is "?L \<longleftrightarrow> ?R")
  proof
    assume ?L
    then consider "2 \<le> length (filter P xs)" | "P x" "1 \<le> length (filter P xs)" by (auto split: if_splits)
    then show ?R
    proof cases
      case 1
      then obtain i j where "i < j" "j < length xs" "P (xs ! i)" "P (xs ! j)" using Cons.IH by blast
      then show ?thesis by (intro exI[of _ "Suc i"] exI[of _ "Suc j"]) simp
    next
      case 2
      then obtain j where "j < length xs" "P (xs ! j)" using one by blast
      then show ?thesis using 2(1) by (intro exI[of _ 0] exI[of _ "Suc j"]) simp
    qed
  next
    assume ?R
    then obtain i j where ij: "i < j" "j < Suc (length xs)" "P ((x # xs) ! i)" "P ((x # xs) ! j)" by auto
    then obtain j' where j: "j = Suc j'" by (cases j) auto
    show ?L
    proof (cases i)
      case 0
      then show ?thesis using ij j one by auto
    next
      case (Suc i')
      then have "2 \<le> length (filter P xs)" using ij j Cons.IH by auto
      then show ?thesis by simp
    qed
  qed
qed simp

lemma wf_AFull:
  "wf_anode (AFull cs) \<longleftrightarrow> length cs = 17 \<and> (\<forall>i < 17. sub_ok (i = 16) (cs ! i)) \<and>
     (\<exists>i j. i < j \<and> j < 17 \<and> cs ! i \<noteq> AEmpty \<and> cs ! j \<noteq> AEmpty)"
proof (cases "length cs = 17")
  case True
  have "i < 17 \<longleftrightarrow> i < 16 \<or> i = 16" for i :: nat by auto
  then have "(\<forall>i < 17. sub_ok (i = 16) (cs ! i)) \<longleftrightarrow> (\<forall>i < 16. sub_ok False (cs ! i)) \<and> sub_ok True (cs ! 16)"
    by auto
  moreover have "sub_ok True (cs ! 16) \<longleftrightarrow>
      (case cs ! 16 of AEmpty \<Rightarrow> True | AVal v \<Rightarrow> v \<noteq> [] | _ \<Rightarrow> False)"
    by (auto simp: sub_ok_def split: atrie.split)
  moreover have "(\<forall>i < 16. sub_ok False (cs ! i)) \<longleftrightarrow> (\<forall>i < 16. cs ! i = AEmpty \<or> map wf_anode cs ! i)"
    using True by (auto simp: sub_ok_def)
  ultimately show ?thesis using True two_nonempty[of "\<lambda>c. c \<noteq> AEmpty" cs] by auto
qed simp

lemma wf_AShort:
  "wf_anode (AShort k c) \<longleftrightarrow> k \<noteq> [] \<and> hex_key k \<and> c \<noteq> AEmpty \<and> sub_ok (hasTerm k) c \<and>
     (\<forall>k' c'. c \<noteq> AShort k' c')"
  by (cases c) (auto simp: sub_ok_def)

declare wf_anode.simps(3,4) [simp del]

lemma sub_ok_simps [simp]:
  "sub_ok t AEmpty" "sub_ok t (AVal v) \<longleftrightarrow> t \<and> v \<noteq> []"
  "sub_ok t (AShort k c) \<longleftrightarrow> \<not> t \<and> wf_anode (AShort k c)"
  "sub_ok t (AFull cs) \<longleftrightarrow> \<not> t \<and> wf_anode (AFull cs)"
  by (auto simp: sub_ok_def)

lemma alookup_AFull_Cons [simp]:
  "alookup (AFull cs) (x # r) = (if unat x < length cs then alookup (cs ! unat x) r else None)"
  "alookup (AFull cs) [] = None"
  by simp_all

lemma ainsert_AFull_Cons [simp]:
  "unat x < length cs \<Longrightarrow> ainsert (AFull cs) (x # r) v = AFull (cs[unat x := ainsert (cs ! unat x) r v])"
  by simp

lemma adelete_AFull_Cons:
  "unat x < length cs \<Longrightarrow> adelete (AFull cs) (x # r) =
    (if adelete (cs ! unat x) r \<noteq> AEmpty then AFull (cs[unat x := adelete (cs ! unat x) r])
     else acollapse (cs[unat x := AEmpty]))"
  by (simp add: Let_def)

declare alookup.simps(4) [simp del] ainsert.simps(4) [simp del] adelete.simps(4) [simp del]

subsection \<open>Keys\<close>

lemma key_ok_cases:
  assumes "key_ok t key"
  obtains "t" "key = []" | x r where "\<not> t" "key = x # r" "unat x < 17" "key_ok (unat x = 16) r"
proof (cases t)
  case False
  then have "hex_key key" "hasTerm key" using assms by (auto simp: key_ok_def)
  then obtain ns where ns: "key = ns @ [16]" "nibbles ns" by (metis hex_key_cases)
  show ?thesis
  proof (cases ns)
    case Nil
    then show ?thesis using that(2)[of 16 "[]"] ns False by (simp add: key_ok_def)
  next
    case (Cons x xs)
    then show ?thesis using that(2)[of x "xs @ [16]"] ns False by (auto simp: key_ok_def)
  qed
qed (use assms that in \<open>auto simp: key_ok_def\<close>)

lemma key_ok_append:
  assumes "key_ok False (k @ r)" and "hex_key k" and "k \<noteq> []"
  shows "key_ok (hasTerm k) r"
proof -
  obtain ns where ns: "k @ r = ns @ [16]" "nibbles ns"
    using assms(1) by (auto simp: key_ok_def elim: hex_key_cases)
  show ?thesis
  proof (cases r rule: rev_cases)
    case Nil
    then show ?thesis using assms ns by (auto simp: key_ok_def)
  next
    case (snoc r' z)
    then have z: "z = 16" "ns = k @ r'" using ns by auto
    then have "nibbles k" "nibbles r'" using ns by auto
    then show ?thesis using nibbles_not_hasTerm snoc z by (simp add: key_ok_def)
  qed
qed

lemma hex_key_split:
  assumes "hex_key (p @ x # a)"
  shows "nibbles p" "a = [] \<Longrightarrow> hasTerm (p @ x # a) = (unat x = 16)" "unat x < 17"
    "a \<noteq> [] \<Longrightarrow> unat x < 16 \<and> hex_key a \<and> hasTerm a = hasTerm (p @ x # a)"
proof -
  let ?k = "p @ x # a"
  have "nibbles p \<and> (a = [] \<longrightarrow> hasTerm ?k = (unat x = 16)) \<and> unat x < 17 \<and>
      (a \<noteq> [] \<longrightarrow> unat x < 16 \<and> hex_key a \<and> hasTerm a = hasTerm ?k)"
    using assms
  proof (cases rule: hex_key_cases)
    case 1
    then show ?thesis using nibbles_not_hasTerm[of a] by auto
  next
    case (2 ns)
    then show ?thesis by (cases a rule: rev_cases) auto
  qed
  then show "nibbles p" "a = [] \<Longrightarrow> hasTerm ?k = (unat x = 16)" "unat x < 17"
    "a \<noteq> [] \<Longrightarrow> unat x < 16 \<and> hex_key a \<and> hasTerm a = hasTerm ?k" by blast+
qed

lemma key_ok_split:
  assumes "key_ok False (p @ y # b)"
  shows "unat y < 17" "key_ok (unat y = 16) b"
proof -
  have h: "hex_key (p @ y # b)" "hasTerm (p @ y # b)" using assms by (auto simp: key_ok_def)
  show "unat y < 17" by (rule hex_key_split(3)[OF h(1)])
  show "key_ok (unat y = 16) b"
    using hex_key_split(2,4)[OF h(1)] h(2) by (cases "b = []") (auto simp: key_ok_def)
qed

lemma key_ok_not_prefix: "key_ok False key \<Longrightarrow> hex_key (key @ x # a) \<Longrightarrow> False"
  using hex_key_split(1)[of key x a] nibbles_not_hasTerm[of key] by (simp add: key_ok_def)

text \<open>The three ways a terminated key can meet the key of a short node.\<close>

lemma short_key_cases:
  assumes "key_ok False key" and "hex_key k" and "k \<noteq> []"
  obtains (full) rest where "prefixLen key k = length k" "key = k @ rest" "key_ok (hasTerm k) rest"
    | (split) p x y a b where "prefixLen key k = length p" "k = p @ x # a" "key = p @ y # b"
        "x \<noteq> y" "nibbles p" "unat x < 17" "unat y < 17" "key_ok (unat y = 16) b"
        "a = [] \<Longrightarrow> hasTerm k = (unat x = 16)"
        "a \<noteq> [] \<Longrightarrow> unat x < 16 \<and> hex_key a \<and> hasTerm a = hasTerm k"
proof (rule prefixLen_cases[of key k], goal_cases)
  case (1 rest)
  then show ?thesis using full[of rest] key_ok_append assms by simp
next
  case (2 p x y a b)
  then show ?thesis
    using split[of p x a y b] hex_key_split[of p x a] key_ok_split[of p y b] assms by blast
next
  case (3 x a)
  then show ?thesis using key_ok_not_prefix assms by blast
qed

subsection \<open>Lookup after insert\<close>

lemma alookup_aplace:
  "alookup (aplace k c) key = (if take (length k) key = k then alookup c (drop (length k) key) else None)"
  by (simp add: aplace_def)

lemma alookup_AShort_append: "alookup (AShort (k @ k') c) = alookup (AShort k (AShort k' c))"
proof
  fix key
  have "take (length (k @ k')) key = k @ k' \<longleftrightarrow>
      take (length k) key = k \<and> take (length k') (drop (length k) key) = k'"
  proof -
    have e: "take (length (k @ k')) key = take (length k) key @ take (length k') (drop (length k) key)"
      by (simp add: take_add)
    show ?thesis
    proof (cases "length k \<le> length key")
      case True
      then show ?thesis unfolding e by (intro append_eq_append_conv) simp
    next
      case False
      then have "length (take (length (k @ k')) key) < length (k @ k')" "length (take (length k) key) < length k"
        by simp_all
      then show ?thesis by (metis less_irrefl)
    qed
  qed
  then show "alookup (AShort (k @ k') c) key = alookup (AShort k (AShort k' c)) key"
    by (simp add: add.commute)
qed

lemma nth_no_achildren [simp]: "i < 17 \<Longrightarrow> no_achildren ! i = AEmpty" "length no_achildren = 17"
  by (simp_all add: no_achildren_def)

lemma alookup_branch:
  assumes "unat x < 17" and "unat y < 17" and "x \<noteq> y"
  shows "alookup (AFull (no_achildren[unat x := c, unat y := d])) key =
    (case key of [] \<Rightarrow> None
     | z # r \<Rightarrow> if z = x then alookup c r else if z = y then alookup d r else None)"
  using assms by (cases key) (auto simp: nth_list_update word_unat_eq_iff)

lemma alookup_ainsert:
  "sub_ok t a \<Longrightarrow> key_ok t key \<Longrightarrow> alookup (ainsert a key v) = (alookup a)(key \<mapsto> v)"
proof (induction a arbitrary: t key)
  case AEmpty
  then show ?case by (auto simp: alookup_aplace fun_eq_iff)
next
  case (AVal w)
  then show ?case by (auto simp: key_ok_def aplace_def)
next
  case (AShort k c)
  then have wf: "wf_anode (AShort k c)" and t: "\<not> t" by auto
  then have k: "hex_key k" "k \<noteq> []" "sub_ok (hasTerm k) c" by (auto simp: wf_AShort)
  have ne: "key \<noteq> []" using AShort.prems t by (auto simp: key_ok_def)
  have "key_ok False key" using AShort.prems t by simp
  then show ?case using k(1,2)
  proof (cases rule: short_key_cases)
    case (full rest)
    have "alookup (ainsert c rest v) = (alookup c)(rest \<mapsto> v)" using AShort.IH k(3) full(3) by blast
    then show ?thesis using full(1,2) ne
      by (auto simp: fun_eq_iff) (metis append_take_drop_id)+
  next
    case (split p x y a b)
    let ?b = "AFull (no_achildren[unat x := aplace a c, unat y := aplace b (AVal v)])"
    have ins: "ainsert (AShort k c) key v = aplace p ?b" using split(1-4) ne by simp
    have "alookup (aplace p ?b) z = ((alookup (AShort k c))(key \<mapsto> v)) z" for z
    proof (cases "\<exists>r. z = p @ r")
      case True
      then obtain r where "z = p @ r" by blast
      then show ?thesis using split(2-4,6,7)
        by (cases r) (auto simp: alookup_aplace alookup_branch simp del: alookup_AFull_Cons)
    next
      case False
      then have "take (length p) z \<noteq> p" by (metis append_take_drop_id)
      moreover from False have "take (length k) z \<noteq> k" using split(2)
        by (metis append.assoc append_take_drop_id)
      moreover from False have "z \<noteq> key" using split(3) by auto
      ultimately show ?thesis by (simp add: alookup_aplace)
    qed
    then show ?thesis using ins by (simp add: fun_eq_iff)
  qed
next
  case (AFull cs)
  then have wf: "wf_anode (AFull cs)" and t: "\<not> t" by auto
  then obtain x r where x: "key = x # r" "unat x < 17" "key_ok (unat x = 16) r"
    using AFull.prems(2) key_ok_cases by metis
  have c: "length cs = 17" "sub_ok (unat x = 16) (cs ! unat x)" using wf x by (auto simp: wf_AFull)
  then have "alookup (ainsert (cs ! unat x) r v) = (alookup (cs ! unat x))(r \<mapsto> v)"
    using c(1) x(2,3) by (intro AFull.IH[of "cs ! unat x"]) simp_all
  then show ?case
    using x c by (auto simp: fun_eq_iff alookup.simps(4) nth_list_update word_unat_eq_iff split: list.split)
qed

subsection \<open>Insert keeps the canonical form\<close>

lemma sub_ok_aplace_val: "key_ok t key \<Longrightarrow> v \<noteq> [] \<Longrightarrow> sub_ok t (aplace key (AVal v))"
  by (cases t) (auto simp: key_ok_def aplace_def wf_AShort)

lemma aplace_nonempty [simp]: "aplace k c = AEmpty \<longleftrightarrow> k = [] \<and> c = AEmpty"
  by (auto simp: aplace_def)

lemma wf_branch:
  assumes "unat x < 17" "unat y < 17" "x \<noteq> y" "sub_ok (unat x = 16) c" "sub_ok (unat y = 16) d"
    and "c \<noteq> AEmpty" "d \<noteq> AEmpty"
  shows "wf_anode (AFull (no_achildren[unat x := c, unat y := d]))"
proof -
  have ne: "unat x \<noteq> unat y" using assms(3) by (simp add: word_unat_eq_iff)
  have "\<exists>i j. i < j \<and> j < 17 \<and> no_achildren[unat x := c, unat y := d] ! i \<noteq> AEmpty \<and>
      no_achildren[unat x := c, unat y := d] ! j \<noteq> AEmpty"
    using assms ne
    by (intro exI[of _ "min (unat x) (unat y)"] exI[of _ "max (unat x) (unat y)"])
      (auto simp: nth_list_update min_def max_def)
  then show ?thesis using assms ne by (auto simp: wf_AFull nth_list_update)
qed

lemma sub_ok_AFull: "\<not> t \<Longrightarrow> sub_ok t c \<Longrightarrow> c \<noteq> AEmpty \<Longrightarrow> \<forall>k' c'. c \<noteq> AShort k' c' \<Longrightarrow>
    \<exists>cs. c = AFull cs \<and> wf_anode c"
  by (cases c) auto

lemma two_children_update:
  assumes "wf_anode (AFull cs)" and "c \<noteq> AEmpty"
  shows "\<exists>i j. i < j \<and> j < 17 \<and> cs[n := c] ! i \<noteq> AEmpty \<and> cs[n := c] ! j \<noteq> AEmpty"
proof -
  obtain i j where ij: "length cs = 17" "i < j" "j < 17" "cs ! i \<noteq> AEmpty" "cs ! j \<noteq> AEmpty"
    using assms(1) by (auto simp: wf_AFull)
  then have "i < j \<and> j < 17 \<and> cs[n := c] ! i \<noteq> AEmpty \<and> cs[n := c] ! j \<noteq> AEmpty"
    using assms(2) by (cases "n < 17") (auto simp: nth_list_update list_update_beyond)
  then show ?thesis by blast
qed

lemma ainsert_nonempty: "ainsert a key v \<noteq> AEmpty"
  by (cases a) (auto simp: Let_def ainsert.simps(4) split: list.split)

lemma sub_ok_ainsert:
  assumes "v \<noteq> []"
  shows "sub_ok t a \<Longrightarrow> key_ok t key \<Longrightarrow> sub_ok t (ainsert a key v)"
proof (induction a arbitrary: t key)
  case AEmpty
  then show ?case using assms by (simp add: sub_ok_aplace_val)
next
  case (AVal w)
  then show ?case using assms by (simp add: sub_ok_aplace_val)
next
  case (AShort k c)
  then have wf: "wf_anode (AShort k c)" and t: "\<not> t" by auto
  then have k: "hex_key k" "k \<noteq> []" "sub_ok (hasTerm k) c" "c \<noteq> AEmpty" "\<forall>k' c'. c \<noteq> AShort k' c'"
    by (auto simp: wf_AShort)
  have ne: "key \<noteq> []" using AShort.prems t by (auto simp: key_ok_def)
  have "key_ok False key" using AShort.prems t by simp
  then show ?case using k(1,2)
  proof (cases rule: short_key_cases)
    case (full rest)
    have ih: "sub_ok (hasTerm k) (ainsert c rest v)" using AShort.IH k(3) full(3) by blast
    have "ainsert c rest v \<noteq> AShort k' c'" for k' c'
    proof (cases "hasTerm k")
      case True
      then show ?thesis using ih by auto
    next
      case False
      then obtain cs where cs: "c = AFull cs" "wf_anode c" using sub_ok_AFull k(3-5) by blast
      obtain x r where "rest = x # r" "unat x < 17"
        using full(3) False key_ok_cases by metis
      then show ?thesis using cs by (simp add: wf_AFull)
    qed
    then have "wf_anode (AShort k (ainsert c rest v))"
      using k ih by (simp add: wf_AShort ainsert_nonempty)
    then show ?thesis using full(1,2) ne t by simp
  next
    case (split p x y a b)
    have "sub_ok (unat x = 16) (aplace a c)"
      using split(9,10) k by (cases "a = []") (auto simp: aplace_def wf_AShort)
    then have w: "wf_anode (AFull (no_achildren[unat x := aplace a c, unat y := aplace b (AVal v)]))"
      using split k sub_ok_aplace_val[OF split(8) assms] by (intro wf_branch) auto
    then show ?thesis
      using split(1-5) ne t nibbles_not_hasTerm[OF split(5)]
      by (auto simp: aplace_def wf_AShort)
  qed
next
  case (AFull cs)
  then have wf: "wf_anode (AFull cs)" and t: "\<not> t" by auto
  then obtain x r where x: "key = x # r" "unat x < 17" "key_ok (unat x = 16) r"
    using AFull.prems(2) key_ok_cases by metis
  have c: "length cs = 17" "sub_ok (unat x = 16) (cs ! unat x)" using wf x by (auto simp: wf_AFull)
  have ih: "sub_ok (unat x = 16) (ainsert (cs ! unat x) r v)"
    using c x by (intro AFull.IH[of "cs ! unat x"]) simp_all
  have "\<exists>i j. i < j \<and> j < 17 \<and> cs[unat x := ainsert (cs ! unat x) r v] ! i \<noteq> AEmpty \<and>
      cs[unat x := ainsert (cs ! unat x) r v] ! j \<noteq> AEmpty"
    using wf by (intro two_children_update) (simp_all add: ainsert_nonempty)
  then show ?case using wf c ih x t by (auto simp: wf_AFull nth_list_update)
qed

subsection \<open>Delete\<close>

lemma acollapse_ok:
  assumes l: "length cs = 17" and s: "\<And>i. i < 17 \<Longrightarrow> sub_ok (i = 16) (cs ! i)"
    and ne: "\<exists>i < 17. cs ! i \<noteq> AEmpty"
  shows "wf_anode (acollapse cs) \<and> alookup (acollapse cs) = alookup (AFull cs)"
proof -
  let ?ne = "filter (\<lambda>i. cs ! i \<noteq> AEmpty) [0..<length cs]"
  show ?thesis
  proof (cases "\<exists>p. ?ne = [p]")
    case True
    then obtain p where p: "?ne = [p]" by blast
    have "set ?ne = {p}" using p by simp
    then have e: "p < 17" "cs ! p \<noteq> AEmpty" "\<And>i. i < 17 \<Longrightarrow> i \<noteq> p \<Longrightarrow> cs ! i = AEmpty"
      using l by auto
    let ?b = "of_nat p :: byte"
    have b: "unat ?b = p" using e(1) by simp
    have look: "alookup (AFull cs) = alookup (AShort [?b] (cs ! p))"
    proof
      fix key show "alookup (AFull cs) key = alookup (AShort [?b] (cs ! p)) key"
        using l b e by (cases key) (auto simp: byte_eq_iff_unat)
    qed
    show ?thesis
    proof (cases "cs ! p")
      case (AShort k c)
      then have w: "wf_anode (AShort k c)" and p16: "p \<noteq> 16" using s[OF e(1)] by auto
      then have "hex_key (?b # k)" "hasTerm (?b # k) = hasTerm k"
        using e(1) b by (auto simp: wf_AShort hex_key_def split: if_splits)
      then have "wf_anode (AShort (?b # k) c)" using w by (auto simp: wf_AShort)
      moreover have "alookup (AShort (?b # k) c) = alookup (AShort [?b] (AShort k c))"
        using alookup_AShort_append[of "[?b]" k c] by simp
      ultimately show ?thesis using p AShort look by (simp add: acollapse_def)
    next
      case (AVal v)
      then have p16: "p = 16" "v \<noteq> []" using s[OF e(1)] by auto
      then have "wf_anode (AShort [?b] (AVal v))" using AVal by (simp add: wf_AShort hex_key_def)
      then show ?thesis using p AVal look by (simp add: acollapse_def)
    next
      case (AFull ds)
      then have w: "wf_anode (AFull ds)" "p \<noteq> 16" using s[OF e(1)] by auto
      then have "?b \<noteq> 16" using b by (auto simp: byte_eq_iff_unat)
      then have "wf_anode (AShort [?b] (AFull ds))"
        using AFull w e(1) b by (simp add: wf_AShort hex_key_def)
      then show ?thesis using p AFull look by (simp add: acollapse_def)
    qed (use e(2) in simp)
  next
    case False
    have "?ne \<noteq> []" using ne l by (auto simp: filter_empty_conv)
    then obtain a ns where "?ne = a # ns" by (cases ?ne) auto
    with False have "2 \<le> length ?ne" by (cases ns) auto
    then obtain i j where "i < j" "j < length [0..<length cs]" "cs ! ([0..<length cs] ! i) \<noteq> AEmpty"
        "cs ! ([0..<length cs] ! j) \<noteq> AEmpty"
      unfolding two_nonempty by blast
    then have "i < j \<and> j < 17 \<and> cs ! i \<noteq> AEmpty \<and> cs ! j \<noteq> AEmpty" using l by simp
    then have "\<exists>i j. i < j \<and> j < 17 \<and> cs ! i \<noteq> AEmpty \<and> cs ! j \<noteq> AEmpty" by blast
    then have "wf_anode (AFull cs)" using l s by (auto simp: wf_AFull)
    moreover have "acollapse cs = AFull cs"
      using False by (auto simp: acollapse_def split: list.split)
    ultimately show ?thesis by simp
  qed
qed

lemma sub_ok_nonempty_AFull:
  "wf_anode (AFull cs) \<Longrightarrow> \<exists>i < 17. i \<noteq> j \<and> cs ! i \<noteq> AEmpty"
  unfolding wf_AFull by (metis less_trans nat_neq_iff)

lemma adelete_nonempty: "wf_anode (AFull cs) \<Longrightarrow> key_ok False key \<Longrightarrow> adelete (AFull cs) key \<noteq> AEmpty"
proof -
  assume wf: "wf_anode (AFull cs)" and "key_ok False key"
  then obtain x r where x: "key = x # r" "unat x < 17" by (metis key_ok_cases)
  have l: "length cs = 17" using wf by (simp add: wf_AFull)
  have "acollapse ds \<noteq> AEmpty" for ds
    by (auto simp: acollapse_def split: list.split atrie.split)
  then show ?thesis using x l by (simp add: adelete_AFull_Cons)
qed

lemma alookup_off_path: "take (length k) key \<noteq> k \<Longrightarrow> alookup (AShort k c) key = None"
  by simp

lemma adelete_ok:
  "sub_ok t a \<Longrightarrow> key_ok t key \<Longrightarrow>
     sub_ok t (adelete a key) \<and> alookup (adelete a key) = (alookup a)(key := None)"
proof (induction a arbitrary: t key)
  case AEmpty
  then show ?case by auto
next
  case (AVal w)
  then show ?case by (auto simp: key_ok_def)
next
  case (AShort k c)
  then have wf: "wf_anode (AShort k c)" and t: "\<not> t" by auto
  then have k: "hex_key k" "k \<noteq> []" "sub_ok (hasTerm k) c" "c \<noteq> AEmpty" "\<forall>k' c'. c \<noteq> AShort k' c'"
    by (auto simp: wf_AShort)
  have "key_ok False key" using AShort.prems t by simp
  then show ?case using k(1,2)
  proof (cases rule: short_key_cases)
    case (full rest)
    show ?thesis
    proof (cases "hasTerm k")
      case True
      then obtain v where "c = AVal v" using k(3,4) by (auto simp: sub_ok_def)
      moreover have "rest = []" using full(3) True by (simp add: key_ok_def)
      ultimately show ?thesis using full by auto
    next
      case False
      then obtain cs where cs: "c = AFull cs" "wf_anode c" using sub_ok_AFull k(3-5) by blast
      have r: "key_ok False rest" using full(3) False by simp
      then have rne: "rest \<noteq> []" by (auto simp: key_ok_def)
      let ?c = "adelete c rest"
      have ih: "sub_ok False ?c" "alookup ?c = (alookup c)(rest := None)"
        using AShort.IH[of False rest] k(3) False r by auto
      have ne: "?c \<noteq> AEmpty" using adelete_nonempty cs r by blast
      let ?d = "case ?c of AShort k' c' \<Rightarrow> AShort (k @ k') c' | c' \<Rightarrow> AShort k c'"
      have "adelete (AShort k c) key = ?d" using full(1,2) rne by simp
      moreover have "alookup ?d = alookup (AShort k ?c)"
        by (cases ?c) (simp_all only: atrie.case alookup_AShort_append)
      moreover have "wf_anode ?d"
      proof (cases ?c)
        case (AShort k' c')
        then have w: "wf_anode (AShort k' c')" using ih(1) by simp
        have "nibbles k" using k(1) False by (simp add: hex_key_def)
        then have "hex_key (k @ k')" "hasTerm (k @ k') = hasTerm k'"
          using w by (auto simp: wf_AShort hex_key_def hasTerm_append butlast_append split: if_splits)
        then show ?thesis using AShort w by (auto simp: wf_AShort)
      qed (use ne ih(1) k False in \<open>auto simp: wf_AShort\<close>)
      moreover have "alookup (AShort k ?c) = (alookup (AShort k c))(key := None)"
        using ih(2) full(2) by (auto simp: fun_eq_iff) (metis append_take_drop_id)
      ultimately show ?thesis using t by (simp only: sub_ok_def if_False simp_thms)
    qed
  next
    case (split p x y a b)
    then have "alookup (AShort k c) key = None" by simp
    then show ?thesis using split(1,2) wf t by (auto simp: fun_eq_iff)
  qed
next
  case (AFull cs)
  then have wf: "wf_anode (AFull cs)" and t: "\<not> t" by auto
  then obtain x r where x: "key = x # r" "unat x < 17" "key_ok (unat x = 16) r"
    using AFull.prems(2) key_ok_cases by metis
  have l: "length cs = 17" and s: "\<And>i. i < 17 \<Longrightarrow> sub_ok (i = 16) (cs ! i)" using wf by (auto simp: wf_AFull)
  let ?c = "adelete (cs ! unat x) r" and ?ds = "cs[unat x := adelete (cs ! unat x) r]"
  have ih: "sub_ok (unat x = 16) ?c" "alookup ?c = (alookup (cs ! unat x))(r := None)"
    using AFull.IH[of "cs ! unat x" "unat x = 16" r] l x s by auto
  have look: "alookup (AFull ?ds) = (alookup (AFull cs))(key := None)"
    using x l ih(2) by (auto simp: fun_eq_iff alookup.simps(4) nth_list_update word_unat_eq_iff split: list.split)
  have s': "sub_ok (i = 16) (?ds ! i)" if "i < 17" for i
    using that s[OF that] ih(1) l x(2) by (cases "i = unat x") simp_all
  show ?case
  proof (cases "?c = AEmpty")
    case True
    have "\<exists>i < 17. ?ds ! i \<noteq> AEmpty"
      using sub_ok_nonempty_AFull[OF wf, of "unat x"] l by (auto simp: nth_list_update)
    then have "wf_anode (acollapse ?ds) \<and> alookup (acollapse ?ds) = alookup (AFull ?ds)"
      using acollapse_ok[of ?ds] l s' by simp
    then show ?thesis using True x l look t by (simp add: adelete_AFull_Cons sub_ok_def)
  next
    case False
    then have "\<exists>i j. i < j \<and> j < 17 \<and> ?ds ! i \<noteq> AEmpty \<and> ?ds ! j \<noteq> AEmpty"
      using wf by (intro two_children_update)
    then have "wf_anode (AFull ?ds)" using s' l by (simp add: wf_AFull)
    then show ?thesis using False x l look t by (simp add: adelete_AFull_Cons)
  qed
qed

subsection \<open>The canonical form is determined by the map\<close>

lemma sub_ok_has_key: "sub_ok t a \<Longrightarrow> a \<noteq> AEmpty \<Longrightarrow> \<exists>key v. alookup a key = Some v"
proof (induction a arbitrary: t)
  case (AVal w)
  then show ?case by (intro exI[of _ "[]"] exI[of _ w]) simp
next
  case (AShort k c)
  then have "sub_ok (hasTerm k) c" "c \<noteq> AEmpty" by (auto simp: wf_AShort)
  then obtain key v where "alookup c key = Some v" using AShort.IH by blast
  then have "alookup (AShort k c) (k @ key) = Some v" by simp
  then show ?case by blast
next
  case (AFull cs)
  then have wf: "wf_anode (AFull cs)" by simp
  then obtain i where i: "i < 17" "cs ! i \<noteq> AEmpty" and l: "length cs = 17" "sub_ok (i = 16) (cs ! i)"
    by (auto simp: wf_AFull)
  then obtain key v where "alookup (cs ! i) key = Some v" using AFull.IH[of "cs ! i" "i = 16"] by auto
  then have "alookup (AFull cs) (of_nat i # key) = Some v" using i l by simp
  then show ?case by blast
qed simp

text \<open>A full node holds keys with different first nibbles.\<close>

lemma AFull_two_keys:
  assumes "wf_anode (AFull cs)"
  obtains x r y s where "x \<noteq> y" "alookup (AFull cs) (x # r) \<noteq> None" "alookup (AFull cs) (y # s) \<noteq> None"
proof -
  obtain i j where ij: "i < j" "j < 17" "cs ! i \<noteq> AEmpty" "cs ! j \<noteq> AEmpty"
    and l: "length cs = 17" "\<And>i. i < 17 \<Longrightarrow> sub_ok (i = 16) (cs ! i)"
    using assms by (auto simp: wf_AFull)
  have i: "i < 17" using ij by simp
  obtain r v where r: "alookup (cs ! i) r = Some v" using sub_ok_has_key[OF l(2)[OF i] ij(3)] by blast
  obtain s w where s: "alookup (cs ! j) s = Some w" using sub_ok_has_key[OF l(2)[OF ij(2)] ij(4)] by blast
  have "(of_nat i :: byte) \<noteq> of_nat j" using ij by (auto simp: byte_eq_iff_unat)
  then show ?thesis using that[of "of_nat i" "of_nat j" r s] r s ij l by simp
qed

lemma two_keys_prefix:
  assumes "x \<noteq> y" and "take (length k') (k @ x # r) = k'" and "take (length k') (k @ y # s) = k'"
  shows "length k' \<le> length k"
proof (rule ccontr)
  assume "\<not> length k' \<le> length k"
  then have n: "length k < length k'" by simp
  have "take (length k') (k @ x # r) ! length k = x" "take (length k') (k @ y # s) ! length k = y"
    using n by (simp_all del: take_append)
  then show False using assms by simp
qed

lemma alookup_AShort_app: "alookup (AShort k c) (k @ r) = alookup c r"
  by simp

lemma short_child_cases:
  assumes "wf_anode (AShort k c)"
  obtains (val) v where "hasTerm k" "c = AVal v" | (full) cs where "\<not> hasTerm k" "c = AFull cs" "wf_anode c"
  using assms by (cases c) (auto simp: wf_AShort)

lemma alookup_AShort_prefix: "alookup (AShort k c) key \<noteq> None \<Longrightarrow> take (length k) key = k"
  by (auto split: if_splits)

lemma short_keys_le:
  assumes "wf_anode (AShort k (AFull cs))" and "alookup (AShort k (AFull cs)) = alookup (AShort k' c')"
  shows "length k' \<le> length k \<and> take (length k') k = k'"
proof -
  have "wf_anode (AFull cs)" using assms(1) by (simp add: wf_AShort)
  then obtain x r y s where xy: "x \<noteq> y" and "alookup (AFull cs) (x # r) \<noteq> None"
      "alookup (AFull cs) (y # s) \<noteq> None" by (rule AFull_two_keys)
  then have "alookup (AShort k' c') (k @ x # r) \<noteq> None" "alookup (AShort k' c') (k @ y # s) \<noteq> None"
    unfolding assms(2)[symmetric] alookup_AShort_app by blast+
  then have p: "take (length k') (k @ x # r) = k'" "take (length k') (k @ y # s) = k'"
    using alookup_AShort_prefix by blast+
  have "length k' \<le> length k" using two_keys_prefix[OF xy p] .
  with p(1) show ?thesis by simp
qed

lemma short_full_differ:
  assumes "wf_anode (AFull ds)" and "wf_anode (AShort k c)"
  shows "alookup (AShort k c) \<noteq> alookup (AFull ds)"
proof
  assume e: "alookup (AShort k c) = alookup (AFull ds)"
  obtain x r y s where xy: "x \<noteq> y" "alookup (AFull ds) (x # r) \<noteq> None" "alookup (AFull ds) (y # s) \<noteq> None"
    using assms(1) by (rule AFull_two_keys)
  have "k \<noteq> []" using assms(2) by (simp add: wf_AShort)
  moreover have "take (length k) (x # r) = k" "take (length k) (y # s) = k"
    using xy(2,3) alookup_AShort_prefix unfolding e[symmetric] by blast+
  ultimately show False using xy(1) by (cases k) auto
qed

lemma alookup_leaf: "alookup (AShort k (AVal v)) key \<noteq> None \<longleftrightarrow> key = k"
  by auto

lemma leaf_full_differ: "wf_anode (AFull cs) \<Longrightarrow> alookup (AShort k (AVal v)) \<noteq> alookup (AShort k' (AFull cs))"
proof
  assume wf: "wf_anode (AFull cs)" and e: "alookup (AShort k (AVal v)) = alookup (AShort k' (AFull cs))"
  obtain x r y s where xy: "x \<noteq> y" "alookup (AFull cs) (x # r) \<noteq> None" "alookup (AFull cs) (y # s) \<noteq> None"
    using wf by (rule AFull_two_keys)
  have "alookup (AShort k (AVal v)) (k' @ z) = alookup (AFull cs) z" for z
    unfolding e alookup_AShort_app ..
  then have "k' @ x # r = k" "k' @ y # s = k" using xy(2,3) alookup_leaf by metis+
  then show False using xy(1) by auto
qed

lemma short_keys_eq:
  assumes w: "wf_anode (AShort k c)" and w': "wf_anode (AShort k' c')"
    and e: "alookup (AShort k c) = alookup (AShort k' c')"
  shows "k = k'"
  using w
proof (cases rule: short_child_cases)
  case c: (val v)
  show ?thesis using w'
  proof (cases rule: short_child_cases)
    case (val v')
    then have "alookup (AShort k (AVal v)) k' \<noteq> None" using e c by simp
    then show ?thesis unfolding alookup_leaf by simp
  qed (use leaf_full_differ e c in blast)
next
  case c: (full cs)
  show ?thesis using w'
  proof (cases rule: short_child_cases)
    case (val v')
    then show ?thesis using leaf_full_differ[of cs k' v' k] e c by simp
  next
    case (full cs')
    have "length k' \<le> length k \<and> take (length k') k = k'"
      using short_keys_le[of k cs k' c'] w e c by simp
    moreover have "length k \<le> length k' \<and> take (length k) k' = k"
      using short_keys_le[of k' cs' k c] w' e full by simp
    ultimately show ?thesis by simp
  qed
qed

text \<open>Two canonical trees with the same map are the same tree.\<close>

lemma sub_ok_canonical:
  "sub_ok t a \<Longrightarrow> sub_ok t b \<Longrightarrow> alookup a = alookup b \<Longrightarrow> a = b"
proof (induction a arbitrary: t b)
  case AEmpty
  then have "alookup b key = None" for key by (metis alookup.simps(1))
  then show ?case using sub_ok_has_key[OF AEmpty.prems(2)] by (cases "b = AEmpty") auto
next
  case (AVal v)
  then show ?case
    using sub_ok_has_key[of t b] by (cases b) (auto dest: fun_cong[of _ _ "[]"])
next
  case (AShort k c)
  then have wf: "wf_anode (AShort k c)" and t: "\<not> t" by auto
  obtain key v where "alookup (AShort k c) key = Some v" using sub_ok_has_key AShort.prems(1) by blast
  then have "b \<noteq> AEmpty" using AShort.prems(3) by (metis alookup.simps(1) option.distinct(1))
  then have wb: "wf_anode b" using AShort.prems(2) t by (simp add: sub_ok_def)
  then obtain k' c' where b: "b = AShort k' c'"
    using short_full_differ[OF _ wf] AShort.prems(3) by (cases b) auto
  have k: "k = k'" using short_keys_eq wf wb AShort.prems(3) b by blast
  have "alookup c r = alookup c' r" for r
    using fun_cong[OF AShort.prems(3), of "k @ r"] by (simp add: b k)
  then have "alookup c = alookup c'" ..
  moreover have "sub_ok (hasTerm k) c" "sub_ok (hasTerm k) c'" using wf wb b k by (auto simp: wf_AShort)
  ultimately show ?case using AShort.IH b k by blast
next
  case (AFull cs)
  then have wf: "wf_anode (AFull cs)" and t: "\<not> t" by auto
  obtain key v where "alookup (AFull cs) key = Some v" using sub_ok_has_key AFull.prems(1) by blast
  then have "b \<noteq> AEmpty" using AFull.prems(3) by (metis alookup.simps(1) option.distinct(1))
  then have wb: "wf_anode b" using AFull.prems(2) t by (simp add: sub_ok_def)
  then obtain ds where b: "b = AFull ds"
    using short_full_differ[OF wf] AFull.prems(3) by (cases b) auto
  have l: "length cs = 17" "length ds = 17" using wf wb b by (auto simp: wf_AFull)
  have "cs ! i = ds ! i" if i: "i < 17" for i
  proof (rule AFull.IH)
    show "cs ! i \<in> set cs" using i l by simp
    show "sub_ok (i = 16) (cs ! i)" "sub_ok (i = 16) (ds ! i)" using wf wb b i by (auto simp: wf_AFull)
    have "alookup (cs ! i) r = alookup (ds ! i) r" for r
      using fun_cong[OF AFull.prems(3), of "of_nat i # r"] i l by (simp add: b)
    then show "alookup (cs ! i) = alookup (ds ! i)" ..
  qed
  then show ?case using l b by (simp add: nth_equalityI)
qed

end
