(* ===== verification/Rlp_Head.thy ===== *)
theory Rlp_Head
  imports Prelude
begin

section \<open>RLP integers and headers\<close>

text \<open>
  The helper functions at the end of \<open>rlp/encode.go\<close>: \<open>putint\<close>, \<open>intsize\<close>,
  \<open>headsize\<close> and \<open>puthead\<close>, and the reference they are compared with: big-endian
  byte strings of natural numbers (\<open>be_bytes\<close>, \<open>be_val\<close>) and the header and item
  encodings of the RLP format (\<open>rlp_head\<close>, \<open>rlp_enc\<close>).
\<close>

subsection \<open>Big-endian numbers\<close>

text \<open>The minimal big-endian representation of a number, and the number a byte string denotes.\<close>

fun be_bytes :: "nat \<Rightarrow> bytes" where
  "be_bytes n = (if n = 0 then [] else be_bytes (n div 256) @ [of_nat n])"

declare be_bytes.simps [simp del]

definition be_val :: "bytes \<Rightarrow> nat" where
  "be_val bs = foldl (\<lambda>a b. a * 256 + unat b) 0 bs"

definition be_word :: "bytes \<Rightarrow> uint64" where
  "be_word bs = foldl (\<lambda>a b. push_bit 8 a OR ucast b) 0 bs"

lemma be_bytes_0 [simp]: "be_bytes 0 = []"
  by (simp add: be_bytes.simps)

lemma be_bytes_pos: "0 < n \<Longrightarrow> be_bytes n = be_bytes (n div 256) @ [of_nat n]"
  by (simp add: be_bytes.simps[of n])

lemma be_val_Nil [simp]: "be_val [] = 0"
  by (simp add: be_val_def)

lemma be_val_snoc [simp]: "be_val (bs @ [b]) = be_val bs * 256 + unat b"
  by (simp add: be_val_def)

lemma be_val_single [simp]: "be_val [b] = unat b"
  by (simp add: be_val_def)

lemma be_val_bound: "be_val bs < 256 ^ length bs"
proof (induction bs rule: rev_induct)
  case (snoc b bs)
  have "be_val bs * 256 + unat b < (be_val bs + 1) * 256" by simp
  also have "\<dots> \<le> 256 ^ length bs * 256"
    using snoc by (intro mult_right_mono) simp_all
  finally show ?case by simp
qed simp

lemma be_val_be_bytes [simp]: "be_val (be_bytes n) = n"
proof (induction n rule: be_bytes.induct)
  case (1 n)
  then show ?case by (cases "n = 0") (simp_all add: be_bytes_pos)
qed

lemma be_val_Cons: "be_val (b # bs) = unat b * 256 ^ length bs + be_val bs"
proof (induction bs rule: rev_induct)
  case (snoc c bs)
  have "be_val (b # bs @ [c]) = be_val (b # bs) * 256 + unat c"
    using be_val_snoc[of "b # bs" c] by simp
  with snoc show ?case by simp
qed simp

lemma be_val_ge: "b \<noteq> 0 \<Longrightarrow> 256 ^ length bs \<le> be_val (b # bs)"
proof -
  assume "b \<noteq> 0"
  then have "1 \<le> unat b" by (simp add: unat_gt_0 Suc_le_eq)
  then have "1 * 256 ^ length bs \<le> unat b * 256 ^ length bs" by (rule mult_right_mono) simp
  then show ?thesis unfolding be_val_Cons by linarith
qed

lemma be_bytes_be_val: "bs = [] \<or> hd bs \<noteq> 0 \<Longrightarrow> be_bytes (be_val bs) = bs"
proof (induction bs rule: rev_induct)
  case (snoc b bs)
  show ?case
  proof (cases "bs = []")
    case True
    with snoc.prems show ?thesis
      by (simp add: be_bytes_pos unat_gt_0)
  next
    case False
    with snoc have IH: "be_bytes (be_val bs) = bs" by simp
    obtain c cs where bs: "bs = c # cs" using False by (cases bs) auto
    have "c \<noteq> 0" using snoc.prems bs by simp
    then have "256 ^ length cs \<le> be_val bs" using be_val_ge[of c cs] bs by simp
    moreover have "0 < (256::nat) ^ length cs" by simp
    ultimately have "0 < be_val bs" by linarith
    then have "be_bytes (be_val bs * 256 + unat b)
        = be_bytes ((be_val bs * 256 + unat b) div 256) @ [of_nat (be_val bs * 256 + unat b)]"
      by (intro be_bytes_pos) simp
    moreover have "(be_val bs * 256 + unat b) div 256 = be_val bs"
      by (simp add: div_add1_eq)
    moreover have "(of_nat (be_val bs * 256 + unat b) :: byte) = b"
      by (simp only: byte_eq_iff_unat unat_byte_of_nat) simp
    ultimately show ?thesis using IH by simp
  qed
qed simp

lemma hd_be_bytes: "0 < n \<Longrightarrow> be_bytes n \<noteq> [] \<and> hd (be_bytes n) \<noteq> 0"
proof (induction n rule: be_bytes.induct)
  case (1 n)
  show ?case
  proof (cases "n < 256")
    case True
    with 1 show ?thesis by (simp add: be_bytes_pos byte_eq_iff_unat)
  next
    case False
    with 1 have "be_bytes (n div 256) \<noteq> [] \<and> hd (be_bytes (n div 256)) \<noteq> 0" by simp
    with 1 show ?thesis by (simp add: be_bytes_pos)
  qed
qed

lemma be_bytes_Nil [simp]: "be_bytes n = [] \<longleftrightarrow> n = 0"
  using hd_be_bytes[of n] by (cases "n = 0") auto

lemma length_be_bytes_le: "n < 256 ^ k \<Longrightarrow> length (be_bytes n) \<le> k"
proof (induction k arbitrary: n)
  case (Suc k)
  then show ?case
    by (cases "n = 0") (simp_all add: be_bytes_pos div_less_iff_less_mult)
qed simp

lemma length_be_bytes_ge: "256 ^ k \<le> n \<Longrightarrow> k < length (be_bytes n)"
proof (rule ccontr)
  assume n: "256 ^ k \<le> n" and "\<not> k < length (be_bytes n)"
  then have "256 ^ length (be_bytes n) \<le> (256::nat) ^ k"
    by (intro power_increasing) simp_all
  with be_val_bound[of "be_bytes n"] n show False by simp
qed

text \<open>The digits of a number of known size, most significant first.\<close>

lemma be_bytes_digits:
  "256 ^ k \<le> n \<Longrightarrow> n < 256 ^ Suc k \<Longrightarrow>
     be_bytes n = map (\<lambda>j. of_nat (n div 256 ^ j)) (rev [0..<Suc k])"
proof (induction k arbitrary: n)
  case 0
  then show ?case by (simp add: be_bytes_pos)
next
  case (Suc k)
  have lo: "256 ^ k \<le> n div 256"
    using Suc.prems(1) by (simp add: less_eq_div_iff_mult_less_eq mult.commute)
  have hi: "n div 256 < 256 ^ Suc k"
    using Suc.prems(2) by (simp add: div_less_iff_less_mult mult.commute)
  have "0 < n" using Suc.prems(1) by (metis gr0I leD zero_less_numeral zero_less_power)
  then have "be_bytes n = map (\<lambda>j. of_nat (n div 256 div 256 ^ j)) (rev [0..<Suc k]) @ [of_nat n]"
    using Suc.IH[OF lo hi] by (simp add: be_bytes_pos)
  also have "map (\<lambda>j. of_nat (n div 256 div 256 ^ j)) (rev [0..<Suc k])
      = map (\<lambda>j. (of_nat (n div 256 ^ j) :: byte)) (rev [1..<Suc (Suc k)])"
  proof -
    have "[1..<Suc (Suc k)] = map Suc [0..<Suc k]" by (simp add: map_Suc_upt del: upt_Suc)
    then show ?thesis by (simp add: rev_map o_def div_mult2_eq del: upt_Suc)
  qed
  also have "\<dots> @ [of_nat n] = map (\<lambda>j. of_nat (n div 256 ^ j)) (rev [0..<Suc (Suc k)])"
    by (simp add: upt_conv_Cons del: upt_Suc)
  finally show ?case .
qed

lemma byte_drop_bit: "(ucast (drop_bit m (i :: uint64)) :: byte) = of_nat (unat i div 2 ^ m)"
  by (simp add: byte_eq_iff_unat unsigned_ucast_eq take_bit_eq_mod unat_drop_bit_eq
      drop_bit_eq_div[of m "unat i"])

lemma be_bytes_unat:
  assumes "256 ^ k \<le> unat i" and "unat i < 256 ^ Suc k"
  shows "be_bytes (unat (i :: uint64)) = map (\<lambda>j. ucast (drop_bit (8 * j) i)) (rev [0..<Suc k])"
  using be_bytes_digits[OF assms] by (simp add: byte_drop_bit power_mult del: upt_Suc)

lemma unat_be_word: "length bs \<le> 8 \<Longrightarrow> unat (be_word bs) = be_val bs"
proof (induction bs rule: rev_induct)
  case Nil
  then show ?case by (simp add: be_word_def)
next
  case (snoc b bs)
  let ?a = "be_word bs"
  have a: "unat ?a = be_val bs" using snoc by simp
  have lt: "be_val bs < 256 ^ 7"
    by (rule less_le_trans[OF be_val_bound power_increasing]) (use snoc.prems in simp_all)
  have disj: "push_bit 8 ?a AND ucast b = 0"
    by (rule bit_word_eqI) (auto simp: bit_simps dest: bit_imp_le_length)
  have "be_word (bs @ [b]) = push_bit 8 ?a OR ucast b"
    by (simp add: be_word_def)
  also have "\<dots> = push_bit 8 ?a + ucast b"
    using disj by (simp add: disjunctive_add_eq_or)
  finally have e: "be_word (bs @ [b]) = push_bit 8 ?a + ucast b" .
  have p: "unat (push_bit 8 ?a) = be_val bs * 256"
    using lt a by (simp add: push_bit_eq_mult unat_word_ariths)
  have u: "unat (ucast b :: uint64) = unat b"
    by (simp add: unsigned_ucast_eq take_bit_eq_mod mod_less less_trans[OF unat_byte_less])
  have "be_val bs < 72057594037927936" using lt by simp
  then have "be_val bs * 256 + unat b < 18446744073709551616"
    using unat_byte_less[of b] by linarith
  then show ?case
    unfolding e by (simp add: unat_word_ariths p u)
qed

subsection \<open>The integer and header writers of \<open>rlp/encode.go\<close>\<close>

text \<open>
  \<open>putint\<close> writes an integer to the start of a buffer and returns the number of bytes
  written; the model returns the bytes written, whose number is the returned size.
\<close>

definition putint :: "uint64 \<Rightarrow> bytes" where
  "putint i =
    (if i < 0x100 then [ucast i]
     else if i < 0x10000 then [ucast (drop_bit 8 i), ucast i]
     else if i < 0x1000000 then [ucast (drop_bit 16 i), ucast (drop_bit 8 i), ucast i]
     else if i < 0x100000000 then
       [ucast (drop_bit 24 i), ucast (drop_bit 16 i), ucast (drop_bit 8 i), ucast i]
     else if i < 0x10000000000 then
       [ucast (drop_bit 32 i), ucast (drop_bit 24 i), ucast (drop_bit 16 i), ucast (drop_bit 8 i),
        ucast i]
     else if i < 0x1000000000000 then
       [ucast (drop_bit 40 i), ucast (drop_bit 32 i), ucast (drop_bit 24 i), ucast (drop_bit 16 i),
        ucast (drop_bit 8 i), ucast i]
     else if i < 0x100000000000000 then
       [ucast (drop_bit 48 i), ucast (drop_bit 40 i), ucast (drop_bit 32 i), ucast (drop_bit 24 i),
        ucast (drop_bit 16 i), ucast (drop_bit 8 i), ucast i]
     else
       [ucast (drop_bit 56 i), ucast (drop_bit 48 i), ucast (drop_bit 40 i), ucast (drop_bit 32 i),
        ucast (drop_bit 24 i), ucast (drop_bit 16 i), ucast (drop_bit 8 i), ucast i])"

text \<open>The loop of \<open>intsize\<close>: shift right by one byte until nothing is left.\<close>

function intsize :: "uint64 \<Rightarrow> nat" where
  "intsize i = (let i' = drop_bit 8 i in if i' = 0 then 1 else Suc (intsize i'))"
  by pat_completeness auto
termination
proof (relation "measure unat")
  fix i x :: uint64
  assume x: "x = drop_bit 8 i" and "\<not> x = 0"
  have "unat x = unat i div 256"
    using x by (simp add: unat_drop_bit_eq drop_bit_eq_div[of 8 "unat i"])
  moreover have "0 < unat x" using \<open>\<not> x = 0\<close> by (simp add: unat_gt_0)
  ultimately show "(x, i) \<in> measure unat" by simp
qed simp

declare intsize.simps [simp del]

definition headsize :: "uint64 \<Rightarrow> nat" where
  "headsize sz = (if sz < 56 then 1 else 1 + intsize sz)"

text \<open>\<open>puthead\<close> writes a string or list header; again the model returns the bytes written.\<close>

definition puthead :: "byte \<Rightarrow> byte \<Rightarrow> uint64 \<Rightarrow> bytes" where
  "puthead smalltag largetag sz =
    (if sz < 56 then [smalltag + ucast sz]
     else let sizesize = putint sz
          in (largetag + of_nat (length sizesize)) # sizesize)"

lemma putint_be_bytes: "i \<noteq> 0 \<Longrightarrow> putint i = be_bytes (unat i)"
proof -
  assume i: "i \<noteq> 0"
  have lt: "unat i < 18446744073709551616" using unsigned_less[of i, where ?'a = nat] by simp
  have pos: "0 < unat i" using i by (simp add: unat_gt_0)
  have cmp:
    "i < 0x100 \<longleftrightarrow> unat i < 256" "i < 0x10000 \<longleftrightarrow> unat i < 65536"
    "i < 0x1000000 \<longleftrightarrow> unat i < 16777216" "i < 0x100000000 \<longleftrightarrow> unat i < 4294967296"
    "i < 0x10000000000 \<longleftrightarrow> unat i < 1099511627776"
    "i < 0x1000000000000 \<longleftrightarrow> unat i < 281474976710656"
    "i < 0x100000000000000 \<longleftrightarrow> unat i < 72057594037927936"
    by (simp_all add: word_less_nat_alt)
  note digits = be_bytes_unat[of _ i]
  consider "unat i < 256" | "256 \<le> unat i" "unat i < 65536" | "65536 \<le> unat i" "unat i < 16777216"
    | "16777216 \<le> unat i" "unat i < 4294967296" | "4294967296 \<le> unat i" "unat i < 1099511627776"
    | "1099511627776 \<le> unat i" "unat i < 281474976710656"
    | "281474976710656 \<le> unat i" "unat i < 72057594037927936" | "72057594037927936 \<le> unat i"
    by linarith
  then show ?thesis
  proof cases
    case 1 then show ?thesis using digits[of 0] pos by (simp add: putint_def cmp upt_rec)
  next
    case 2 then show ?thesis using digits[of 1] by (simp add: putint_def cmp upt_rec)
  next
    case 3 then show ?thesis using digits[of 2] by (simp add: putint_def cmp upt_rec)
  next
    case 4 then show ?thesis using digits[of 3] by (simp add: putint_def cmp upt_rec)
  next
    case 5 then show ?thesis using digits[of 4] by (simp add: putint_def cmp upt_rec)
  next
    case 6 then show ?thesis using digits[of 5] by (simp add: putint_def cmp upt_rec)
  next
    case 7 then show ?thesis using digits[of 6] by (simp add: putint_def cmp upt_rec)
  next
    case 8 then show ?thesis using digits[of 7] lt by (simp add: putint_def cmp upt_rec)
  qed
qed

lemma putint_0 [simp]: "putint 0 = [0]"
  by (simp add: putint_def)

lemma putint_nonempty [simp]: "putint i \<noteq> []"
  by (simp add: putint_def)

lemma length_putint_le: "length (putint i) \<le> 8"
  by (simp add: putint_def)

lemma be_val_putint [simp]: "be_val (putint i) = unat i"
  by (cases "i = 0") (simp_all add: putint_be_bytes)

lemma length_be_bytes_step: "256 \<le> n \<Longrightarrow> length (be_bytes n) = Suc (length (be_bytes (n div 256)))"
  by (simp add: be_bytes_pos)

lemma intsize_length_putint: "intsize i = length (putint i)"
proof (induction i rule: intsize.induct)
  case (1 i)
  have d: "unat (drop_bit 8 i) = unat i div 256"
    by (simp add: unat_drop_bit_eq drop_bit_eq_div[of 8 "unat i"])
  show ?case
  proof (cases "drop_bit 8 i = 0")
    case True
    then have "unat i < 256" using d by (simp add: div_eq_0_iff)
    then have "i < 256" by (simp add: word_less_nat_alt)
    with True show ?thesis by (simp add: intsize.simps[of i] putint_def)
  next
    case False
    then have i: "i \<noteq> 0" "256 \<le> unat i"
      using d by (auto simp: div_eq_0_iff not_less dest!: unat_gt_0[THEN iffD2])
    then show ?thesis
      using 1[OF refl False] False d
      by (simp add: intsize.simps[of i] Let_def putint_be_bytes length_be_bytes_step)
  qed
qed

subsection \<open>The RLP format\<close>

text \<open>
  The reference definition of the format: a value is a byte string or a list of values; a
  header gives the kind and the payload length; a byte below 128 is its own encoding.
\<close>

datatype rlp_item = RStr bytes | RList "rlp_item list"

definition rlp_head :: "byte \<Rightarrow> byte \<Rightarrow> nat \<Rightarrow> bytes" where
  "rlp_head smalltag largetag n =
    (if n < 56 then [smalltag + of_nat n]
     else (largetag + of_nat (length (be_bytes n))) # be_bytes n)"

definition rlp_str :: "bytes \<Rightarrow> bytes" where
  "rlp_str b = (if length b = 1 \<and> hd b < 0x80 then b else rlp_head 0x80 0xB7 (length b) @ b)"

definition rlp_list :: "bytes \<Rightarrow> bytes" where
  "rlp_list c = rlp_head 0xC0 0xF7 (length c) @ c"

fun rlp_enc :: "rlp_item \<Rightarrow> bytes" where
  "rlp_enc (RStr b) = rlp_str b"
| "rlp_enc (RList xs) = rlp_list (concat (map rlp_enc xs))"

lemma rlp_head_nonempty [simp]: "rlp_head s l n \<noteq> []"
  by (simp add: rlp_head_def)

lemma rlp_str_nonempty [simp]: "rlp_str b \<noteq> []"
  by (auto simp: rlp_str_def)

lemma rlp_list_nonempty [simp]: "rlp_list b \<noteq> []"
  by (simp add: rlp_list_def)

lemma rlp_enc_nonempty [simp]: "rlp_enc x \<noteq> []"
  by (cases x) simp_all

lemma length_rlp_str_ge: "length b \<le> length (rlp_str b)"
  by (simp add: rlp_str_def)

lemma length_rlp_list_gt: "length b < length (rlp_list b)"
  by (auto simp: rlp_list_def rlp_head_def)

lemma length_rlp_str_Nil [rlp_simps]: "rlp_str [] = [0x80]"
  by (simp add: rlp_str_def rlp_head_def)

lemma word64_of_nat_less_56: "n < 2 ^ 64 \<Longrightarrow> (of_nat n :: uint64) < 56 \<longleftrightarrow> n < 56"
  by (simp add: word_less_nat_alt unat_of_nat)

lemma puthead_rlp_head:
  assumes "n < 2 ^ 64"
  shows "puthead smalltag largetag (of_nat n) = rlp_head smalltag largetag n"
proof -
  have u: "unat (of_nat n :: uint64) = n" using assms by (simp add: unat_of_nat)
  have c: "(ucast (of_nat n :: uint64) :: byte) = of_nat n"
    by (metis byte_drop_bit div_by_1 drop_bit_0 id_apply power_0 u)
  show ?thesis
  proof (cases "n < 56")
    case True
    with assms c show ?thesis by (simp add: puthead_def rlp_head_def word64_of_nat_less_56)
  next
    case False
    then have "(of_nat n :: uint64) \<noteq> 0" using u by (metis gr0I unsigned_0 zero_less_numeral)
    with False assms u show ?thesis
      by (simp add: puthead_def rlp_head_def word64_of_nat_less_56 putint_be_bytes Let_def)
  qed
qed

lemma headsize_rlp_head:
  assumes "n < 2 ^ 64"
  shows "headsize (of_nat n) = length (rlp_head smalltag largetag n)"
proof -
  have "length (puthead smalltag largetag (of_nat n)) = headsize (of_nat n)"
    by (simp add: puthead_def headsize_def intsize_length_putint Let_def)
  with puthead_rlp_head[OF assms] show ?thesis by simp
qed

lemma length_rlp_head_le: "n < 2 ^ 64 \<Longrightarrow> length (rlp_head s l n) \<le> 9"
  using length_be_bytes_le[of n 8] by (simp add: rlp_head_def)

end
