(* ===== verification/Rlp_Raw.thy ===== *)
theory Rlp_Raw
  imports Rlp_Head
begin

section \<open>Splitting RLP byte strings (rlp/raw.go)\<close>

text \<open>
  The functions of \<open>rlp/raw.go\<close> that take encoded values apart without a stream:
  \<open>readKind\<close>, \<open>readSize\<close>, \<open>Split\<close>, \<open>SplitString\<close>, \<open>SplitList\<close>,
  \<open>SplitUint64\<close>, \<open>CountValues\<close>, and the size and append helpers.  An error result is
  \<open>Inl\<close>; the other results the code returns beside an error are zero values or the input,
  and only the list iterator looks at them (theory \<open>Rlp_Iterator\<close>).
\<close>

datatype kind = Byte | String | List

datatype rlp_error =
    ErrUnexpectedEOF
  | EOF
  | EOL
  | ErrExpectedString
  | ErrExpectedList
  | ErrCanonInt
  | ErrCanonSize
  | ErrElemTooLarge
  | ErrValueTooLarge
  | ErrMoreThanOneValue
  | ErrNotInList
  | ErrNotAtEOL
  | ErrUintOverflow
  | ErrWrongSize uint64 nat
  | ErrInvalidBool uint64
  | StreamPanic

subsection \<open>Definitions\<close>

definition readSize :: "bytes \<Rightarrow> byte \<Rightarrow> rlp_error + uint64" where
  "readSize b slen =
    (if unat slen > length b then Inl ErrUnexpectedEOF
     else
       let u = (\<lambda>i. ucast (b ! i) :: uint64);
           s = (if slen = 1 then u 0
                else if slen = 2 then push_bit 8 (u 0) OR u 1
                else if slen = 3 then push_bit 16 (u 0) OR push_bit 8 (u 1) OR u 2
                else if slen = 4 then push_bit 24 (u 0) OR push_bit 16 (u 1) OR push_bit 8 (u 2)
                  OR u 3
                else if slen = 5 then push_bit 32 (u 0) OR push_bit 24 (u 1) OR push_bit 16 (u 2)
                  OR push_bit 8 (u 3) OR u 4
                else if slen = 6 then push_bit 40 (u 0) OR push_bit 32 (u 1) OR push_bit 24 (u 2)
                  OR push_bit 16 (u 3) OR push_bit 8 (u 4) OR u 5
                else if slen = 7 then push_bit 48 (u 0) OR push_bit 40 (u 1) OR push_bit 32 (u 2)
                  OR push_bit 24 (u 3) OR push_bit 16 (u 4) OR push_bit 8 (u 5) OR u 6
                else if slen = 8 then push_bit 56 (u 0) OR push_bit 48 (u 1) OR push_bit 40 (u 2)
                  OR push_bit 32 (u 3) OR push_bit 24 (u 4) OR push_bit 16 (u 5)
                  OR push_bit 8 (u 6) OR u 7
                else 0)
       in if s < 56 \<or> b ! 0 = 0 then Inl ErrCanonSize else Inr s)"

definition readKind :: "bytes \<Rightarrow> rlp_error + (kind \<times> uint64 \<times> uint64)" where
  "readKind buf =
    (case buf of
       [] \<Rightarrow> Inl ErrUnexpectedEOF
     | b # rest \<Rightarrow>
       (let r = (if b < 0x80 then Inr (Byte, 0, 1)
                 else if b < 0xB8 then
                   (let contentsize = ucast (b - 0x80) in
                    if contentsize = 1 \<and> length buf > 1 \<and> buf ! 1 < 128 then Inl ErrCanonSize
                    else Inr (String, 1, contentsize))
                 else if b < 0xC0 then
                   (case readSize rest (b - 0xB7) of Inl e \<Rightarrow> Inl e
                    | Inr s \<Rightarrow> Inr (String, ucast (b - 0xB7) + 1, s))
                 else if b < 0xF8 then Inr (List, 1, ucast (b - 0xC0))
                 else
                   (case readSize rest (b - 0xF7) of Inl e \<Rightarrow> Inl e
                    | Inr s \<Rightarrow> Inr (List, ucast (b - 0xF7) + 1, s)))
        in case r of Inl e \<Rightarrow> Inl e
           | Inr (k, tagsize, contentsize) \<Rightarrow>
               if contentsize > of_nat (length buf) - tagsize then Inl ErrValueTooLarge
               else Inr (k, tagsize, contentsize)))"

text \<open>
  The slice expressions \<open>b[ts:ts+cs]\<close> and \<open>b[ts+cs:]\<close> are within bounds and
  \<open>ts+cs\<close> does not wrap around, by lemma \<open>readKind_bounds\<close> below; so the sum is
  written over natural numbers.
\<close>

definition Split :: "bytes \<Rightarrow> rlp_error + (kind \<times> bytes \<times> bytes)" where
  "Split b =
    (case readKind b of Inl e \<Rightarrow> Inl e
     | Inr (k, ts, cs) \<Rightarrow>
         Inr (k, subslice (unat ts) (unat ts + unat cs) b, drop (unat ts + unat cs) b))"

definition SplitString :: "bytes \<Rightarrow> rlp_error + (bytes \<times> bytes)" where
  "SplitString b =
    (case Split b of Inl e \<Rightarrow> Inl e
     | Inr (k, content, rest) \<Rightarrow> if k = List then Inl ErrExpectedString else Inr (content, rest))"

definition SplitList :: "bytes \<Rightarrow> rlp_error + (bytes \<times> bytes)" where
  "SplitList b =
    (case Split b of Inl e \<Rightarrow> Inl e
     | Inr (k, content, rest) \<Rightarrow> if k \<noteq> List then Inl ErrExpectedList else Inr (content, rest))"

definition SplitUint64 :: "bytes \<Rightarrow> rlp_error + (uint64 \<times> bytes)" where
  "SplitUint64 b =
    (case SplitString b of Inl e \<Rightarrow> Inl e
     | Inr (content, rest) \<Rightarrow>
         if length content = 0 then Inr (0, rest)
         else if length content = 1 then
           (if content ! 0 = 0 then Inl ErrCanonInt else Inr (ucast (content ! 0), rest))
         else if length content > 8 then Inl ErrUintOverflow
         else (case readSize content (of_nat (length content)) of
                 Inl _ \<Rightarrow> Inl ErrCanonInt
               | Inr x \<Rightarrow> Inr (x, rest)))"

lemma readKind_progress: "readKind b = Inr (k, ts, cs) \<Longrightarrow> b \<noteq> [] \<and> 0 < unat ts + unat cs"
proof -
  assume r: "readKind b = Inr (k, ts, cs)"
  then obtain x r' where b: "b = x # r'" by (cases b) (simp_all add: readKind_def)
  have nz: "ucast (x - 0xB7) + (1 :: uint64) \<noteq> 0" "ucast (x - 0xF7) + (1 :: uint64) \<noteq> 0"
    by (simp_all add: word_unat_eq_iff unat_word_ariths unsigned_ucast_eq take_bit_eq_mod
        less_trans[OF unat_byte_less] mod_less)
  show ?thesis
    using r b nz
    by (auto simp: readKind_def Let_def unat_gt_0 split: if_splits sum.splits)
qed

function CountValues_loop :: "bytes \<Rightarrow> nat \<Rightarrow> rlp_error + nat" where
  "CountValues_loop b i =
    (if length b = 0 then Inr i
     else (case readKind b of Inl e \<Rightarrow> Inl e
           | Inr (_, tagsize, sz) \<Rightarrow> CountValues_loop (drop (unat tagsize + unat sz) b) (Suc i)))"
  by pat_completeness auto
termination
  by (relation "measure (\<lambda>(b, i). length b)") (auto dest: readKind_progress)

declare CountValues_loop.simps [simp del]

definition CountValues :: "bytes \<Rightarrow> rlp_error + nat" where
  "CountValues b = CountValues_loop b 0"

definition ListSize :: "uint64 \<Rightarrow> uint64" where
  "ListSize contentSize = of_nat (headsize contentSize) + contentSize"

definition IntSize :: "uint64 \<Rightarrow> nat" where
  "IntSize x = (if x < 0x80 then 1 else 1 + intsize x)"

definition AppendUint64 :: "bytes \<Rightarrow> uint64 \<Rightarrow> bytes" where
  "AppendUint64 b i =
    (if i = 0 then b @ [0x80]
     else if i < 128 then b @ [ucast i]
     else if i < 0x100 then b @ [0x81, ucast i]
     else if i < 0x10000 then b @ [0x82, ucast (drop_bit 8 i), ucast i]
     else if i < 0x1000000 then
       b @ [0x83, ucast (drop_bit 16 i), ucast (drop_bit 8 i), ucast i]
     else if i < 0x100000000 then
       b @ [0x84, ucast (drop_bit 24 i), ucast (drop_bit 16 i), ucast (drop_bit 8 i), ucast i]
     else if i < 0x10000000000 then
       b @ [0x85, ucast (drop_bit 32 i), ucast (drop_bit 24 i), ucast (drop_bit 16 i),
            ucast (drop_bit 8 i), ucast i]
     else if i < 0x1000000000000 then
       b @ [0x86, ucast (drop_bit 40 i), ucast (drop_bit 32 i), ucast (drop_bit 24 i),
            ucast (drop_bit 16 i), ucast (drop_bit 8 i), ucast i]
     else if i < 0x100000000000000 then
       b @ [0x87, ucast (drop_bit 48 i), ucast (drop_bit 40 i), ucast (drop_bit 32 i),
            ucast (drop_bit 24 i), ucast (drop_bit 16 i), ucast (drop_bit 8 i), ucast i]
     else
       b @ [0x88, ucast (drop_bit 56 i), ucast (drop_bit 48 i), ucast (drop_bit 40 i),
            ucast (drop_bit 32 i), ucast (drop_bit 24 i), ucast (drop_bit 16 i),
            ucast (drop_bit 8 i), ucast i])"

subsection \<open>Size fields\<close>

lemma readSize_be_word:
  assumes "length d = unat slen" and "1 \<le> unat slen" and "unat slen \<le> 8"
  shows "readSize (d @ r) slen =
    (if be_word d < 56 \<or> hd d = 0 then Inl ErrCanonSize else Inr (be_word d))"
proof -
  define n where "n = unat slen"
  have sl: "slen = of_nat n" by (simp add: n_def)
  have n: "length d = n" "n \<in> {1, 2, 3, 4, 5, 6, 7, 8}" using assms by (auto simp: n_def)
  note decompose = length_Suc_conv eval_nat_numeral
  note ev = readSize_def be_word_def Let_def push_bit_or or.assoc
  from n(2) consider "n = 1" | "n = 2" | "n = 3" | "n = 4" | "n = 5" | "n = 6" | "n = 7" | "n = 8"
    by blast
  then show ?thesis
  proof cases
    case 1
    with n(1) obtain a where d: "d = [a]" by (auto simp: decompose)
    show ?thesis unfolding d sl 1 by (simp add: ev)
  next
    case 2
    with n(1) obtain a b where d: "d = [a, b]" by (auto simp: decompose)
    show ?thesis unfolding d sl 2 by (simp add: ev)
  next
    case 3
    with n(1) obtain a b c where d: "d = [a, b, c]" by (auto simp: decompose)
    show ?thesis unfolding d sl 3 by (simp add: ev)
  next
    case 4
    with n(1) obtain a b c e where d: "d = [a, b, c, e]" by (auto simp: decompose)
    show ?thesis unfolding d sl 4 by (simp add: ev)
  next
    case 5
    with n(1) obtain a b c e f where d: "d = [a, b, c, e, f]" by (auto simp: decompose)
    show ?thesis unfolding d sl 5 by (simp add: ev)
  next
    case 6
    with n(1) obtain a b c e f g where d: "d = [a, b, c, e, f, g]" by (auto simp: decompose)
    show ?thesis unfolding d sl 6 by (simp add: ev)
  next
    case 7
    with n(1) obtain a b c e f g h where d: "d = [a, b, c, e, f, g, h]" by (auto simp: decompose)
    show ?thesis unfolding d sl 7 by (simp add: ev)
  next
    case 8
    with n(1) obtain a b c e f g h i where d: "d = [a, b, c, e, f, g, h, i]" by (auto simp: decompose)
    show ?thesis unfolding d sl 8 by (simp add: ev)
  qed
qed

lemma readSize_short: "length b < unat slen \<Longrightarrow> readSize b slen = Inl ErrUnexpectedEOF"
  by (simp add: readSize_def)

text \<open>
  A size field of one to eight bytes is read exactly when it is the minimal encoding of
  a number of at least 56.
\<close>

lemma readSize_iff:
  assumes "1 \<le> unat slen" and "unat slen \<le> 8"
  shows "readSize b slen = Inr s \<longleftrightarrow>
    56 \<le> unat s \<and> length (be_bytes (unat s)) = unat slen \<and> take (unat slen) b = be_bytes (unat s)"
    (is "?L \<longleftrightarrow> ?R")
proof (cases "unat slen \<le> length b")
  case False
  then have "take (unat slen) b \<noteq> be_bytes (unat s) \<or> length (be_bytes (unat s)) \<noteq> unat slen"
    by (metis length_take min.absorb_iff2 min.commute)
  with False show ?thesis by (auto simp: readSize_short)
next
  case True
  let ?d = "take (unat slen) b"
  have len: "length ?d = unat slen" using True by simp
  have r: "readSize b slen =
      (if be_word ?d < 56 \<or> hd ?d = 0 then Inl ErrCanonSize else Inr (be_word ?d))"
    using readSize_be_word[OF len assms, of "drop (unat slen) b"] by simp
  have w: "unat (be_word ?d) = be_val ?d" using len assms by (simp add: unat_be_word)
  show ?thesis
  proof
    assume ?L
    then have s: "s = be_word ?d" and nz: "hd ?d \<noteq> 0" and "\<not> be_word ?d < 56"
      using r by (auto split: if_splits)
    then have "be_bytes (unat s) = ?d" using w by (simp add: be_bytes_be_val)
    with \<open>\<not> be_word ?d < 56\<close> s len show ?R by (simp add: word_less_nat_alt)
  next
    assume R: ?R
    then have d: "?d = be_bytes (unat s)" by simp
    with w have "unat (be_word ?d) = unat s" by simp
    then have e: "be_word ?d = s" by (simp add: word_unat_eq_iff)
    have "hd ?d \<noteq> 0" using d R hd_be_bytes[of "unat s"] by simp
    with e R show ?L using r by (simp add: word_less_nat_alt)
  qed
qed

text \<open>The value of \<open>readKind\<close>, in terms of the header format.\<close>

definition kind_head :: "kind \<Rightarrow> nat \<Rightarrow> bytes" where
  "kind_head k n =
    (case k of Byte \<Rightarrow> [] | String \<Rightarrow> rlp_head 0x80 0xB7 n | List \<Rightarrow> rlp_head 0xC0 0xF7 n)"

text \<open>A string of one byte below 128 must not carry a header.\<close>

definition canonical :: "kind \<Rightarrow> bytes \<Rightarrow> bool" where
  "canonical k c =
    (case k of Byte \<Rightarrow> length c = 1 \<and> hd c < 0x80
     | String \<Rightarrow> \<not> (length c = 1 \<and> hd c < 0x80)
     | List \<Rightarrow> True)"

lemma unat_eq_Suc_0: "unat (w :: uint64) = Suc 0 \<longleftrightarrow> w = 1"
  by (simp add: word_unat_eq_iff)

lemma unat_eq_0_iff: "unat (w :: uint64) = 0 \<longleftrightarrow> w = 0"
  by (simp add: word_unat_eq_iff)

lemma unat_sub_tag: "t \<le> x \<Longrightarrow> unat (x - t) = unat x - unat (t :: byte)"
  by (rule unat_sub)

lemma unat_ucast_byte [simp]: "unat (ucast (x :: byte) :: uint64) = unat x"
  by (simp add: unsigned_ucast_eq take_bit_eq_mod mod_less less_trans[OF unat_byte_less])

lemma unat_ucast_byte_Suc [simp]: "unat (ucast (x :: byte) + 1 :: uint64) = Suc (unat x)"
proof -
  have "Suc (unat x) < 18446744073709551616" using unat_byte_less[of x] by linarith
  then show ?thesis by (simp add: unat_word_ariths)
qed

lemma too_large_iff:
  assumes "n < 2 ^ 64" and "unat ts \<le> n"
  shows "cs > of_nat n - (ts :: uint64) \<longleftrightarrow> n < unat ts + unat cs"
proof -
  have n: "unat (of_nat n :: uint64) = n" using assms(1) by (simp add: unat_of_nat)
  have "ts \<le> of_nat n" using assms(2) n by (simp add: word_le_nat_alt)
  then have "unat (of_nat n - ts) = n - unat ts" using n by (simp add: unat_sub)
  with assms(2) show ?thesis by (auto simp: word_less_nat_alt)
qed

text \<open>
  The first byte decides the kind; what follows is a case distinction on it that the
  lemmas on \<open>readKind\<close> share.
\<close>

definition tag_ok :: "bytes \<Rightarrow> kind \<Rightarrow> uint64 \<Rightarrow> uint64 \<Rightarrow> bool" where
  "tag_ok buf k ts cs \<longleftrightarrow> unat ts + unat cs \<le> length buf \<and>
     take (unat ts) buf = kind_head k (unat cs) \<and> unat ts = length (kind_head k (unat cs)) \<and>
     canonical k (subslice (unat ts) (unat ts + unat cs) buf)"

lemma long_head_iff:
  assumes t: "\<not> x < t" and l: "1 \<le> unat x - unat t" "unat x - unat t \<le> 8"
  shows "(\<exists>s. readSize rest (x - t) = Inr s \<and> ts = ucast (x - t) + 1 \<and> cs = s) \<longleftrightarrow>
    56 \<le> unat (cs :: uint64) \<and> unat x = unat t + length (be_bytes (unat cs)) \<and>
    unat (ts :: uint64) = Suc (length (be_bytes (unat cs))) \<and>
    take (length (be_bytes (unat cs))) rest = be_bytes (unat cs)"
proof -
  have u: "unat (x - t) = unat x - unat t" using t by (simp add: unat_sub_tag not_less)
  have le: "unat t \<le> unat x" using t by (simp add: word_le_nat_alt not_less)
  have ts: "ts = ucast (x - t) + 1 \<longleftrightarrow> unat ts = Suc (unat x - unat t)"
    by (simp add: word_unat_eq_iff u)
  have "readSize rest (x - t) = Inr cs \<longleftrightarrow>
    56 \<le> unat cs \<and> length (be_bytes (unat cs)) = unat x - unat t \<and>
    take (unat x - unat t) rest = be_bytes (unat cs)"
    using l by (simp add: readSize_iff u)
  moreover have "length (be_bytes (unat cs)) = unat x - unat t \<longleftrightarrow>
    unat x = unat t + length (be_bytes (unat cs))" using le l(1) by linarith
  ultimately show ?thesis by (metis add_diff_cancel_left' ts)
qed

lemma readKind_Cons:
  assumes len: "length (x # rest) < 2 ^ 64"
  shows "readKind (x # rest) = Inr (k, ts, cs) \<longleftrightarrow>
    unat ts + unat cs \<le> length (x # rest) \<and>
    (if x < 0x80 then k = Byte \<and> ts = 0 \<and> cs = 1
     else if x < 0xB8 then k = String \<and> ts = 1 \<and> cs = ucast (x - 0x80)
       \<and> \<not> (cs = 1 \<and> rest \<noteq> [] \<and> hd rest < 0x80)
     else if x < 0xC0 then k = String \<and>
       (\<exists>s. readSize rest (x - 0xB7) = Inr s \<and> ts = ucast (x - 0xB7) + 1 \<and> cs = s)
     else if x < 0xF8 then k = List \<and> ts = 1 \<and> cs = ucast (x - 0xC0)
     else k = List \<and>
       (\<exists>s. readSize rest (x - 0xF7) = Inr s \<and> ts = ucast (x - 0xF7) + 1 \<and> cs = s))"
proof -
  let ?n = "length (x # rest)"
  have big: "of_nat ?n - t < c \<longleftrightarrow> ?n < unat t + unat c" if "unat (t :: uint64) \<le> ?n" for t c
    using too_large_iff[OF len that] by simp
  have rs: "unat (x - t) \<le> length rest" if "readSize rest (x - t) = Inr s" for s t
    using that by (auto simp: readSize_def split: if_splits)
  have one: "of_nat ?n - (1::uint64) < c \<longleftrightarrow> ?n < 1 + unat c" for c
    using big[of 1 c] by simp
  have zero: "of_nat ?n - (0::uint64) < c \<longleftrightarrow> ?n < unat c" for c
    using big[of 0 c] by simp
  have long: "of_nat ?n - (ucast (x - t) + 1 :: uint64) < c \<longleftrightarrow> ?n < Suc (unat (x - t)) + unat c"
    if "readSize rest (x - t) = Inr s" for t s c
    using big[of "ucast (x - t) + 1" c] rs[OF that] by simp
  have nth: "rest \<noteq> [] \<Longrightarrow> (x # rest) ! 1 = hd rest" by (simp add: hd_conv_nth)
  consider "x < 0x80" | "\<not> x < 0x80" "x < 0xB8" | "\<not> x < 0x80" "\<not> x < 0xB8" "x < 0xC0"
    | "\<not> x < 0x80" "\<not> x < 0xB8" "\<not> x < 0xC0" "x < 0xF8"
    | "\<not> x < 0x80" "\<not> x < 0xB8" "\<not> x < 0xC0" "\<not> x < 0xF8"
    by blast
  then show ?thesis
  proof cases
    case 1
    then show ?thesis using zero[of 1] by (auto simp: readKind_def)
  next
    case 2
    then show ?thesis
      using one[of "ucast (x - 0x80)"] nth
      by (cases "rest = []") (auto simp: readKind_def Let_def)
  next
    case 3
    then show ?thesis
      using long[of "0xB7"]
      by (cases "readSize rest (x - 0xB7)") (auto simp: readKind_def)
  next
    case 4
    then show ?thesis
      using one[of "ucast (x - 0xC0)"] by (auto simp: readKind_def)
  next
    case 5
    then show ?thesis
      using long[of "0xF7"]
      by (cases "readSize rest (x - 0xF7)") (auto simp: readKind_def)
  qed
qed

lemma length_be_bytes_size:
  assumes "56 \<le> unat (cs :: uint64)"
  shows "1 \<le> length (be_bytes (unat cs)) \<and> length (be_bytes (unat cs)) \<le> 8"
proof -
  have "unat cs < 256 ^ 8" using unsigned_less[of cs, where ?'a = nat] by simp
  moreover have "be_bytes (unat cs) \<noteq> []" using assms by simp
  ultimately show ?thesis using length_be_bytes_le[of "unat cs" 8] by (simp add: Suc_le_eq)
qed

lemma byte_tag_eq:
  "n < 56 \<Longrightarrow> x = 0x80 + of_nat n \<longleftrightarrow> unat (x :: byte) = 128 + n"
  "n < 56 \<Longrightarrow> x = 0xC0 + of_nat n \<longleftrightarrow> unat x = 192 + n"
  "n \<le> 8 \<Longrightarrow> x = 0xB7 + of_nat n \<longleftrightarrow> unat x = 183 + n"
  "n \<le> 8 \<Longrightarrow> x = 0xF7 + of_nat n \<longleftrightarrow> unat x = 247 + n"
  by (simp_all add: byte_eq_iff_unat unat_word_ariths)

text \<open>What \<open>tag_ok\<close> says of the first byte, by kind and size.\<close>

lemma tag_ok_Byte:
  "tag_ok (x # rest) Byte ts cs \<longleftrightarrow> unat x < 128 \<and> ts = 0 \<and> cs = 1"
  by (auto simp: tag_ok_def kind_head_def canonical_def subslice_def min_def unat_eq_Suc_0
      unat_eq_0_iff word_less_nat_alt split: if_splits)

lemma tag_ok_short:
  assumes c: "unat cs < 56"
  shows "tag_ok (x # rest) String ts cs \<longleftrightarrow> ts = 1 \<and> unat cs \<le> length rest \<and>
      unat x = 128 + unat cs \<and> \<not> (cs = 1 \<and> rest \<noteq> [] \<and> hd rest < 0x80)"
    and "tag_ok (x # rest) List ts cs \<longleftrightarrow> ts = 1 \<and> unat cs \<le> length rest \<and>
      unat x = 192 + unat cs"
proof -
  have one: "unat ts = Suc 0 \<and> P \<longleftrightarrow> ts = 1 \<and> P" for P by (auto simp: unat_eq_Suc_0)
  have hd1: "hd (take (unat cs) rest) = hd rest" if "unat cs = Suc 0" "rest \<noteq> []"
    using that by (cases rest) simp_all
  show "tag_ok (x # rest) List ts cs \<longleftrightarrow> ts = 1 \<and> unat cs \<le> length rest \<and> unat x = 192 + unat cs"
    using c by (auto simp: tag_ok_def kind_head_def rlp_head_def canonical_def one
        byte_tag_eq(2)[OF c, symmetric] unat_eq_Suc_0)
  show "tag_ok (x # rest) String ts cs \<longleftrightarrow> ts = 1 \<and> unat cs \<le> length rest \<and>
      unat x = 128 + unat cs \<and> \<not> (cs = 1 \<and> rest \<noteq> [] \<and> hd rest < 0x80)"
    using c hd1 by (cases "rest = []") (auto simp: tag_ok_def kind_head_def rlp_head_def
        canonical_def subslice_def byte_tag_eq(1)[OF c, symmetric] unat_eq_Suc_0)
qed

lemma tag_ok_long:
  assumes c: "\<not> unat cs < 56" and "k \<noteq> Byte"
  shows "tag_ok (x # rest) k ts cs \<longleftrightarrow>
     unat ts + unat cs \<le> Suc (length rest) \<and> unat ts = Suc (length (be_bytes (unat cs))) \<and>
     unat x = (if k = String then 183 else 247) + length (be_bytes (unat cs)) \<and>
     take (length (be_bytes (unat cs))) rest = be_bytes (unat cs)"
proof -
  have "canonical k (subslice (unat ts) (unat ts + unat cs) (x # rest))"
    if "unat ts + unat cs \<le> Suc (length rest)"
    using that assms by (cases k) (auto simp: canonical_def)
  moreover have "length (be_bytes (unat cs)) \<le> 8" using length_be_bytes_size[of cs] c by simp
  ultimately show ?thesis
    using assms by (cases k) (auto simp: tag_ok_def kind_head_def rlp_head_def byte_tag_eq)
qed

text \<open>
  \<open>readKind\<close> accepts an input exactly when it starts with the header of a value whose
  content lies within the input, and reports the sizes of the two.
\<close>

lemma readKind_iff:
  assumes len: "length buf < 2 ^ 64"
  shows "readKind buf = Inr (k, ts, cs) \<longleftrightarrow> buf \<noteq> [] \<and> tag_ok buf k ts cs"
proof (cases buf)
  case Nil
  then show ?thesis by (simp add: readKind_def)
next
  case (Cons x rest)
  note lt = word_less_nat_alt[of x]
  have len': "56 \<le> unat cs \<Longrightarrow> 1 \<le> length (be_bytes (unat cs))"
    "56 \<le> unat cs \<Longrightarrow> length (be_bytes (unat cs)) \<le> 8" using length_be_bytes_size[of cs] by auto
  have x: "unat x - 247 \<le> 8" using unat_byte_less[of x] by linarith
  have short: "cs = ucast (x - t) \<longleftrightarrow> unat x = unat t + unat cs" if "\<not> x < t" for t
    using that by (auto simp: word_unat_eq_iff unat_sub_tag not_less word_le_nat_alt)
  have tag: "tag_ok (x # rest) k ts cs \<longleftrightarrow> unat ts + unat cs \<le> length (x # rest) \<and>
    (if unat x < 128 then k = Byte \<and> ts = 0 \<and> cs = 1
     else if unat x < 184 then k = String \<and> ts = 1 \<and> unat x = 128 + unat cs
       \<and> \<not> (cs = 1 \<and> rest \<noteq> [] \<and> hd rest < 0x80)
     else if unat x < 192 then k = String \<and> 56 \<le> unat cs
       \<and> unat x = 183 + length (be_bytes (unat cs)) \<and> unat ts = Suc (length (be_bytes (unat cs)))
       \<and> take (length (be_bytes (unat cs))) rest = be_bytes (unat cs)
     else if unat x < 248 then k = List \<and> ts = 1 \<and> unat x = 192 + unat cs
     else k = List \<and> 56 \<le> unat cs
       \<and> unat x = 247 + length (be_bytes (unat cs)) \<and> unat ts = Suc (length (be_bytes (unat cs)))
       \<and> take (length (be_bytes (unat cs))) rest = be_bytes (unat cs))"
    (is "?T \<longleftrightarrow> ?I")
  proof (cases k)
    case Byte
    then show ?thesis using len' by (auto simp: tag_ok_Byte)
  next
    case String
    then show ?thesis
      using len' by (cases "unat cs < 56") (auto simp: tag_ok_short tag_ok_long)
  next
    case List
    then show ?thesis
      using len' x by (cases "unat cs < 56") (auto simp: tag_ok_short tag_ok_long)
  qed
  show ?thesis
    unfolding Cons tag readKind_Cons[OF len[unfolded Cons]]
    using x short[where t = "0x80"] short[where t = "0xC0"]
      long_head_iff[where x = x and t = "0xB7" and rest = rest and ts = ts and cs = cs]
      long_head_iff[where x = x and t = "0xF7" and rest = rest and ts = ts and cs = cs]
    by (simp add: lt)
qed

lemma readKind_bounds:
  assumes "length buf < 2 ^ 64" and "readKind buf = Inr (k, ts, cs)"
  shows "unat ts + unat cs \<le> length buf \<and> 0 < unat ts + unat cs \<and> unat ts \<le> 9
    \<and> unat (ts + cs) = unat ts + unat cs"
proof -
  have ok: "tag_ok buf k ts cs" using assms by (simp add: readKind_iff)
  then have le: "unat ts + unat cs \<le> length buf" and t: "unat ts = length (kind_head k (unat cs))"
    by (simp_all add: tag_ok_def)
  have "unat cs < 2 ^ 64" using unsigned_less[of cs, where ?'a = nat] by simp
  then have "unat ts \<le> 9"
    using t length_rlp_head_le by (auto simp: kind_head_def split: kind.splits)
  moreover have "unat (ts + cs) = unat ts + unat cs"
    using le assms(1) by (simp add: unat_word_ariths)
  ultimately show ?thesis using le readKind_progress[OF assms(2)] by simp
qed

text \<open>Splitting inverts prepending a header, and accepts nothing else.\<close>

lemma tag_ok_head:
  assumes "length (kind_head k (length c) @ c @ rest) < 2 ^ 64" and "canonical k c"
  shows "tag_ok (kind_head k (length c) @ c @ rest) k
    (of_nat (length (kind_head k (length c)))) (of_nat (length c))"
  using assms by (simp add: tag_ok_def unat_of_nat subslice_def)

lemma kind_head_app_nonempty: "canonical k c \<Longrightarrow> kind_head k (length c) @ c @ rest \<noteq> []"
  by (cases k) (auto simp: canonical_def kind_head_def)

lemma Split_iff:
  assumes "length b < 2 ^ 64"
  shows "Split b = Inr (k, c, rest) \<longleftrightarrow> b = kind_head k (length c) @ c @ rest \<and> canonical k c"
proof
  assume "Split b = Inr (k, c, rest)"
  then obtain ts cs where r: "readKind b = Inr (k, ts, cs)"
    and c: "c = subslice (unat ts) (unat ts + unat cs) b" and rest: "rest = drop (unat ts + unat cs) b"
    by (auto simp: Split_def split: sum.splits)
  from r have ok: "tag_ok b k ts cs" using assms by (simp add: readKind_iff)
  then have "unat ts + unat cs \<le> length b" by (simp add: tag_ok_def)
  then have "length c = unat cs" by (simp add: c)
  moreover have "b = take (unat ts) b @ c @ rest"
    by (simp add: c rest subslice_def) (metis add.commute append_take_drop_id drop_drop)
  ultimately show "b = kind_head k (length c) @ c @ rest \<and> canonical k c"
    using ok c by (metis tag_ok_def)
next
  assume R: "b = kind_head k (length c) @ c @ rest \<and> canonical k c"
  let ?ts = "of_nat (length (kind_head k (length c))) :: uint64" and ?cs = "of_nat (length c) :: uint64"
  have u: "unat ?ts = length (kind_head k (length c))" "unat ?cs = length c"
    using assms R by (simp_all add: unat_of_nat)
  have "b \<noteq> []" using R kind_head_app_nonempty by blast
  moreover have "tag_ok b k ?ts ?cs" using R assms tag_ok_head by blast
  ultimately have "readKind b = Inr (k, ?ts, ?cs)" using assms by (simp add: readKind_iff)
  then show "Split b = Inr (k, c, rest)"
    using R by (simp add: Split_def u subslice_def)
qed

text \<open>The encoding of an item seen as header and content.\<close>

fun item_kind :: "rlp_item \<Rightarrow> kind" where
  "item_kind (RStr b) = (if length b = 1 \<and> hd b < 0x80 then Byte else String)"
| "item_kind (RList xs) = List"

fun item_content :: "rlp_item \<Rightarrow> bytes" where
  "item_content (RStr b) = b"
| "item_content (RList xs) = concat (map rlp_enc xs)"

lemma rlp_enc_head:
  "rlp_enc x = kind_head (item_kind x) (length (item_content x)) @ item_content x
    \<and> canonical (item_kind x) (item_content x)"
  by (cases x) (auto simp: kind_head_def canonical_def rlp_str_def rlp_list_def)

lemma Split_rlp_enc:
  "length (rlp_enc x @ rest) < 2 ^ 64 \<Longrightarrow>
     Split (rlp_enc x @ rest) = Inr (item_kind x, item_content x, rest)"
  using rlp_enc_head[of x] by (simp add: Split_iff)

lemma SplitString_rlp_str:
  "length (rlp_str c @ rest) < 2 ^ 64 \<Longrightarrow> SplitString (rlp_str c @ rest) = Inr (c, rest)"
  using Split_rlp_enc[of "RStr c" rest] by (simp add: SplitString_def split: if_splits)

lemma SplitList_rlp_list:
  assumes "length (rlp_list c @ rest) < 2 ^ 64"
  shows "SplitList (rlp_list c @ rest) = Inr (c, rest)"
proof -
  have "Split (rlp_list c @ rest) = Inr (List, c, rest)"
    using assms by (simp add: Split_iff kind_head_def canonical_def rlp_list_def)
  then show ?thesis by (simp add: SplitList_def)
qed

lemma SplitString_iff:
  assumes "length b < 2 ^ 64"
  shows "SplitString b = Inr (c, rest) \<longleftrightarrow> b = rlp_str c @ rest"
proof -
  have "SplitString b = Inr (c, rest) \<longleftrightarrow>
      Split b = Inr (Byte, c, rest) \<or> Split b = Inr (String, c, rest)"
    by (auto simp: SplitString_def intro: kind.exhaust split: sum.splits if_splits)
  then show ?thesis
    using assms by (auto simp: Split_iff kind_head_def canonical_def rlp_str_def)
qed

lemma SplitList_iff:
  assumes "length b < 2 ^ 64"
  shows "SplitList b = Inr (c, rest) \<longleftrightarrow> b = rlp_list c @ rest"
proof -
  have "SplitList b = Inr (c, rest) \<longleftrightarrow> Split b = Inr (List, c, rest)"
    by (auto simp: SplitList_def split: sum.splits if_splits)
  then show ?thesis
    using assms by (simp add: Split_iff kind_head_def canonical_def rlp_list_def)
qed

subsection \<open>Counting values and unsigned integers\<close>

lemma readKind_rlp_enc:
  assumes "length (rlp_enc x @ rest) < 2 ^ 64"
  shows "\<exists>ts cs. readKind (rlp_enc x @ rest) = Inr (item_kind x, ts, cs)
    \<and> unat ts + unat cs = length (rlp_enc x)"
proof -
  have "Split (rlp_enc x @ rest) = Inr (item_kind x, item_content x, rest)"
    using assms by (rule Split_rlp_enc)
  then obtain ts cs where r: "readKind (rlp_enc x @ rest) = Inr (item_kind x, ts, cs)"
    and d: "drop (unat ts + unat cs) (rlp_enc x @ rest) = rest"
    by (auto simp: Split_def split: sum.splits)
  have "unat ts + unat cs \<le> length (rlp_enc x @ rest)" using readKind_bounds[OF assms r] by simp
  moreover have "length (rlp_enc x @ rest) - (unat ts + unat cs) = length rest"
    using d by (metis length_drop)
  ultimately have "unat ts + unat cs = length (rlp_enc x)" by simp
  with r show ?thesis by blast
qed

lemma CountValues_loop_concat:
  "length (concat (map rlp_enc xs)) < 2 ^ 64 \<Longrightarrow>
     CountValues_loop (concat (map rlp_enc xs)) i = Inr (i + length xs)"
proof (induction xs arbitrary: i)
  case Nil
  then show ?case by (simp add: CountValues_loop.simps)
next
  case (Cons x xs)
  obtain ts cs where r: "readKind (rlp_enc x @ concat (map rlp_enc xs)) = Inr (item_kind x, ts, cs)"
    and n: "unat ts + unat cs = length (rlp_enc x)"
    using readKind_rlp_enc[of x "concat (map rlp_enc xs)"] Cons.prems by auto
  then show ?case
    using Cons by (simp add: CountValues_loop.simps[of "rlp_enc x @ _"] del: length_0_conv)
qed

lemma CountValues_concat:
  "length (concat (map rlp_enc xs)) < 2 ^ 64 \<Longrightarrow>
     CountValues (concat (map rlp_enc xs)) = Inr (length xs)"
  by (simp add: CountValues_def CountValues_loop_concat)

lemma AppendUint64_putint:
  "AppendUint64 b i =
    (if i = 0 then b @ [0x80] else if i < 128 then b @ putint i
     else b @ (0x80 + of_nat (length (putint i))) # putint i)"
proof -
  have "i < 128 \<Longrightarrow> i < 256" by (simp add: word_less_nat_alt)
  then show ?thesis by (simp add: AppendUint64_def putint_def)
qed

lemma be_bytes_byte: "0 < n \<Longrightarrow> n < 256 \<Longrightarrow> be_bytes n = [of_nat n]"
  by (simp add: be_bytes_pos)

lemma length_be_bytes_ge2: "256 \<le> n \<Longrightarrow> 2 \<le> length (be_bytes n)"
  using length_be_bytes_ge[of 1 n] by simp

lemma AppendUint64_rlp_str: "AppendUint64 b i = b @ rlp_str (be_bytes (unat i))"
proof -
  let ?n = "unat i"
  have l8: "length (be_bytes ?n) \<le> 8"
    using length_be_bytes_le[of ?n 8] unsigned_less[of i, where ?'a = nat] by simp
  consider "i = 0" | "0 < ?n" "?n < 128" | "128 \<le> ?n" "?n < 256" | "256 \<le> ?n"
    by (metis linorder_not_less unat_gt_0)
  then show ?thesis
  proof cases
    case 1
    then show ?thesis by (simp add: AppendUint64_putint rlp_simps)
  next
    case 2
    then have "i \<noteq> 0" "i < 128" "(of_nat ?n :: byte) < 0x80"
      by (auto simp: word_less_nat_alt unsigned_ucast_eq take_bit_eq_mod)
    with 2 show ?thesis
      by (simp add: AppendUint64_putint putint_be_bytes rlp_str_def be_bytes_byte)
  next
    case 3
    then have "i \<noteq> 0" "\<not> i < 128" "\<not> (of_nat ?n :: byte) < 0x80"
      by (auto simp: word_less_nat_alt unsigned_ucast_eq take_bit_eq_mod)
    with 3 show ?thesis
      by (simp add: AppendUint64_putint putint_be_bytes rlp_str_def be_bytes_byte rlp_head_def)
  next
    case 4
    then have "i \<noteq> 0" "\<not> i < 128" "length (be_bytes ?n) \<noteq> 1"
      using length_be_bytes_ge2[of ?n] by (auto simp: word_less_nat_alt unsigned_ucast_eq take_bit_eq_mod)
    with l8 show ?thesis
      by (simp add: AppendUint64_putint putint_be_bytes rlp_str_def rlp_head_def)
  qed
qed

lemma uint_content_iff:
  "(if length c = 0 then Inr (0, rest)
    else if length c = 1 then
      (if c ! 0 = 0 then Inl ErrCanonInt else Inr (ucast (c ! 0), rest))
    else if length c > 8 then Inl ErrUintOverflow
    else (case readSize c (of_nat (length c)) of Inl _ \<Rightarrow> Inl ErrCanonInt | Inr x \<Rightarrow> Inr (x, rest)))
   = Inr (x, rest') \<longleftrightarrow> rest' = rest \<and> c = be_bytes (unat (x :: uint64))"
proof -
  have l8: "length (be_bytes (unat x)) \<le> 8"
    using length_be_bytes_le[of "unat x" 8] unsigned_less[of x, where ?'a = nat] by simp
  consider "c = []" | b where "c = [b]" | "2 \<le> length c" "length c \<le> 8" | "8 < length c"
    by (metis One_nat_def Suc_1 Suc_le_eq length_0_conv length_Suc_conv less_antisym
        linorder_not_le not_less_eq zero_less_iff_neq_zero)
  then show ?thesis
  proof cases
    case 1
    have "unat x = 0 \<longleftrightarrow> x = 0" by (simp add: unat_eq_0_iff)
    then have "[] = be_bytes (unat x) \<longleftrightarrow> x = 0" using be_bytes_Nil[of "unat x"] by metis
    then show ?thesis using 1 by auto
  next
    case 2
    have "[b] = be_bytes (unat x) \<longleftrightarrow> b \<noteq> 0 \<and> x = ucast b"
    proof
      assume b: "[b] = be_bytes (unat x)"
      then have "0 < unat x" by (cases "unat x = 0") simp_all
      then have "b \<noteq> 0" using hd_be_bytes[of "unat x"] b[symmetric] by simp
      moreover have "unat x = unat b" using arg_cong[OF b, of be_val] by simp
      ultimately show "b \<noteq> 0 \<and> x = ucast b" by (simp add: word_unat_eq_iff)
    next
      assume "b \<noteq> 0 \<and> x = ucast b"
      then show "[b] = be_bytes (unat x)" using be_bytes_be_val[of "[b]"] by simp
    qed
    then show ?thesis using 2 by auto
  next
    case 3
    then have u: "unat (of_nat (length c) :: byte) = length c" by simp
    have "readSize c (of_nat (length c)) = Inr x \<longleftrightarrow> 56 \<le> unat x \<and> c = be_bytes (unat x)"
      using 3 by (subst readSize_iff) (auto simp: u)
    moreover have "c = be_bytes (unat x) \<Longrightarrow> 56 \<le> unat x"
      using 3 length_be_bytes_le[of "unat x" 1] by (cases "unat x < 256") simp_all
    ultimately show ?thesis using 3 by (auto split: sum.splits)
  next
    case 4
    then show ?thesis using l8 by auto
  qed
qed

lemma SplitUint64_iff:
  assumes "length b < 2 ^ 64"
  shows "SplitUint64 b = Inr (x, rest) \<longleftrightarrow> b = AppendUint64 [] x @ rest"
proof -
  have "SplitUint64 b = Inr (x, rest) \<longleftrightarrow>
      (\<exists>c. SplitString b = Inr (c, rest) \<and> c = be_bytes (unat x))"
  proof (cases "SplitString b")
    case (Inr p)
    obtain c r where "p = (c, r)" by (cases p)
    then show ?thesis
      unfolding SplitUint64_def Inr by (simp only: sum.case prod.case uint_content_iff) auto
  qed (simp add: SplitUint64_def)
  then show ?thesis
    using assms by (auto simp: SplitString_iff AppendUint64_rlp_str)
qed

lemma IntSize_AppendUint64: "IntSize x = length (AppendUint64 [] x)"
  by (simp add: IntSize_def AppendUint64_putint intsize_length_putint)
    (auto simp: putint_def word_less_nat_alt)

lemma ListSize_rlp_list:
  assumes "length (rlp_list c) < 2 ^ 64"
  shows "unat (ListSize (of_nat (length c))) = length (rlp_list c)"
proof -
  have c: "length c < 2 ^ 64" using assms length_rlp_list_gt[of c] by simp
  then show ?thesis
    using assms headsize_rlp_head[OF c, of "0xC0" "0xF7"]
    by (simp add: ListSize_def rlp_list_def unat_word_ariths unat_of_nat)
qed

end
