(* ===== verification/Rlp_Buffer.thy ===== *)
theory Rlp_Buffer
  imports Rlp_Raw
begin

section \<open>The encoder buffer (rlp/encbuffer.go)\<close>

text \<open>
  \<open>encBuffer\<close> collects string data and list headers apart: a list header is appended
  when a list starts, its size is filled in when the list ends, and the two are merged only
  when the output is produced (\<open>copyTo\<close>).  This theory models the buffer operations and
  shows that together they produce the RLP format of \<open>Rlp_Head\<close>.

  The size of a list is computed from the sizes of the buffer before and after, all of them
  Go \<open>int\<close>s that are lengths; \<open>listEnd_size\<close> shows that the subtraction never goes
  below zero.  The auxiliary array \<open>sizebuf\<close> only holds a header between two
  statements and has no field here.
\<close>

subsection \<open>State and operations\<close>

record listhead =
  offset :: nat
  hsize :: nat

record encbuf =
  str :: bytes
  lheads :: "listhead list"
  lhsize :: nat

definition listhead_encode :: "listhead \<Rightarrow> bytes" where
  "listhead_encode head = puthead 0xC0 0xF7 (of_nat (hsize head))"

definition buf_reset :: "encbuf \<Rightarrow> encbuf" where
  "buf_reset buf = buf\<lparr>lhsize := 0, str := [], lheads := []\<rparr>"

definition empty_buf :: encbuf where
  "empty_buf = \<lparr>str = [], lheads = [], lhsize = 0\<rparr>"

definition buf_size :: "encbuf \<Rightarrow> nat" where
  "buf_size buf = length (str buf) + lhsize buf"

text \<open>
  \<open>copy(dst[pos:], src)\<close>: copies as much as fits and returns how much that was;
  \<open>dst[pos:]\<close> panics (\<open>None\<close>) when \<open>pos\<close> is past the end.  \<open>put_at\<close> writes
  a header to \<open>dst[pos:]\<close> byte by byte, which panics when it does not fit.
\<close>

definition copy_at :: "bytes \<Rightarrow> nat \<Rightarrow> bytes \<Rightarrow> (bytes \<times> nat) option" where
  "copy_at dst pos src =
    (if pos > length dst then None
     else let n = min (length dst - pos) (length src)
          in Some (take pos dst @ take n src @ drop (pos + n) dst, n))"

definition put_at :: "bytes \<Rightarrow> nat \<Rightarrow> bytes \<Rightarrow> bytes option" where
  "put_at dst pos bs =
    (if pos + length bs \<le> length dst then Some (take pos dst @ bs @ drop (pos + length bs) dst)
     else None)"

text \<open>The loop of \<open>copyTo\<close> over the list headers; \<open>None\<close> is an index panic.\<close>

fun copyTo_loop :: "bytes \<Rightarrow> listhead list \<Rightarrow> nat \<Rightarrow> nat \<Rightarrow> bytes \<Rightarrow> bytes option" where
  "copyTo_loop s [] strpos pos dst =
    (if strpos > length s then None else map_option fst (copy_at dst pos (drop strpos s)))"
| "copyTo_loop s (head # heads) strpos pos dst =
    (if strpos \<le> offset head \<and> offset head \<le> length s then
       (case copy_at dst pos (subslice strpos (offset head) s) of None \<Rightarrow> None
        | Some (dst1, n) \<Rightarrow>
            (let enc = listhead_encode head in
             case put_at dst1 (pos + n) enc of None \<Rightarrow> None
             | Some dst2 \<Rightarrow> copyTo_loop s heads (strpos + n) (pos + n + length enc) dst2))
     else None)"

definition copyTo :: "encbuf \<Rightarrow> bytes \<Rightarrow> bytes option" where
  "copyTo w dst = copyTo_loop (str w) (lheads w) 0 0 dst"

definition makeBytes :: "encbuf \<Rightarrow> bytes option" where
  "makeBytes w = copyTo w (replicate (buf_size w) 0)"

definition AppendToBytes :: "encbuf \<Rightarrow> bytes \<Rightarrow> bytes option" where
  "AppendToBytes w dst = map_option (\<lambda>out. dst @ out) (copyTo w (replicate (buf_size w) 0))"

definition buf_Write :: "bytes \<Rightarrow> encbuf \<Rightarrow> encbuf" where
  "buf_Write b buf = buf\<lparr>str := str buf @ b\<rparr>"

definition writeBool :: "bool \<Rightarrow> encbuf \<Rightarrow> encbuf" where
  "writeBool b buf = (if b then buf\<lparr>str := str buf @ [0x01]\<rparr> else buf\<lparr>str := str buf @ [0x80]\<rparr>)"

definition writeUint64 :: "uint64 \<Rightarrow> encbuf \<Rightarrow> encbuf" where
  "writeUint64 i buf =
    (if i = 0 then buf\<lparr>str := str buf @ [0x80]\<rparr>
     else if i < 128 then buf\<lparr>str := str buf @ [ucast i]\<rparr>
     else let s = putint i
          in buf\<lparr>str := str buf @ (0x80 + of_nat (length s)) # s\<rparr>)"

definition encodeStringHeader :: "nat \<Rightarrow> encbuf \<Rightarrow> encbuf" where
  "encodeStringHeader sz buf =
    (if sz < 56 then buf\<lparr>str := str buf @ [0x80 + of_nat sz]\<rparr>
     else let s = putint (of_nat sz)
          in buf\<lparr>str := str buf @ (0xB7 + of_nat (length s)) # s\<rparr>)"

definition writeBytes :: "bytes \<Rightarrow> encbuf \<Rightarrow> encbuf" where
  "writeBytes b buf =
    (if length b = 1 \<and> b ! 0 \<le> 0x7F then buf\<lparr>str := str buf @ [b ! 0]\<rparr>
     else let buf' = encodeStringHeader (length b) buf
          in buf'\<lparr>str := str buf' @ b\<rparr>)"

text \<open>\<open>list\<close> starts a list and returns the index of its header, \<open>listEnd\<close> takes it back.\<close>

definition buf_list :: "encbuf \<Rightarrow> encbuf \<times> nat" where
  "buf_list buf =
    (let buf' = buf\<lparr>lheads := lheads buf @ [\<lparr>offset = length (str buf), hsize = lhsize buf\<rparr>]\<rparr>
     in (buf', length (lheads buf') - 1))"

definition listEnd :: "nat \<Rightarrow> encbuf \<Rightarrow> encbuf" where
  "listEnd index buf =
    (let lh = lheads buf ! index;
         sz = buf_size buf - offset lh - hsize lh;
         buf' = buf\<lparr>lheads := (lheads buf)[index := lh\<lparr>hsize := sz\<rparr>]\<rparr>
     in if sz < 56 then buf'\<lparr>lhsize := lhsize buf' + 1\<rparr>
        else buf'\<lparr>lhsize := lhsize buf' + (1 + intsize (of_nat sz))\<rparr>)"

subsection \<open>What a buffer stands for\<close>

text \<open>
  \<open>render\<close> is the byte string that merging string data and headers gives, from string
  position \<open>p\<close> on.
\<close>

fun render :: "bytes \<Rightarrow> listhead list \<Rightarrow> nat \<Rightarrow> bytes" where
  "render s [] p = drop p s"
| "render s (h # hs) p = subslice p (offset h) s @ listhead_encode h @ render s hs (offset h)"

fun heads_ok :: "bytes \<Rightarrow> listhead list \<Rightarrow> nat \<Rightarrow> bool" where
  "heads_ok s [] p = (p \<le> length s)"
| "heads_ok s (h # hs) p = (p \<le> offset h \<and> heads_ok s hs (offset h))"

definition heads_size :: "listhead list \<Rightarrow> nat" where
  "heads_size hs = sum_list (map (\<lambda>h. length (listhead_encode h)) hs)"

lemma heads_size_simps [simp]:
  "heads_size [] = 0" "heads_size (h # hs) = length (listhead_encode h) + heads_size hs"
  "heads_size (hs @ hs') = heads_size hs + heads_size hs'"
  by (simp_all add: heads_size_def)

lemma heads_ok_le: "heads_ok s hs p \<Longrightarrow> p \<le> length s"
  by (induction s hs p rule: heads_ok.induct) auto

lemma length_render: "heads_ok s hs p \<Longrightarrow> length (render s hs p) = length s - p + heads_size hs"
proof (induction s hs p rule: render.induct)
  case (2 s h hs p)
  then have "offset h \<le> length s" by (auto dest: heads_ok_le)
  with 2 show ?case by auto
qed simp

lemma copy_at_fits:
  "length src \<le> length d \<Longrightarrow>
     copy_at (a @ d) (length a) src = Some (a @ src @ drop (length src) d, length src)"
  by (simp add: copy_at_def Let_def)

lemma put_at_fits:
  "length bs \<le> length d \<Longrightarrow>
     put_at (a @ d) (length a) bs = Some (a @ bs @ drop (length bs) d)"
  by (simp add: put_at_def)

lemma copyTo_loop_render:
  "heads_ok s hs p \<Longrightarrow> length d = length (render s hs p) \<Longrightarrow>
     copyTo_loop s hs p (length a) (a @ d) = Some (a @ render s hs p)"
proof (induction hs arbitrary: p a d)
  case Nil
  then show ?case by (simp add: copy_at_fits)
next
  case (Cons h hs)
  then have p: "p \<le> offset h" "offset h \<le> length s" and ok: "heads_ok s hs (offset h)"
    by (auto dest: heads_ok_le)
  let ?e = "listhead_encode h" and ?s = "subslice p (offset h) s"
  have n: "p + length ?s = offset h" using p by simp
  have ld: "length d = length ?s + (length ?e + length (render s hs (offset h)))"
    using Cons.prems(2) by simp
  have le: "length ?s \<le> length d" "length ?e \<le> length (drop (length ?s) d)"
    unfolding length_drop using ld by arith+
  have "copy_at (a @ d) (length a) ?s = Some (a @ ?s @ drop (length ?s) d, length ?s)"
    by (rule copy_at_fits[OF le(1)])
  moreover have "put_at ((a @ ?s) @ drop (length ?s) d) (length (a @ ?s)) ?e
      = Some ((a @ ?s) @ ?e @ drop (length ?e) (drop (length ?s) d))"
    by (rule put_at_fits[OF le(2)])
  moreover have "copyTo_loop s hs (offset h) (length (a @ ?s @ ?e))
      ((a @ ?s @ ?e) @ drop (length ?e) (drop (length ?s) d))
      = Some ((a @ ?s @ ?e) @ render s hs (offset h))"
    by (rule Cons.IH[OF ok]) (unfold length_drop, use ld in arith)
  ultimately show ?case
    using p n by (simp add: add.assoc Let_def del: length_subslice)
qed

text \<open>
  A step \<open>f\<close> of an encoder emits \<open>out\<close> when, from every buffer, it appends string
  data and headers that render to \<open>out\<close> and keeps the running size of the headers right.
\<close>

definition shift_head :: "nat \<Rightarrow> listhead \<Rightarrow> listhead" where
  "shift_head n h = h\<lparr>offset := n + offset h\<rparr>"

definition emits :: "(encbuf \<Rightarrow> encbuf) \<Rightarrow> bytes \<Rightarrow> bool" where
  "emits f out \<longleftrightarrow>
    (\<exists>s hs. heads_ok s hs 0 \<and> render s hs 0 = out \<and>
      (\<forall>w. f w = \<lparr>str = str w @ s, lheads = lheads w @ map (shift_head (length (str w))) hs,
                  lhsize = lhsize w + heads_size hs\<rparr>))"

lemma shift_head_simps [simp]:
  "offset (shift_head n h) = n + offset h" "hsize (shift_head n h) = hsize h"
  "listhead_encode (shift_head n h) = listhead_encode h"
  "shift_head 0 = id" "shift_head m (shift_head n h) = shift_head (m + n) h"
  by (auto simp: shift_head_def listhead_encode_def)

lemma heads_size_shift [simp]: "heads_size (map (shift_head n) hs) = heads_size hs"
  by (simp add: heads_size_def o_def)

lemma heads_ok_shift:
  "heads_ok (s @ t) (map (shift_head (length s)) hs) (length s + p) \<longleftrightarrow> heads_ok t hs p"
  by (induction hs arbitrary: p) auto

lemma render_shift:
  "render (s @ t) (map (shift_head (length s)) hs) (length s + p) = render t hs p"
  by (induction hs arbitrary: p) (auto simp: subslice_append_right)

lemma heads_ok_append:
  "heads_ok s hs p \<Longrightarrow> heads_ok t hs' 0 \<Longrightarrow>
     heads_ok (s @ t) (hs @ map (shift_head (length s)) hs') p"
proof (induction hs arbitrary: p)
  case Nil
  have "heads_ok (s @ t) (map (shift_head (length s)) hs') (length s + 0)"
    using Nil(2) by (simp only: heads_ok_shift)
  moreover have "heads_ok (s @ t) (map (shift_head (length s)) hs') (length s) \<Longrightarrow>
      heads_ok (s @ t) (map (shift_head (length s)) hs') p"
    using Nil(1) by (cases hs') auto
  ultimately show ?case by simp
qed simp

lemma render_from_earlier:
  assumes "p \<le> q" and "heads_ok s hs q"
  shows "render s hs p = subslice p q s @ render s hs q"
proof (cases hs)
  case Nil
  with assms show ?thesis by (simp add: subslice_drop_append)
next
  case (Cons h hs')
  with assms subslice_split[of p q "offset h" s] show ?thesis by simp
qed

lemma render_append:
  "heads_ok s hs p \<Longrightarrow> heads_ok t hs' 0 \<Longrightarrow>
     render (s @ t) (hs @ map (shift_head (length s)) hs') p = render s hs p @ render t hs' 0"
proof (induction hs arbitrary: p)
  case Nil
  have ok: "heads_ok (s @ t) (map (shift_head (length s)) hs') (length s)"
    using heads_ok_shift[of s t hs' 0] Nil(2) by simp
  have "render (s @ t) (map (shift_head (length s)) hs') (length s) = render t hs' 0"
    using render_shift[of s t hs' 0] by simp
  then show ?case
    using render_from_earlier[OF _ ok, of p] Nil(1) by (simp add: subslice_to_end)
next
  case (Cons h hs)
  then have "offset h \<le> length s" by (auto dest: heads_ok_le)
  with Cons show ?case by simp
qed

lemma emits_id [intro]: "emits (\<lambda>w. w) []"
  unfolding emits_def by (rule exI[of _ "[]"], rule exI[of _ "[]"]) simp

lemma emits_seq [intro]:
  assumes "emits f a" and "emits g b"
  shows "emits (\<lambda>w. g (f w)) (a @ b)"
proof -
  obtain s hs where f: "heads_ok s hs 0" "render s hs 0 = a" "\<And>w. f w =
      \<lparr>str = str w @ s, lheads = lheads w @ map (shift_head (length (str w))) hs,
       lhsize = lhsize w + heads_size hs\<rparr>" using assms(1) by (auto simp: emits_def)
  obtain t hs' where g: "heads_ok t hs' 0" "render t hs' 0 = b" "\<And>w. g w =
      \<lparr>str = str w @ t, lheads = lheads w @ map (shift_head (length (str w))) hs',
       lhsize = lhsize w + heads_size hs'\<rparr>" using assms(2) by (auto simp: emits_def)
  show ?thesis
    unfolding emits_def
  proof (intro exI conjI allI)
    show "heads_ok (s @ t) (hs @ map (shift_head (length s)) hs') 0"
      using f(1) g(1) by (rule heads_ok_append)
    show "render (s @ t) (hs @ map (shift_head (length s)) hs') 0 = a @ b"
      using render_append[OF f(1) g(1)] f(2) g(2) by simp
    show "g (f w) = \<lparr>str = str w @ s @ t,
        lheads = lheads w @ map (shift_head (length (str w))) (hs @ map (shift_head (length s)) hs'),
        lhsize = lhsize w + heads_size (hs @ map (shift_head (length s)) hs')\<rparr>" for w
      by (simp add: f(3) g(3) o_def add.commute)
  qed
qed

text \<open>Appending string data emits it.\<close>

lemma emits_str: "(\<And>w. f w = w\<lparr>str := str w @ b\<rparr>) \<Longrightarrow> emits f b"
  unfolding emits_def by (rule exI[of _ b], rule exI[of _ "[]"]) simp

lemma emits_Write: "emits (buf_Write b) b"
  by (rule emits_str) (simp add: buf_Write_def)

lemma emits_writeBool: "emits (writeBool b) (rlp_str (if b then [1] else []))"
  by (rule emits_str) (simp add: writeBool_def rlp_str_def rlp_head_def)

lemma emits_encodeStringHeader:
  assumes "n < 2 ^ 64"
  shows "emits (encodeStringHeader n) (rlp_head 0x80 0xB7 n)"
proof (rule emits_str)
  have "unat (of_nat n :: uint64) = n" using assms by (simp add: unat_of_nat)
  then have "\<not> n < 56 \<Longrightarrow> putint (of_nat n) = be_bytes n"
    by (subst putint_be_bytes) (auto simp: word_unat_eq_iff)
  then show "encodeStringHeader n w = w\<lparr>str := str w @ rlp_head 0x80 0xB7 n\<rparr>" for w
    by (simp add: encodeStringHeader_def rlp_head_def Let_def)
qed

lemma byte_le_7F: "(b :: byte) \<le> 0x7F \<longleftrightarrow> b < 0x80"
  by (simp add: word_le_nat_alt word_less_nat_alt) linarith

lemma emits_writeBytes:
  assumes "length b < 2 ^ 64"
  shows "emits (writeBytes b) (rlp_str b)"
proof (cases "length b = 1 \<and> hd b < 0x80")
  case True
  then obtain x where b: "b = [x]" and x: "x < 0x80" by (auto simp: length_Suc_conv)
  then show ?thesis by (intro emits_str) (simp add: writeBytes_def rlp_str_def byte_le_7F)
next
  case False
  have "emits (\<lambda>w. buf_Write b (encodeStringHeader (length b) w)) (rlp_head 0x80 0xB7 (length b) @ b)"
    using emits_encodeStringHeader[OF assms] emits_Write by (rule emits_seq)
  moreover have "writeBytes b = (\<lambda>w. buf_Write b (encodeStringHeader (length b) w))"
    using False by (cases b) (auto simp: writeBytes_def buf_Write_def byte_le_7F fun_eq_iff Let_def)
  moreover have "rlp_str b = rlp_head 0x80 0xB7 (length b) @ b"
    unfolding rlp_str_def using False by (rule if_not_P)
  ultimately show ?thesis by simp
qed

lemma writeUint64_rlp_str: "writeUint64 i w = w\<lparr>str := str w @ rlp_str (be_bytes (unat i))\<rparr>"
proof -
  have "putint i = [ucast i]" if "i < 128"
    using that by (simp add: putint_def word_less_nat_alt)
  then have "writeUint64 i w = w\<lparr>str := AppendUint64 (str w) i\<rparr>"
    by (simp add: writeUint64_def AppendUint64_putint Let_def)
  then show ?thesis by (simp only: AppendUint64_rlp_str)
qed

lemma emits_writeUint64: "emits (writeUint64 i) (rlp_str (be_bytes (unat i)))"
  by (rule emits_str) (rule writeUint64_rlp_str)

text \<open>
  A list: the header is pushed, the content emitted, the size filled in.  \<open>listEnd_size\<close>
  is the computation of \<open>lh.size\<close>; the subtraction is exact.
\<close>

lemma listEnd_size:
  assumes "str w' = str w @ s" and "lhsize w' = lhsize w + n"
  shows "length (str w) + lhsize w \<le> buf_size w'"
  using assms by (simp add: buf_size_def)

lemma length_listhead_encode:
  assumes "n < 2 ^ 64"
  shows "length (listhead_encode \<lparr>offset = p, hsize = n\<rparr>) = (if n < 56 then 1 else 1 + intsize (of_nat n))"
  using headsize_rlp_head[OF assms, of "0xC0" "0xF7"] assms
  by (simp add: listhead_encode_def puthead_rlp_head headsize_def word64_of_nat_less_56 split: if_splits)

lemma emits_list:
  assumes "emits f a" and len: "length a < 2 ^ 64"
  shows "emits (\<lambda>w. let (w', i) = buf_list w in listEnd i (f w')) (rlp_list a)"
proof -
  obtain s hs where f: "heads_ok s hs 0" "render s hs 0 = a" "\<And>w. f w =
      \<lparr>str = str w @ s, lheads = lheads w @ map (shift_head (length (str w))) hs,
       lhsize = lhsize w + heads_size hs\<rparr>" using assms(1) by (auto simp: emits_def)
  let ?h = "\<lparr>offset = 0, hsize = length a\<rparr>"
  have la: "length s + heads_size hs = length a"
    using length_render[OF f(1)] f(2) by simp
  have enc: "listhead_encode ?h = rlp_head 0xC0 0xF7 (length a)"
    using len by (simp add: listhead_encode_def puthead_rlp_head)
  show ?thesis
    unfolding emits_def
  proof (intro exI conjI allI)
    show "heads_ok s (?h # hs) 0" using f(1) by simp
    show "render s (?h # hs) 0 = rlp_list a"
      using f(2) enc by (simp add: rlp_list_def subslice_def)
    fix w :: encbuf
    have sz: "buf_size \<lparr>str = str w @ s, lheads = X, lhsize = lhsize w + heads_size hs\<rparr>
        - (length (str w) + lhsize w) = length a" for X
      using la by (simp add: buf_size_def)
    show "(let (w', i) = buf_list w in listEnd i (f w')) = \<lparr>str = str w @ s,
        lheads = lheads w @ map (shift_head (length (str w))) (?h # hs),
        lhsize = lhsize w + heads_size (?h # hs)\<rparr>"
      using length_listhead_encode[OF len, of 0]
      by (simp add: sz buf_list_def listEnd_def Let_def f(3) nth_append shift_head_def)
  qed
qed

subsection \<open>The output\<close>

text \<open>
  Run on an empty buffer, a step that emits \<open>out\<close> leaves a buffer whose size is exactly
  that of \<open>out\<close> and whose bytes are \<open>out\<close>; no copy is cut short and no index is out of
  range.
\<close>

lemma emits_copyTo:
  assumes "emits f out" and "length d = length out"
  shows "copyTo (f empty_buf) d = Some out" and "buf_size (f empty_buf) = length out"
proof -
  obtain s hs where f: "heads_ok s hs 0" "render s hs 0 = out" "f empty_buf =
      \<lparr>str = s, lheads = hs, lhsize = heads_size hs\<rparr>"
    using assms(1) by (auto simp: emits_def empty_buf_def)
  show "buf_size (f empty_buf) = length out"
    using length_render[OF f(1)] f(2,3) by (simp add: buf_size_def)
  show "copyTo (f empty_buf) d = Some out"
    using copyTo_loop_render[OF f(1), of d "[]"] f assms(2) by (simp add: copyTo_def)
qed

lemma emits_makeBytes: "emits f out \<Longrightarrow> makeBytes (f empty_buf) = Some out"
  by (simp add: makeBytes_def emits_copyTo)

lemma emits_AppendToBytes: "emits f out \<Longrightarrow> AppendToBytes (f empty_buf) dst = Some (dst @ out)"
  by (simp add: AppendToBytes_def emits_copyTo)

lemma buf_reset_empty [simp]: "buf_reset w = empty_buf"
  by (simp add: buf_reset_def empty_buf_def)

end
