(* ===== verification/Common_Hash.thy ===== *)
theory Common_Hash
  imports Prelude
begin

section \<open>Hashes and byte helpers (common/)\<close>

text \<open>
  \<open>common/types.go\<close> and \<open>common/bytes.go\<close>: the 32-byte \<open>Hash\<close>, its
  conversion from byte strings, and the hexadecimal constants.  A \<open>Hash\<close> is modelled as
  the list of its bytes; every function here that produces one yields a list of length 32
  (\<open>length_BytesToHash\<close>).  Copying a slice is the identity on values.
\<close>

type_synonym hash = bytes

definition HashLength :: nat where
  "HashLength = 32"

definition zeroHash :: hash where
  "zeroHash = replicate 32 0"

text \<open>
  \<open>SetBytes\<close> on the zero hash: crop from the left, then copy to the right end of the
  array.
\<close>

definition SetBytes :: "hash \<Rightarrow> bytes \<Rightarrow> hash" where
  "SetBytes h b =
    (let b' = (if length b > length h then drop (length b - HashLength) b else b)
     in take (HashLength - length b') h @ b')"

definition BytesToHash :: "bytes \<Rightarrow> hash" where
  "BytesToHash b = SetBytes zeroHash b"

definition CopyBytes :: "bytes \<Rightarrow> bytes" where
  "CopyBytes b = b"

definition has0xPrefix :: "string \<Rightarrow> bool" where
  "has0xPrefix s = (length s \<ge> 2 \<and> s ! 0 = CHR ''0'' \<and> (s ! 1 = CHR ''x'' \<or> s ! 1 = CHR ''X''))"

text \<open>
  \<open>hex.DecodeString\<close> of the standard library decodes pairs of digits up to the first
  invalid one and returns what it has decoded, the error beside it is dropped by the caller.
\<close>

fun hex_digit :: "char \<Rightarrow> byte option" where
  "hex_digit c =
    (let n = of_char c :: nat in
     if 48 \<le> n \<and> n \<le> 57 then Some (of_nat (n - 48))
     else if 97 \<le> n \<and> n \<le> 102 then Some (of_nat (n - 87))
     else if 65 \<le> n \<and> n \<le> 70 then Some (of_nat (n - 55))
     else None)"

fun Hex2Bytes :: "string \<Rightarrow> bytes" where
  "Hex2Bytes (a # b # s) =
    (case (hex_digit a, hex_digit b) of
       (Some x, Some y) \<Rightarrow> (push_bit 4 x OR y) # Hex2Bytes s
     | _ \<Rightarrow> [])"
| "Hex2Bytes _ = []"

definition FromHex :: "string \<Rightarrow> bytes" where
  "FromHex s =
    (let s1 = (if has0xPrefix s then drop 2 s else s);
         s2 = (if length s1 mod 2 = 1 then CHR ''0'' # s1 else s1)
     in Hex2Bytes s2)"

definition HexToHash :: "string \<Rightarrow> hash" where
  "HexToHash s = BytesToHash (FromHex s)"

text \<open>The known root hash of an empty trie (\<open>trie/trie.go\<close>).\<close>

definition emptyRoot :: hash where
  "emptyRoot = HexToHash ''56e81f171bcc55a6ff8345e692c0f86e5b48e01b996cadc001622fb5e363b421''"

lemma length_zeroHash [simp]: "length zeroHash = 32"
  by (simp add: zeroHash_def)

lemma length_BytesToHash [simp]: "length (BytesToHash b) = 32"
  by (simp add: BytesToHash_def SetBytes_def HashLength_def Let_def)

lemma BytesToHash_id: "length b = 32 \<Longrightarrow> BytesToHash b = b"
  by (simp add: BytesToHash_def SetBytes_def HashLength_def Let_def)

lemma BytesToHash_crops: "32 \<le> length b \<Longrightarrow> BytesToHash b = drop (length b - 32) b"
  by (auto simp: BytesToHash_def SetBytes_def HashLength_def Let_def)

lemma BytesToHash_pads: "length b \<le> 32 \<Longrightarrow> BytesToHash b = replicate (32 - length b) 0 @ b"
  by (simp add: BytesToHash_def SetBytes_def HashLength_def zeroHash_def Let_def)

lemma emptyRoot_bytes:
  "emptyRoot =
    [0x56, 0xe8, 0x1f, 0x17, 0x1b, 0xcc, 0x55, 0xa6, 0xff, 0x83, 0x45, 0xe6, 0x92, 0xc0, 0xf8, 0x6e,
     0x5b, 0x48, 0xe0, 0x1b, 0x99, 0x6c, 0xad, 0xc0, 0x01, 0x62, 0x2f, 0xb5, 0xe3, 0x63, 0xb4, 0x21]"
  by (simp add: emptyRoot_def HexToHash_def FromHex_def has0xPrefix_def Let_def BytesToHash_id)

lemma length_emptyRoot [simp]: "length emptyRoot = 32"
  by (simp add: emptyRoot_bytes)

lemma emptyRoot_neq_zero [simp]: "emptyRoot \<noteq> zeroHash"
  by (simp add: emptyRoot_bytes zeroHash_def numeral_eq_Suc)

end
