(* ===== verification/Nodes.thy ===== *)
theory Nodes
  imports Rlp_Buffer Common_Hash Hex_Keys
begin

section \<open>Trie nodes and their encodings\<close>

text \<open>
  The node types of \<open>trie/trie_node.go\<close> and \<open>trie/trie_types.go\<close>, with the nil
  interface value as a constructor of its own, their RLP encoders
  (\<open>trie/trie_node_enc.go\<close>), and the conversions between live and raw nodes:
  \<open>simplifyNode\<close> (\<open>trie/trie_node_convert.go\<close>), \<open>expandNode\<close> and
  \<open>forGatherChildren\<close> (\<open>trie/trie_types.go\<close>).  A panic is the error \<open>Panic\<close>.
\<close>

datatype go_error =
    Panic
  | OutOfFuel
  | MissingNodeError hash bytes
  | RlpError rlp_error
  | DuplicateOwner hash
  | MissingUpdate hash bytes
  | DatabaseClosed
  | NotFound

record nodeFlag =
  fl_hash :: "bytes option"
  dirty :: bool

datatype node =
    NilNode
  | FullNode "node list" nodeFlag
  | ShortNode bytes node nodeFlag
  | HashNode bytes
  | ValueNode bytes
  | RawFullNode "node list"
  | RawShortNode bytes node
  | RawNode bytes

text \<open>The 17 empty slots of a new full node.\<close>

definition no_children :: "node list" where
  "no_children = replicate 17 NilNode"

definition nilValueNode :: node where
  "nilValueNode = ValueNode []"

definition node_copy :: "node \<Rightarrow> node" where
  "node_copy n = n"

text \<open>\<open>cache()\<close>: the cached hash and the dirty flag.  Raw nodes and nil panic.\<close>

fun cache :: "node \<Rightarrow> go_error + (bytes option \<times> bool)" where
  "cache (FullNode _ fl) = Inr (fl_hash fl, dirty fl)"
| "cache (ShortNode _ _ fl) = Inr (fl_hash fl, dirty fl)"
| "cache (HashNode _) = Inr (None, True)"
| "cache (ValueNode _) = Inr (None, True)"
| "cache _ = Inl Panic"

subsection \<open>Encoding\<close>

definition EmptyString :: bytes where
  "EmptyString = [0x80]"

text \<open>
  The \<open>encode\<close> methods append to an encoder buffer.  Every caller tests a child for nil
  and writes \<open>rlp.EmptyString\<close> instead; the equation for \<open>NilNode\<close> is that branch.
\<close>

fun node_encode :: "node \<Rightarrow> encbuf \<Rightarrow> encbuf"
  and encode_children :: "node list \<Rightarrow> encbuf \<Rightarrow> encbuf" where
  "node_encode NilNode w = buf_Write EmptyString w"
| "node_encode (FullNode cs fl) w =
    (let (w1, off) = buf_list w in listEnd off (encode_children cs w1))"
| "node_encode (ShortNode k v fl) w =
    (let (w1, off) = buf_list w in listEnd off (node_encode v (writeBytes k w1)))"
| "node_encode (HashNode h) w = writeBytes h w"
| "node_encode (ValueNode v) w = writeBytes v w"
| "node_encode (RawFullNode cs) w =
    (let (w1, off) = buf_list w in listEnd off (encode_children cs w1))"
| "node_encode (RawShortNode k v) w =
    (let (w1, off) = buf_list w in listEnd off (node_encode v (writeBytes k w1)))"
| "node_encode (RawNode b) w = buf_Write b w"
| "encode_children [] w = w"
| "encode_children (c # cs) w = encode_children cs (node_encode c w)"

text \<open>
  \<open>nodeToBytes\<close> encodes into a fresh buffer from the pool, which is empty; calling it on
  nil panics.
\<close>

definition nodeToBytes :: "node \<Rightarrow> go_error + bytes" where
  "nodeToBytes n =
    (if n = NilNode then Inl Panic
     else case makeBytes (node_encode n (buf_reset empty_buf)) of
       None \<Rightarrow> Inl Panic | Some result \<Rightarrow> Inr result)"

text \<open>The reference encoding of a node.\<close>

fun node_bytes :: "node \<Rightarrow> bytes" where
  "node_bytes NilNode = rlp_str []"
| "node_bytes (FullNode cs fl) = rlp_list (concat (map node_bytes cs))"
| "node_bytes (ShortNode k v fl) = rlp_list (rlp_str k @ node_bytes v)"
| "node_bytes (HashNode h) = rlp_str h"
| "node_bytes (ValueNode v) = rlp_str v"
| "node_bytes (RawFullNode cs) = rlp_list (concat (map node_bytes cs))"
| "node_bytes (RawShortNode k v) = rlp_list (rlp_str k @ node_bytes v)"
| "node_bytes (RawNode b) = b"

subsection \<open>Conversions\<close>

fun simplifyNode :: "node \<Rightarrow> go_error + node"
  and simplify_children :: "node list \<Rightarrow> go_error + node list" where
  "simplifyNode (ShortNode k v fl) =
    (case simplifyNode v of Inl e \<Rightarrow> Inl e | Inr v' \<Rightarrow> Inr (RawShortNode k v'))"
| "simplifyNode (FullNode cs fl) =
    (case simplify_children cs of Inl e \<Rightarrow> Inl e | Inr cs' \<Rightarrow> Inr (RawFullNode cs'))"
| "simplifyNode (ValueNode v) = Inr (ValueNode v)"
| "simplifyNode (HashNode h) = Inr (HashNode h)"
| "simplifyNode (RawNode b) = Inr (RawNode b)"
| "simplifyNode _ = Inl Panic"
| "simplify_children [] = Inr []"
| "simplify_children (c # cs) =
    (case (if c = NilNode then Inr NilNode else simplifyNode c) of Inl e \<Rightarrow> Inl e
     | Inr c' \<Rightarrow> (case simplify_children cs of Inl e \<Rightarrow> Inl e | Inr cs' \<Rightarrow> Inr (c' # cs')))"

fun expandNode :: "bytes option \<Rightarrow> node \<Rightarrow> go_error + node"
  and expand_children :: "node list \<Rightarrow> go_error + node list" where
  "expandNode h (RawShortNode k v) =
    (case expandNode None v of Inl e \<Rightarrow> Inl e
     | Inr v' \<Rightarrow> Inr (ShortNode (compactToHex k) v' \<lparr>fl_hash = h, dirty = False\<rparr>))"
| "expandNode h (RawFullNode cs) =
    (case expand_children cs of Inl e \<Rightarrow> Inl e
     | Inr cs' \<Rightarrow> Inr (FullNode cs' \<lparr>fl_hash = h, dirty = False\<rparr>))"
| "expandNode h (ValueNode v) = Inr (ValueNode v)"
| "expandNode h (HashNode b) = Inr (HashNode b)"
| "expandNode h _ = Inl Panic"
| "expand_children [] = Inr []"
| "expand_children (c # cs) =
    (case (if c = NilNode then Inr NilNode else expandNode None c) of Inl e \<Rightarrow> Inl e
     | Inr c' \<Rightarrow> (case expand_children cs of Inl e \<Rightarrow> Inl e | Inr cs' \<Rightarrow> Inr (c' # cs')))"

text \<open>
  \<open>forGatherChildren\<close> calls back on every hash node below a raw node; the model returns
  the hashes in the order of the calls.  The loop over a full node stops after 16 of its 17
  children.
\<close>

fun forGatherChildren :: "node \<Rightarrow> go_error + hash list"
  and gather_children :: "nat \<Rightarrow> node list \<Rightarrow> go_error + hash list" where
  "forGatherChildren (RawShortNode k v) = forGatherChildren v"
| "forGatherChildren (RawFullNode cs) = gather_children 16 cs"
| "forGatherChildren (HashNode h) = Inr [BytesToHash h]"
| "forGatherChildren (ValueNode v) = Inr []"
| "forGatherChildren NilNode = Inr []"
| "forGatherChildren (RawNode b) = Inr []"
| "forGatherChildren _ = Inl Panic"
| "gather_children 0 cs = Inr []"
| "gather_children (Suc i) [] = Inr []"
| "gather_children (Suc i) (c # cs) =
    (case forGatherChildren c of Inl e \<Rightarrow> Inl e
     | Inr hs \<Rightarrow> (case gather_children i cs of Inl e \<Rightarrow> Inl e | Inr hs' \<Rightarrow> Inr (hs @ hs')))"

subsection \<open>The encoders emit the reference encoding\<close>

lemma emits_nested:
  assumes "emits f a" and "length (rlp_list a) < 2 ^ 64"
  shows "emits (\<lambda>w. case buf_list w of (w1, off) \<Rightarrow> listEnd off (f w1)) (rlp_list a)"
proof -
  have "emits (\<lambda>w. let (w1, off) = buf_list w in listEnd off (f w1)) (rlp_list a)"
    using assms length_rlp_list_gt[of a] by (intro emits_list) simp_all
  then show ?thesis by (simp add: Let_def)
qed

lemma length_rlp_list_parts:
  "length (rlp_list (a @ b)) < 2 ^ 64 \<Longrightarrow> length a < 2 ^ 64 \<and> length b < 2 ^ 64"
  using length_rlp_list_gt[of "a @ b"] by simp

lemma emits_short_node:
  assumes "length (node_bytes v) < 2 ^ 64 \<Longrightarrow> emits (node_encode v) (node_bytes v)"
    and "length (rlp_list (rlp_str k @ node_bytes v)) < 2 ^ 64"
  shows "emits (\<lambda>w. case buf_list w of (w1, off) \<Rightarrow> listEnd off (node_encode v (writeBytes k w1)))
           (rlp_list (rlp_str k @ node_bytes v))"
proof -
  have "length (rlp_str k) < 2 ^ 64" "length (node_bytes v) < 2 ^ 64"
    using length_rlp_list_parts assms(2) by blast+
  then have "emits (\<lambda>w. node_encode v (writeBytes k w)) (rlp_str k @ node_bytes v)"
    using assms(1) length_rlp_str_ge[of k] by (intro emits_seq emits_writeBytes) simp_all
  then show ?thesis using assms(2) by (simp add: emits_nested)
qed

lemma emits_encode_children:
  "(\<And>c. c \<in> set cs \<Longrightarrow> emits (node_encode c) (node_bytes c)) \<Longrightarrow>
     emits (encode_children cs) (concat (map node_bytes cs))"
proof (induction cs)
  case Nil
  then show ?case using emits_id by (simp add: id_def)
next
  case (Cons c cs)
  then show ?case by (simp add: emits_seq)
qed

lemma length_node_bytes_child:
  "c \<in> set cs \<Longrightarrow> length (node_bytes c) \<le> length (concat (map node_bytes cs))"
  by (induction cs) auto

lemma emits_node_encode:
  "length (node_bytes n) < 2 ^ 64 \<Longrightarrow> emits (node_encode n) (node_bytes n)"
proof (induction n)
  case NilNode
  then show ?case by (simp add: rlp_simps EmptyString_def emits_Write)
next
  case (FullNode cs fl)
  have "emits (encode_children cs) (concat (map node_bytes cs))"
  proof (rule emits_encode_children)
    fix c assume c: "c \<in> set cs"
    have "length (concat (map node_bytes cs)) < 2 ^ 64"
      using FullNode.prems length_rlp_list_gt[of "concat (map node_bytes cs)"] by simp
    then show "emits (node_encode c) (node_bytes c)"
      using FullNode.IH c length_node_bytes_child[OF c] by simp
  qed
  then show ?case using FullNode.prems by (simp add: emits_nested)
next
  case (ShortNode k v fl)
  then show ?case using emits_short_node by simp
next
  case (HashNode h)
  then show ?case using length_rlp_str_ge[of h] by (simp add: emits_writeBytes)
next
  case (ValueNode v)
  then show ?case using length_rlp_str_ge[of v] by (simp add: emits_writeBytes)
next
  case (RawFullNode cs)
  have "emits (encode_children cs) (concat (map node_bytes cs))"
  proof (rule emits_encode_children)
    fix c assume c: "c \<in> set cs"
    have "length (concat (map node_bytes cs)) < 2 ^ 64"
      using RawFullNode.prems length_rlp_list_gt[of "concat (map node_bytes cs)"] by simp
    then show "emits (node_encode c) (node_bytes c)"
      using RawFullNode.IH c length_node_bytes_child[OF c] by simp
  qed
  then show ?case using RawFullNode.prems by (simp add: emits_nested)
next
  case (RawShortNode k v)
  then show ?case using emits_short_node by simp
next
  case (RawNode b)
  then show ?case by (simp add: emits_Write)
qed

lemma nodeToBytes_node_bytes:
  "n \<noteq> NilNode \<Longrightarrow> length (node_bytes n) < 2 ^ 64 \<Longrightarrow> nodeToBytes n = Inr (node_bytes n)"
  using emits_makeBytes[OF emits_node_encode] by (simp add: nodeToBytes_def buf_reset_empty)

text \<open>Dropping the flags does not change the encoding.\<close>

lemma node_bytes_simplify_children:
  "(\<And>c c'. c \<in> set cs \<Longrightarrow> simplifyNode c = Inr c' \<Longrightarrow> node_bytes c' = node_bytes c) \<Longrightarrow>
   simplify_children cs = Inr cs' \<Longrightarrow> map node_bytes cs' = map node_bytes cs"
  by (induction cs arbitrary: cs') (auto split: sum.splits if_splits)

lemma node_bytes_simplify: "simplifyNode n = Inr n' \<Longrightarrow> node_bytes n' = node_bytes n"
proof (induction n arbitrary: n')
  case (FullNode cs fl)
  then obtain cs' where "simplify_children cs = Inr cs'" "n' = RawFullNode cs'"
    by (auto split: sum.splits)
  then show ?case using node_bytes_simplify_children FullNode.IH by (metis node_bytes.simps(2,6))
qed (auto split: sum.splits)

end
