(* ===== verification/Node_Decode.thy ===== *)
theory Node_Decode
  imports Rlp_Raw Nodes
begin

section \<open>Decoding trie nodes (trie/trie_node_dec.go)\<close>

text \<open>
  The decoder of stored node blobs.  A Go error is a value of \<open>decode_error\<close>; the
  decode path that \<open>wrapError\<close> collects is a list of \<open>path_elem\<close>, innermost first, as
  in the code.  The nodes returned beside an error are dropped, as every caller drops them.
\<close>

datatype path_elem = AtShort | AtFull | AtVal | AtChild nat

datatype decode_error =
    ErrEmptyBlob
  | ErrDecode rlp_error
  | ErrElements nat
  | ErrSplit rlp_error
  | ErrInvalidValue rlp_error
  | ErrOversized nat
  | ErrStringSize nat
  | DecodeError decode_error "path_elem list"

definition wrapError :: "decode_error \<Rightarrow> path_elem \<Rightarrow> decode_error" where
  "wrapError err ctx =
    (case err of DecodeError what stack \<Rightarrow> DecodeError what (stack @ [ctx])
     | _ \<Rightarrow> DecodeError err [ctx])"

definition wrap_result :: "path_elem \<Rightarrow> decode_error + 'a \<Rightarrow> decode_error + 'a" where
  "wrap_result ctx r = (case r of Inl e \<Rightarrow> Inl (wrapError e ctx) | Inr x \<Rightarrow> Inr x)"

definition hashLen :: nat where
  "hashLen = HashLength"

text \<open>
  The four mutually recursive functions.  The loop of \<open>decodeFull\<close> over the sixteen
  child slots is \<open>decode_children\<close>; it returns the children it read and the input left.
\<close>

function (sequential) decodeNodeUnsafe :: "bytes option \<Rightarrow> bytes \<Rightarrow> decode_error + node"
  and decodeShort :: "bytes option \<Rightarrow> bytes \<Rightarrow> decode_error + node"
  and decodeFull :: "bytes option \<Rightarrow> bytes \<Rightarrow> decode_error + node"
  and decode_children :: "nat \<Rightarrow> bytes \<Rightarrow> decode_error + (node list \<times> bytes)"
  and decodeRef :: "bytes \<Rightarrow> decode_error + (node \<times> bytes)" where
  "decodeNodeUnsafe h buf =
    (if length buf = 0 then Inl ErrEmptyBlob
     else case SplitList buf of Inl e \<Rightarrow> Inl (ErrDecode e)
       | Inr (elems, _) \<Rightarrow>
           (let c = (case CountValues elems of Inl _ \<Rightarrow> 0 | Inr c \<Rightarrow> c) in
            if c = 2 then wrap_result AtShort (decodeShort h elems)
            else if c = 17 then wrap_result AtFull (decodeFull h elems)
            else Inl (ErrElements c)))"
| "decodeShort h elems =
    (case SplitString elems of Inl e \<Rightarrow> Inl (ErrSplit e)
     | Inr (kbuf, rest) \<Rightarrow>
         (let flag = \<lparr>fl_hash = h, dirty = False\<rparr>; key = compactToHex kbuf in
          if hasTerm key then
            (case SplitString rest of Inl e \<Rightarrow> Inl (ErrInvalidValue e)
             | Inr (val, _) \<Rightarrow> Inr (ShortNode key (ValueNode val) flag))
          else
            (case decodeRef rest of Inl e \<Rightarrow> Inl (wrapError e AtVal)
             | Inr (r, _) \<Rightarrow> Inr (ShortNode key r flag))))"
| "decodeFull h elems =
    (case decode_children 0 elems of Inl e \<Rightarrow> Inl e
     | Inr (cs, elems') \<Rightarrow>
         (case SplitString elems' of Inl e \<Rightarrow> Inl (ErrSplit e)
          | Inr (val, _) \<Rightarrow>
              Inr (FullNode (cs @ [if length val > 0 then ValueNode val else NilNode])
                    \<lparr>fl_hash = h, dirty = False\<rparr>)))"
| "decode_children i elems =
    (if i \<ge> 16 then Inr ([], elems)
     else case decodeRef elems of Inl e \<Rightarrow> Inl (wrapError e (AtChild i))
       | Inr (cld, rest) \<Rightarrow>
           (case decode_children (Suc i) rest of Inl e \<Rightarrow> Inl e
            | Inr (cs, elems') \<Rightarrow> Inr (cld # cs, elems')))"
| "decodeRef buf =
    (case Split buf of Inl e \<Rightarrow> Inl (ErrSplit e)
     | Inr (k, val, rest) \<Rightarrow>
         if k = List then
           (let sz = length buf - length rest in
            if sz > hashLen then Inl (ErrOversized sz)
            else (case decodeNodeUnsafe None (CopyBytes buf) of Inl e \<Rightarrow> Inl e
                  | Inr n \<Rightarrow> Inr (n, rest)))
         else if k = String \<and> length val = 0 then Inr (NilNode, rest)
         else if k = String \<and> length val = 32 then Inr (HashNode val, rest)
         else Inl (ErrStringSize (length val)))"
  by pat_completeness auto

lemma Split_length: "Split b = Inr (k, c, r) \<Longrightarrow> length c + length r \<le> length b"
  by (auto simp: Split_def split: sum.splits)

lemma Split_List_length: "Split b = Inr (List, c, r) \<Longrightarrow> length c < length b"
proof -
  assume s: "Split b = Inr (List, c, r)"
  then obtain ts cs where k: "readKind b = Inr (List, ts, cs)"
    and c: "c = subslice (unat ts) (unat ts + unat cs) b" by (auto simp: Split_def split: sum.splits)
  have "x \<noteq> 0 \<Longrightarrow> 0 < unat x" for x :: uint64 by (simp add: unat_gt_0)
  moreover have "ucast (x - 0xF7) + (1 :: uint64) \<noteq> 0" for x :: byte
    by (simp add: word_unat_eq_iff)
  ultimately have "0 < unat ts" using k
    by (auto simp: readKind_def Let_def unat_gt_0 split: list.splits if_splits sum.splits)
  moreover have "b \<noteq> []" using k by (auto simp: readKind_def)
  ultimately show ?thesis by (cases b) (auto simp: c min_def)
qed

lemma SplitList_length: "SplitList b = Inr (c, r) \<Longrightarrow> length c < length b"
  by (auto simp: SplitList_def Split_List_length split: sum.splits if_splits)

lemma SplitString_length: "SplitString b = Inr (c, r) \<Longrightarrow> length c + length r \<le> length b"
  by (auto simp: SplitString_def Split_length split: sum.splits if_splits)

lemma decodeRef_dom_length:
  assumes "decodeNodeUnsafe_decodeShort_decodeFull_decode_children_decodeRef_dom (Inr (Inr (Inr buf)))"
    and "decodeRef buf = Inr (n, rest)"
  shows "length rest \<le> length buf"
  using assms(2) decodeRef.psimps[OF assms(1)] Split_length[of buf]
  by (auto split: sum.splits if_splits prod.splits simp: Let_def)

termination decodeNodeUnsafe
proof (relation "measures
    [case_sum (case_sum (\<lambda>(_, b). length b) (\<lambda>(_, b). length b))
       (case_sum (\<lambda>(_, b). length b) (case_sum (\<lambda>(_, b). length b) length)),
     case_sum (case_sum (\<lambda>_. 0) (\<lambda>_. 2)) (case_sum (\<lambda>_. 3) (case_sum (\<lambda>_. 2) (\<lambda>_. 1))),
     case_sum (\<lambda>_. 0) (case_sum (\<lambda>_. 0) (case_sum (\<lambda>(i, _). 16 - i) (\<lambda>_. 0)))]",
   goal_cases)
  case 1
  then show ?case by simp
qed (use SplitList_length SplitString_length in \<open>fastforce simp: CopyBytes_def dest: decodeRef_dom_length\<close>)+

text \<open>The equations are unfolded one call at a time; none of them is a simplification rule.\<close>

declare decodeNodeUnsafe.simps [simp del] decodeShort.simps [simp del] decodeFull.simps [simp del]
  decode_children.simps [simp del] decodeRef.simps [simp del]

end
