(* ===== verification/Merkle.thy ===== *)
theory Merkle
  imports Patricia Node_Decode
begin

section \<open>The Merkle encoding of an abstract trie\<close>

text \<open>
  The reference definition of what the trie stores and of its root hash.  The hash function
  \<open>H\<close> (Keccak-256, which \<open>crypto/crypto.go\<close> takes from a library) is an argument.  A
  node is encoded as a list of its key in compact form and a reference to its child, or of
  references to its seventeen children; a reference to a node is the encoding itself when
  that is shorter than 32 bytes and its hash otherwise.
\<close>

definition is_node :: "atrie \<Rightarrow> bool" where
  "is_node a \<longleftrightarrow> (case a of AShort _ _ \<Rightarrow> True | AFull _ \<Rightarrow> True | _ \<Rightarrow> False)"

definition ref_item :: "(bytes \<Rightarrow> bytes) \<Rightarrow> atrie \<Rightarrow> rlp_item \<Rightarrow> rlp_item" where
  "ref_item H a it = (if is_node a \<and> 32 \<le> length (rlp_enc it) then RStr (H (rlp_enc it)) else it)"

fun item :: "(bytes \<Rightarrow> bytes) \<Rightarrow> atrie \<Rightarrow> rlp_item" where
  "item H AEmpty = RStr []"
| "item H (AVal v) = RStr v"
| "item H (AShort k c) = RList [RStr (hexToCompact k), ref_item H c (item H c)]"
| "item H (AFull cs) = RList (map (\<lambda>c. ref_item H c (item H c)) cs)"

definition blob :: "(bytes \<Rightarrow> bytes) \<Rightarrow> atrie \<Rightarrow> bytes" where
  "blob H a = rlp_enc (item H a)"

definition ref_of :: "(bytes \<Rightarrow> bytes) \<Rightarrow> atrie \<Rightarrow> rlp_item" where
  "ref_of H a = ref_item H a (item H a)"

definition hashed :: "(bytes \<Rightarrow> bytes) \<Rightarrow> atrie \<Rightarrow> bool" where
  "hashed H a \<longleftrightarrow> is_node a \<and> 32 \<le> length (blob H a)"

definition root_hash :: "(bytes \<Rightarrow> bytes) \<Rightarrow> atrie \<Rightarrow> hash" where
  "root_hash H a = (if a = AEmpty then emptyRoot else H (blob H a))"

definition hash_fun :: "(bytes \<Rightarrow> bytes) \<Rightarrow> bool" where
  "hash_fun H \<longleftrightarrow> (\<forall>x. length (H x) = 32)"

lemma hash_fun_length [simp]: "hash_fun H \<Longrightarrow> length (H x) = 32"
  by (simp add: hash_fun_def)

lemma is_node_simps [simp]:
  "\<not> is_node AEmpty" "\<not> is_node (AVal v)" "is_node (AShort k c)" "is_node (AFull cs)"
  by (simp_all add: is_node_def)

lemma wf_is_node: "wf_anode a \<Longrightarrow> is_node a"
  by (cases a) simp_all

lemma ref_of_cases: "ref_of H a = (if hashed H a then RStr (H (blob H a)) else item H a)"
  by (simp add: ref_of_def ref_item_def hashed_def blob_def)

lemma item_simps:
  "item H (AShort k c) = RList [RStr (hexToCompact k), ref_of H c]"
  "item H (AFull cs) = RList (map (ref_of H) cs)"
  by (simp_all add: ref_of_def)

declare item.simps(3,4) [simp del]

lemma blob_simps:
  "blob H (AShort k c) = rlp_list (rlp_str (hexToCompact k) @ rlp_enc (ref_of H c))"
  "blob H (AFull cs) = rlp_list (concat (map (\<lambda>c. rlp_enc (ref_of H c)) cs))"
  by (simp_all add: blob_def item_simps comp_def)

lemma item_is_list: "is_node a \<Longrightarrow> \<exists>xs. item H a = RList xs"
  by (cases a) (simp_all add: item_simps)

subsection \<open>What decoding a stored node yields\<close>

text \<open>
  \<open>dnode H h a\<close> is the live node the decoder builds: the flag of the node carries the hash
  it was loaded by, embedded children carry none.
\<close>

fun dnode :: "(bytes \<Rightarrow> bytes) \<Rightarrow> bytes option \<Rightarrow> atrie \<Rightarrow> node" where
  "dnode H h AEmpty = NilNode"
| "dnode H h (AVal v) = ValueNode v"
| "dnode H h (AShort k c) =
    ShortNode k (if hashed H c then HashNode (H (blob H c)) else dnode H None c)
      \<lparr>fl_hash = h, dirty = False\<rparr>"
| "dnode H h (AFull cs) =
    FullNode (map (\<lambda>c. if hashed H c then HashNode (H (blob H c)) else dnode H None c) cs)
      \<lparr>fl_hash = h, dirty = False\<rparr>"

definition dref :: "(bytes \<Rightarrow> bytes) \<Rightarrow> atrie \<Rightarrow> node" where
  "dref H c = (if hashed H c then HashNode (H (blob H c)) else dnode H None c)"

lemma dnode_simps:
  "dnode H h (AShort k c) = ShortNode k (dref H c) \<lparr>fl_hash = h, dirty = False\<rparr>"
  "dnode H h (AFull cs) = FullNode (map (dref H) cs) \<lparr>fl_hash = h, dirty = False\<rparr>"
  by (simp_all add: dref_def)

declare dnode.simps(3,4) [simp del]

definition decodes :: "(bytes \<Rightarrow> bytes) \<Rightarrow> atrie \<Rightarrow> bool" where
  "decodes H a \<longleftrightarrow> (\<forall>h rest. length (blob H a @ rest) < 2 ^ 64 \<longrightarrow>
     decodeNodeUnsafe h (blob H a @ rest) = Inr (dnode H h a))"

lemma hash_nonempty: "hash_fun H \<Longrightarrow> H x \<noteq> []"
  by (metis hash_fun_length list.size(3) zero_neq_numeral)

lemma decode_ref:
  assumes H: "hash_fun H" and c: "sub_ok False c" "is_node c \<Longrightarrow> decodes H c"
    and l: "length (rlp_enc (ref_of H c) @ rest) < 2 ^ 64"
  shows "decodeRef (rlp_enc (ref_of H c) @ rest) = Inr (dref H c, rest)"
proof (cases "hashed H c")
  case True
  then have e: "ref_of H c = RStr (H (blob H c))" by (simp add: ref_of_cases)
  have "Split (rlp_enc (ref_of H c) @ rest) = Inr (String, H (blob H c), rest)"
    using Split_rlp_enc[OF l] H by (simp add: e)
  then show ?thesis using H True by (simp add: decodeRef.simps dref_def hash_nonempty)
next
  case False
  then have e: "ref_of H c = item H c" by (simp add: ref_of_cases)
  show ?thesis
  proof (cases "is_node c")
    case True
    obtain xs where xs: "item H c = RList xs" using item_is_list[OF True] by blast
    have "Split (blob H c @ rest) = Inr (List, concat (map rlp_enc xs), rest)"
      using Split_rlp_enc[OF l] by (simp add: e xs blob_def)
    moreover have "length (blob H c) < 32" using False True by (simp add: hashed_def)
    moreover have "decodeNodeUnsafe None (blob H c @ rest) = Inr (dnode H None c)"
      using c(2) True l by (simp add: decodes_def e blob_def)
    ultimately show ?thesis using False
      by (simp add: e decodeRef.simps dref_def blob_def CopyBytes_def hashLen_def HashLength_def)
  next
    case n: False
    then have c: "c = AEmpty" using c(1) by (cases c) (auto simp: sub_ok_def)
    have "Split (rlp_enc (RStr []) @ rest) = Inr (String, [], rest)"
      using Split_rlp_enc[of "RStr []" rest] l by (simp add: c ref_of_cases hashed_def)
    then show ?thesis by (simp add: c ref_of_cases decodeRef.simps dref_def hashed_def)
  qed
qed

lemma decode_children_run:
  assumes "\<And>d r. d \<in> set ds \<Longrightarrow> length (rlp_enc (ref_of H d) @ r) < 2 ^ 64 \<Longrightarrow>
      decodeRef (rlp_enc (ref_of H d) @ r) = Inr (dref H d, r)"
    and "i + length ds = 16" and "length (concat (map (\<lambda>d. rlp_enc (ref_of H d)) ds) @ rest) < 2 ^ 64"
  shows "decode_children i (concat (map (\<lambda>d. rlp_enc (ref_of H d)) ds) @ rest) = Inr (map (dref H) ds, rest)"
  using assms
proof (induction ds arbitrary: i)
  case Nil
  then show ?case by (simp add: decode_children.simps)
next
  case (Cons d ds)
  have "decode_children (Suc i) (concat (map (\<lambda>d. rlp_enc (ref_of H d)) ds) @ rest) = Inr (map (dref H) ds, rest)"
    using Cons by simp
  moreover have "decodeRef (rlp_enc (ref_of H d) @ (concat (map (\<lambda>d. rlp_enc (ref_of H d)) ds) @ rest)) =
      Inr (dref H d, concat (map (\<lambda>d. rlp_enc (ref_of H d)) ds) @ rest)"
    using Cons.prems by simp
  moreover have "\<not> 16 \<le> i" using Cons.prems(2) by simp
  ultimately show ?case by (simp add: decode_children.simps[of i])
qed

lemma decodeNodeUnsafe_list:
  assumes "length (rlp_list (concat (map rlp_enc xs)) @ rest) < 2 ^ 64"
  shows "decodeNodeUnsafe h (rlp_list (concat (map rlp_enc xs)) @ rest) =
    (if length xs = 2 then wrap_result AtShort (decodeShort h (concat (map rlp_enc xs)))
     else if length xs = 17 then wrap_result AtFull (decodeFull h (concat (map rlp_enc xs)))
     else Inl (ErrElements (length xs)))"
proof -
  have "length (concat (map rlp_enc xs)) < 2 ^ 64"
    using assms length_rlp_list_gt[of "concat (map rlp_enc xs)"] by simp
  then show ?thesis
    using SplitList_rlp_list[OF assms] CountValues_concat[of xs] by (simp add: decodeNodeUnsafe.simps)
qed

lemma wrap_result_Inr [simp]: "wrap_result ctx (Inr x) = Inr x"
  by (simp add: wrap_result_def)

lemma decodes_wf:
  assumes H: "hash_fun H"
  shows "wf_anode a \<Longrightarrow> decodes H a"
proof (induction a)
  case (AShort k c)
  have k: "hex_key k" "sub_ok (hasTerm k) c" using AShort.prems by (auto simp: wf_AShort)
  show ?case unfolding decodes_def
  proof (intro allI impI)
    fix h rest assume l: "length (blob H (AShort k c) @ rest) < 2 ^ 64"
    let ?e = "rlp_enc (ref_of H c)"
    have le: "length (rlp_str (hexToCompact k) @ ?e) < 2 ^ 64"
      using l length_rlp_list_gt[of "rlp_str (hexToCompact k) @ ?e"] by (simp add: blob_simps)
    then have k1: "SplitString (rlp_str (hexToCompact k) @ ?e) = Inr (hexToCompact k, ?e)"
      using SplitString_rlp_str by blast
    have "decodeShort h (rlp_str (hexToCompact k) @ ?e) = Inr (dnode H h (AShort k c))"
    proof (cases "hasTerm k")
      case True
      then obtain v where v: "c = AVal v" using AShort.prems by (auto elim: short_child_cases)
      have "SplitString (?e @ []) = Inr (v, [])"
        using le by (intro SplitString_iff[THEN iffD2]) (simp_all add: v ref_of_cases hashed_def)
      then show ?thesis
        using True k1 compactToHex_hexToCompact[OF k(1)]
        by (simp add: decodeShort.simps dnode_simps v dref_def hashed_def Let_def)
    next
      case False
      then have "decodeRef (?e @ []) = Inr (dref H c, [])"
        using k le AShort.IH H by (intro decode_ref) (auto simp: sub_ok_def)
      then show ?thesis
        using False k1 compactToHex_hexToCompact[OF k(1)]
        by (simp add: decodeShort.simps dnode_simps Let_def)
    qed
    then show "decodeNodeUnsafe h (blob H (AShort k c) @ rest) = Inr (dnode H h (AShort k c))"
      using decodeNodeUnsafe_list[of "[RStr (hexToCompact k), ref_of H c]" rest h] l by (simp add: blob_simps)
  qed
next
  case (AFull cs)
  have cs: "length cs = 17" "\<And>i. i < 17 \<Longrightarrow> sub_ok (i = 16) (cs ! i)" using AFull.prems by (auto simp: wf_AFull)
  let ?ds = "take 16 cs" and ?v = "cs ! 16"
  have split: "cs = ?ds @ [?v]" using cs(1) take_Suc_conv_app_nth[of 16 cs] by simp
  have v: "sub_ok True ?v" using cs(2)[of 16] by simp
  have ds: "sub_ok False d" "is_node d \<Longrightarrow> decodes H d" if d: "d \<in> set ?ds" for d
  proof -
    obtain i where i: "i < 16" "d = cs ! i" using d cs(1) by (auto simp: in_set_conv_nth)
    then show s: "sub_ok False d" using cs(2)[of i] by simp
    show "is_node d \<Longrightarrow> decodes H d" using s AFull.IH[of d] i cs(1) by (auto simp: sub_ok_def)
  qed
  show ?case unfolding decodes_def
  proof (intro allI impI)
    fix h rest assume l: "length (blob H (AFull cs) @ rest) < 2 ^ 64"
    let ?e = "\<lambda>d. rlp_enc (ref_of H d)"
    have es: "concat (map ?e cs) = concat (map ?e ?ds) @ ?e ?v" by (subst split) simp
    have le: "length (concat (map ?e ?ds) @ ?e ?v) < 2 ^ 64"
      using l length_rlp_list_gt[of "concat (map ?e cs)"] by (simp add: blob_simps es)
    have 1: "decode_children 0 (concat (map ?e ?ds) @ ?e ?v) = Inr (map (dref H) ?ds, ?e ?v)"
      using le cs(1) ds H by (intro decode_children_run decode_ref) auto
    define w where "w = (case ?v of AVal v \<Rightarrow> v | _ \<Rightarrow> [])"
    have w: "ref_of H ?v = RStr w" "dref H ?v = (if length w > 0 then ValueNode w else NilNode)"
      using v by (auto simp: sub_ok_def w_def ref_of_cases hashed_def dref_def)
    have 2: "SplitString (?e ?v @ []) = Inr (w, [])"
      using le by (intro SplitString_iff[THEN iffD2]) (simp_all add: w)
    have "map (dref H) cs = map (dref H) ?ds @ [dref H ?v]" by (subst split) simp
    then have "decodeFull h (concat (map ?e cs)) = Inr (dnode H h (AFull cs))"
      using 1 2 by (simp add: es decodeFull.simps dnode_simps w(2))
    then show "decodeNodeUnsafe h (blob H (AFull cs) @ rest) = Inr (dnode H h (AFull cs))"
      using decodeNodeUnsafe_list[of "map (ref_of H) cs" rest h] l cs(1) by (simp add: blob_simps comp_def)
  qed
qed simp_all

subsection \<open>Tries that fit in memory\<close>

text \<open>
  Lengths are machine integers in the code.  A trie is small when its keys have at most
  \<open>2 ^ 60\<close> nibbles and its values at most \<open>2 ^ 60\<close> bytes; then every node
  encoding is shorter than \<open>2 ^ 63\<close> bytes.
\<close>

definition small :: "atrie \<Rightarrow> bool" where
  "small a \<longleftrightarrow> (\<forall>key v. alookup a key = Some v \<longrightarrow> length key \<le> 2 ^ 60 \<and> length v \<le> 2 ^ 60)"

lemma smallD: "small a \<Longrightarrow> alookup a key = Some v \<Longrightarrow> length key \<le> 2 ^ 60 \<and> length v \<le> 2 ^ 60"
  unfolding small_def by blast

lemma small_AShort:
  assumes "small (AShort k c)"
  shows "small c"
  unfolding small_def
proof (intro allI impI)
  fix key v assume "alookup c key = Some v"
  then have "alookup (AShort k c) (k @ key) = Some v" by simp
  from smallD[OF assms this] show "length key \<le> 2 ^ 60 \<and> length v \<le> 2 ^ 60" by simp
qed

lemma small_AFull:
  assumes "small (AFull cs)" and "i < length cs" and "length cs = 17"
  shows "small (cs ! i)"
  unfolding small_def
proof (intro allI impI)
  fix key v assume "alookup (cs ! i) key = Some v"
  then have "alookup (AFull cs) (of_nat i # key) = Some v" using assms by simp
  then have "length (of_nat i # key :: bytes) \<le> 2 ^ 60 \<and> length v \<le> 2 ^ 60" using smallD[OF assms(1)] by blast
  then show "length key \<le> 2 ^ 60 \<and> length v \<le> 2 ^ 60" by simp
qed

lemma length_rlp_str_le: "length v < 2 ^ 64 \<Longrightarrow> length (rlp_str v) \<le> length v + 9"
  using length_rlp_head_le[of "length v" "0x80" "0xB7"] by (auto simp: rlp_str_def)

lemma length_rlp_list_le: "length v < 2 ^ 64 \<Longrightarrow> length (rlp_list v) \<le> length v + 9"
  using length_rlp_head_le[of "length v" "0xC0" "0xF7"] by (simp add: rlp_list_def)

lemma length_hexToCompact: "length (hexToCompact k) \<le> length k + 1"
  using length_decodeNibbles[of "drop (Suc 0) k"] length_decodeNibbles[of k]
    length_decodeNibbles[of "take (length k - 1) k"] length_decodeNibbles[of "drop (Suc 0) (take (length k - 1) k)"]
  by (auto simp: hexToCompact_def Let_def intro: order_trans[OF div_le_dividend])

lemma length_ref_le:
  assumes "hash_fun H" and "sub_ok t c" and "small c"
  shows "length (rlp_enc (ref_of H c)) \<le> 2 ^ 60 + 41"
proof (cases "is_node c")
  case True
  have "length (rlp_str (H (blob H c))) \<le> 41"
    using length_rlp_str_le[of "H (blob H c)"] assms(1) by simp
  with True show ?thesis by (auto simp: ref_of_cases hashed_def blob_def)
next
  case False
  then obtain v where v: "c = AEmpty \<and> v = [] \<or> c = AVal v" by (cases c) auto
  then have "length v \<le> 2 ^ 60" using smallD[OF assms(3), of "[]" v] by auto
  then have "length (rlp_str v) \<le> 2 ^ 60 + 9" using length_rlp_str_le[of v] by simp
  with v show ?thesis by (auto simp: ref_of_cases hashed_def)
qed

lemma length_concat_le: "(\<And>x. x \<in> set xs \<Longrightarrow> length (f x) \<le> n) \<Longrightarrow> length (concat (map f xs)) \<le> length xs * n"
  by (induction xs) (auto intro: add_mono)

lemma length_ref_node_le:
  assumes "hash_fun H" and "sub_ok False c"
  shows "length (rlp_enc (ref_of H c)) \<le> 41"
proof (cases "is_node c")
  case True
  have "length (rlp_str (H (blob H c))) \<le> 41"
    using length_rlp_str_le[of "H (blob H c)"] assms(1) by simp
  with True show ?thesis by (auto simp: ref_of_cases hashed_def blob_def)
next
  case False
  then have "c = AEmpty" using assms(2) by (cases c) (auto simp: sub_ok_def)
  then show ?thesis by (simp add: ref_of_cases hashed_def rlp_simps)
qed

lemma length_blob:
  assumes H: "hash_fun H" and wf: "wf_anode a" and s: "small a"
  shows "length (blob H a) < 2 ^ 63"
proof (cases a)
  case (AShort k c)
  then have c: "sub_ok (hasTerm k) c" "c \<noteq> AEmpty" "small c" using wf s small_AShort by (auto simp: wf_AShort)
  obtain r v where "alookup c r = Some v" using sub_ok_has_key c by blast
  then have "alookup a (k @ r) = Some v" by (simp add: AShort)
  then have "length k \<le> 2 ^ 60" using smallD[OF s] by fastforce
  then have "length (rlp_str (hexToCompact k)) \<le> 2 ^ 60 + 10"
    using length_hexToCompact[of k] length_rlp_str_le[of "hexToCompact k"] by simp
  then have l: "length (rlp_str (hexToCompact k) @ rlp_enc (ref_of H c)) \<le> 2 ^ 61 + 51"
    using length_ref_le[OF H c(1,3)] by simp
  then show ?thesis using length_rlp_list_le[of "rlp_str (hexToCompact k) @ rlp_enc (ref_of H c)"]
    by (simp add: AShort blob_simps)
next
  case (AFull cs)
  then have l: "length cs = 17" "\<And>i. i < 17 \<Longrightarrow> sub_ok (i = 16) (cs ! i)" using wf by (auto simp: wf_AFull)
  let ?e = "\<lambda>c. rlp_enc (ref_of H c)"
  have "length (?e c) \<le> 41" if c: "c \<in> set (take 16 cs)" for c
  proof -
    obtain i where "i < 16" "c = cs ! i" using c l(1) by (auto simp: in_set_conv_nth)
    then show ?thesis using length_ref_node_le[OF H] l(2)[of i] by simp
  qed
  then have 1: "length (concat (map ?e (take 16 cs))) \<le> 16 * 41"
    using length_concat_le[of "take 16 cs" ?e 41] l(1) by simp
  have 2: "length (?e (cs ! 16)) \<le> 2 ^ 60 + 41"
    using length_ref_le[OF H l(2)[of 16]] small_AFull[of cs 16] s AFull l(1) by simp
  have split: "cs = take 16 cs @ [cs ! 16]" using l(1) take_Suc_conv_app_nth[of 16 cs] by simp
  have "concat (map ?e cs) = concat (map ?e (take 16 cs)) @ ?e (cs ! 16)" by (subst split) simp
  then have 3: "length (concat (map ?e cs)) \<le> 2 ^ 60 + 700" using 1 2 by simp
  then show ?thesis using length_rlp_list_le[of "concat (map ?e cs)"] by (simp add: AFull blob_simps)
qed (use wf in simp_all)

subsection \<open>Stored tries\<close>

text \<open>
  A trie is stored in a store with the given view when the hash of every node that is
  referred to by hash reads as the encoding of that node.
\<close>

fun kids_stored :: "(bytes \<Rightarrow> bytes) \<Rightarrow> (hash \<Rightarrow> bytes) \<Rightarrow> atrie \<Rightarrow> bool" where
  "kids_stored H view (AShort k c) \<longleftrightarrow>
     kids_stored H view c \<and> (hashed H c \<longrightarrow> view (H (blob H c)) = blob H c)"
| "kids_stored H view (AFull cs) \<longleftrightarrow>
     (\<forall>c \<in> set cs. kids_stored H view c \<and> (hashed H c \<longrightarrow> view (H (blob H c)) = blob H c))"
| "kids_stored H view _ \<longleftrightarrow> True"

definition stored :: "(bytes \<Rightarrow> bytes) \<Rightarrow> (hash \<Rightarrow> bytes) \<Rightarrow> atrie \<Rightarrow> bool" where
  "stored H view a \<longleftrightarrow> kids_stored H view a \<and> view (H (blob H a)) = blob H a"

lemma blob_nonempty [simp]: "blob H a \<noteq> []"
  by (simp add: blob_def)

lemma decode_blob:
  assumes "hash_fun H" and "wf_anode a" and "small a"
  shows "decodeNodeUnsafe h (blob H a) = Inr (dnode H h a)"
proof -
  have "length (blob H a @ []) < 2 ^ 64" using length_blob[OF assms] by simp
  then show ?thesis using decodes_wf[OF assms(1,2)] unfolding decodes_def by (metis append_Nil2)
qed

text \<open>
  What a client needs from a store of node blobs, and what it gets: a hash of a stored node
  reads, at any path, as a blob that decodes to that node.
\<close>

locale node_reader =
  fixes read :: "bytes \<Rightarrow> hash \<Rightarrow> 'e + bytes"
    and view :: "hash \<Rightarrow> bytes"
  assumes read_view: "view h \<noteq> [] \<Longrightarrow> read path h = Inr (view h)"
begin

lemma read_stored: "stored H view a \<Longrightarrow> read path (H (blob H a)) = Inr (blob H a)"
  using read_view[of "H (blob H a)" path] by (simp add: stored_def)

lemma read_decodes:
  assumes "hash_fun H" and "wf_anode a" and "small a" and "stored H view a"
  shows "\<exists>b. read path (H (blob H a)) = Inr b \<and> b \<noteq> [] \<and> decodeNodeUnsafe h b = Inr (dnode H h a)"
  using read_stored[OF assms(4)] decode_blob[OF assms(1-3)] by auto

end

end
