(* ===== verification/Props_Rlp.thy ===== *)
theory Props_Rlp
  imports Merkle
begin

section \<open>Properties of the encoders and decoders\<close>

text \<open>
  The properties of \<open>rlp/\<close>, of the key encodings and of the node codec, each with a
  concrete instance where it has hypotheses.  Their proofs are in the component theories.
\<close>

subsection \<open>RLP\<close>

text \<open>C15: \<open>Split\<close> accepts an input exactly when it starts with a canonical header and the
  whole content the header announces, and it returns that kind, that content and the rest;
  every other input is refused.\<close>

theorem Split_exact:
  assumes "length b < 2 ^ 64"
  shows "Split b = Inr (k, c, rest) \<longleftrightarrow> b = kind_head k (length c) @ c @ rest \<and> canonical k c"
  using assms by (rule Split_iff)

theorem Split_exact_witness:
  "Split [0x82, 0x64, 0x6F, 0x01] = Inr (String, [0x64, 0x6F], [0x01])"
  using Split_exact[of "[0x82, 0x64, 0x6F, 0x01]" String "[0x64, 0x6F]" "[0x01]"]
  by (simp add: kind_head_def canonical_def rlp_head_def)

text \<open>C22: What \<open>readKind\<close> accepts lies within the input: header and content together are
  not empty and not longer than the input, the header has at most nine bytes, and adding the
  two sizes does not wrap around.\<close>

theorem readKind_in_bounds:
  assumes "length buf < 2 ^ 64" and "readKind buf = Inr (k, ts, cs)"
  shows "unat ts + unat cs \<le> length buf \<and> 0 < unat ts + unat cs \<and> unat ts \<le> 9
    \<and> unat (ts + cs) = unat ts + unat cs"
  using assms by (rule readKind_bounds)

theorem readKind_in_bounds_witness:
  "readKind [0xC2, 0x01, 0x02] = Inr (List, 1, 2) \<and> unat (1 + 2 :: uint64) = 3"
proof -
  have r: "readKind [0xC2, 0x01, 0x02] = Inr (List, 1, 2)"
    by (simp add: readKind_def)
  show ?thesis using readKind_in_bounds[OF _ r] r by simp
qed

text \<open>\<open>SplitUint64\<close> is the exact inverse of \<open>AppendUint64\<close>: it reads a number back
  from what \<open>AppendUint64\<close> wrote in front of any rest, and accepts no other encoding of it.\<close>

theorem SplitUint64_AppendUint64:
  assumes "length b < 2 ^ 64"
  shows "SplitUint64 b = Inr (x, rest) \<longleftrightarrow> b = AppendUint64 [] x @ rest"
  using assms by (rule SplitUint64_iff)

theorem SplitUint64_AppendUint64_witness:
  "SplitUint64 [0x82, 0x04, 0x00, 0x07] = Inr (1024, [0x07])"
  using SplitUint64_AppendUint64[of "[0x82, 0x04, 0x00, 0x07]" 1024 "[0x07]"]
  by (simp add: AppendUint64_def)

text \<open>\<open>CountValues\<close> counts the items of a concatenation of encoded items.\<close>

theorem CountValues_counts:
  assumes "length (concat (map rlp_enc xs)) < 2 ^ 64"
  shows "CountValues (concat (map rlp_enc xs)) = Inr (length xs)"
  using assms by (rule CountValues_concat)

theorem CountValues_counts_witness: "CountValues [0x01, 0xC1, 0x02] = Inr 2"
  using CountValues_counts[of "[RStr [0x01], RList [RStr [0x02]]]"]
  by (simp add: rlp_str_def rlp_list_def rlp_head_def)

text \<open>The two encoders of an unsigned integer agree: \<open>writeUint64\<close> appends to the string
  data of a buffer what \<open>AppendUint64\<close> appends to a slice, which is the RLP string of the
  big-endian bytes of the number without leading zeros, and \<open>IntSize\<close> is its length.\<close>

theorem AppendUint64_writeUint64:
  "writeUint64 i w = w\<lparr>str := AppendUint64 (str w) i\<rparr> \<and>
   AppendUint64 b i = b @ rlp_str (be_bytes (unat i)) \<and> IntSize i = length (AppendUint64 [] i)"
  by (simp add: writeUint64_rlp_str AppendUint64_rlp_str IntSize_AppendUint64)

text \<open>\<open>ListSize\<close> of the size of a content is the size of the list with that content.\<close>

theorem ListSize_exact:
  assumes "length (rlp_list c) < 2 ^ 64"
  shows "unat (ListSize (of_nat (length c))) = length (rlp_list c)"
  using assms by (rule ListSize_rlp_list)

theorem ListSize_exact_witness: "unat (ListSize 2) = length (rlp_list [0x01, 0x02])"
  using ListSize_exact[of "[0x01, 0x02]"] by (simp add: rlp_list_def rlp_head_def)

text \<open>\<open>putint\<close> writes a number in big-endian order, in as many bytes as \<open>intsize\<close> says
  and at most eight, and the first byte is zero only for the number zero.\<close>

theorem putint_big_endian:
  "be_word (putint i) = i \<and> length (putint i) = intsize i \<and> intsize i \<le> 8 \<and>
   (hd (putint i) = 0 \<longleftrightarrow> i = 0)"
proof -
  have "unat (be_word (putint i)) = unat i"
    using unat_be_word[OF length_putint_le, of i] by simp
  then have "be_word (putint i) = i" by (simp add: word_unat_eq_iff)
  moreover have "hd (putint i) = 0 \<longleftrightarrow> i = 0"
    using hd_be_bytes[of "unat i"] by (cases "i = 0") (auto simp: putint_be_bytes unat_gt_0)
  ultimately show ?thesis using length_putint_le by (simp add: intsize_length_putint)
qed

subsection \<open>Keys and hashes\<close>

text \<open>C23: The compact encoding of a hex key, with or without terminator and of even or odd
  length, decodes back to the key.\<close>

theorem compact_roundtrip:
  assumes "hex_key hex"
  shows "compactToHex (hexToCompact hex) = hex"
  using assms by (rule compactToHex_hexToCompact)

theorem compact_roundtrip_witness:
  "compactToHex (hexToCompact [1, 2, 3, 16]) = [1, 2, 3, 16]"
  using compact_roundtrip[of "[1, 2, 3, 16]"] by (simp add: hex_key_def)

text \<open>\<open>prefixLen\<close> is the length of the longest common prefix: the two keys agree that
  far, and a longer common prefix does not exist.\<close>

theorem prefixLen_longest:
  "take (prefixLen a b) a = take (prefixLen a b) b \<and>
   (n \<le> prefixLen a b \<longleftrightarrow> n \<le> length a \<and> n \<le> length b \<and> take n a = take n b)"
proof -
  have "n \<le> length a \<and> n \<le> length b \<and> take n a = take n b \<Longrightarrow> n \<le> prefixLen a b"
    using prefixLen_same[of "take n a" "drop n a" "drop n b"]
    by (metis append_take_drop_id le_add1 length_take min.absorb2)
  moreover have "n \<le> prefixLen a b \<Longrightarrow> take n a = take n b"
    using prefixLen_take[of a b] by (metis min.absorb1 take_take)
  ultimately show ?thesis using prefixLen_take[of a b] prefixLen_le[of a b] by auto
qed

text \<open>\<open>BytesToHash\<close> keeps the last 32 bytes of a longer slice and fills a shorter one
  with zeros on the left.\<close>

theorem BytesToHash_window:
  "BytesToHash b = replicate (32 - length b) 0 @ drop (length b - 32) b \<and>
   length (BytesToHash b) = HashLength"
  by (cases "32 \<le> length b") (simp_all add: BytesToHash_crops BytesToHash_pads HashLength_def)

subsection \<open>The node codec\<close>

text \<open>C14: The node encoders, which write through the buffer with its deferred list headers,
  produce exactly the RLP encoding of the node; the sizes they reserve are exact, so that
  \<open>makeBytes\<close> neither panics nor leaves a byte unwritten.\<close>

theorem nodeToBytes_exact:
  assumes "n \<noteq> NilNode" and "length (node_bytes n) < 2 ^ 64"
  shows "nodeToBytes n = Inr (node_bytes n)"
  using assms by (rule nodeToBytes_node_bytes)

theorem nodeToBytes_exact_witness:
  "nodeToBytes (ShortNode [0x20] (ValueNode [0x64, 0x6F]) \<lparr>fl_hash = None, dirty = True\<rparr>) =
     Inr [0xC4, 0x20, 0x82, 0x64, 0x6F]"
  using nodeToBytes_exact[of "ShortNode [0x20] (ValueNode [0x64, 0x6F]) \<lparr>fl_hash = None, dirty = True\<rparr>"]
  by (simp add: rlp_str_def rlp_list_def rlp_head_def)

text \<open>C13: The decoder reads every stored node of a trie back: decoding the blob of a
  well-formed node gives that node, embedded children decoded in place, children referred to
  by hash as hash nodes, and the given hash in the flag.\<close>

theorem decode_stored_node:
  assumes "hash_fun H" and "wf_anode a" and "small a"
  shows "decodeNodeUnsafe h (blob H a) = Inr (dnode H h a)"
  using assms by (rule decode_blob)

theorem decode_stored_node_witness:
  "decodeNodeUnsafe None [0xC4, 0x20, 0x82, 0x64, 0x6F] =
     Inr (ShortNode [16] (ValueNode [0x64, 0x6F]) \<lparr>fl_hash = None, dirty = False\<rparr>)"
proof -
  let ?a = "AShort [16] (AVal [0x64, 0x6F])" and ?H = "\<lambda>_ :: bytes. replicate 32 (0 :: byte)"
  have w: "wf_anode ?a" by (simp add: wf_AShort hex_key_def)
  have s: "small ?a" by (auto simp: small_def split: if_splits)
  have b: "blob ?H ?a = [0xC4, 0x20, 0x82, 0x64, 0x6F]"
    by (simp add: blob_simps ref_of_cases hashed_def hexToCompact_def rlp_str_def rlp_list_def
        rlp_head_def Let_def)
  have "hash_fun ?H" by (simp add: hash_fun_def)
  from decode_stored_node[OF this w s, of None] show ?thesis
    by (simp add: b dnode_simps dref_def hashed_def)
qed

end
