(* ===== verification/Rlp_Big.thy ===== *)
theory Rlp_Big
  imports Rlp_Buffer
begin

section \<open>Big integers in the encoder buffer (rlp/encbuffer.go)\<close>

text \<open>
  \<open>writeBigInt\<close> encodes a \<open>big.Int\<close>, whose sign it ignores.  The absolute value is a natural
  number here; \<open>BitLen\<close> and \<open>Bits\<close> are the methods of \<open>math/big\<close>, the latter the 64-bit words
  of the number, the lowest first.
\<close>

fun BitLen :: "nat \<Rightarrow> nat" where
  "BitLen i = (if i = 0 then 0 else Suc (BitLen (i div 2)))"

fun Bits :: "nat \<Rightarrow> uint64 list" where
  "Bits i = (if i = 0 then [] else of_nat i # Bits (i div 2 ^ 64))"

declare BitLen.simps [simp del] Bits.simps [simp del]

definition wordBytes :: nat where
  "wordBytes = 8"

text \<open>
  The inner loop writes the bytes of a word in front of those written before; \<open>j\<close> is the
  number of rounds left, \<open>index\<close> the position in \<open>buf\<close> behind the next byte.
\<close>

fun putWord :: "nat \<Rightarrow> uint64 \<Rightarrow> nat \<times> bytes \<Rightarrow> nat \<times> bytes" where
  "putWord 0 d (index, buf) = (index, buf)"
| "putWord (Suc j) d (index, buf) =
    (if index > 0 then putWord j (drop_bit 8 d) (index - 1, buf[index - 1 := ucast d]) else (index, buf))"

definition writeBigInt :: "nat \<Rightarrow> encbuf \<Rightarrow> encbuf" where
  "writeBigInt i w =
    (let bitlen = BitLen i in
     if bitlen \<le> 64 then writeUint64 (of_nat i) w
     else
       let len = nat (drop_bit 3 (and (int bitlen + 7) (- 8)));
           w' = encodeStringHeader len w;
           (index, buf) = foldl (\<lambda>st d. putWord wordBytes d st) (len, replicate len 0) (Bits i)
       in w'\<lparr>str := str w' @ buf\<rparr>)"

definition writeString :: "bytes \<Rightarrow> encbuf \<Rightarrow> encbuf" where
  "writeString s w = writeBytes s w"

subsection \<open>The length\<close>

lemma BitLen_less: "BitLen i \<le> k \<longleftrightarrow> i < 2 ^ k"
proof (induction i arbitrary: k rule: BitLen.induct)
  case (1 i)
  show ?case
  proof (cases "i = 0 \<or> k = 0")
    case True
    then show ?thesis by (auto simp: BitLen.simps[of i])
  next
    case False
    then obtain m where "k = Suc m" by (cases k) auto
    then show ?thesis using 1[of m] False by (auto simp: BitLen.simps[of i] less_mult_imp_div_less)
  qed
qed

lemma length_be_bytes_iff: "length (be_bytes i) \<le> k \<longleftrightarrow> i < 256 ^ k"
  using length_be_bytes_le[of i k] length_be_bytes_ge[of k i] by (meson leD leI)

lemma big_length: "nat (drop_bit 3 (and (int b + 7) (- 8))) = (b + 7) div 8"
proof -
  have "drop_bit 3 (and (int b + 7) (- 8)) = and (drop_bit 3 (int b + 7)) (drop_bit 3 (- 8))"
    by (rule drop_bit_and)
  also have "drop_bit 3 (- 8 :: int) = - 1" by (simp add: drop_bit_eq_div)
  also have "drop_bit 3 (int b + 7) = int ((b + 7) div 8)" by (simp add: drop_bit_eq_div zdiv_int)
  finally show ?thesis by simp
qed

lemma length_be_bytes: "length (be_bytes i) = (BitLen i + 7) div 8"
proof -
  have "length (be_bytes i) \<le> k \<longleftrightarrow> (BitLen i + 7) div 8 \<le> k" for k
  proof -
    have "length (be_bytes i) \<le> k \<longleftrightarrow> BitLen i \<le> 8 * k"
      by (simp add: length_be_bytes_iff BitLen_less power_mult)
    also have "\<dots> \<longleftrightarrow> (BitLen i + 7) div 8 \<le> k" by presburger
    finally show ?thesis .
  qed
  then show ?thesis by (meson order.antisym order.refl)
qed

subsection \<open>The bytes\<close>

text \<open>\<open>le k n\<close> are the \<open>k\<close> lowest bytes of \<open>n\<close>, the lowest first.\<close>

fun le :: "nat \<Rightarrow> nat \<Rightarrow> bytes" where
  "le 0 n = []"
| "le (Suc k) n = of_nat n # le k (n div 256)"

lemma length_le [simp]: "length (le k n) = k"
  by (induction k n rule: le.induct) auto

lemma take_le: "take j (le k n) = le (min j k) n"
  by (induction k n arbitrary: j rule: le.induct) (auto simp: take_Cons split: nat.splits)

lemma le_add: "le (j + k) n = le j n @ le k (n div 256 ^ j)"
  by (induction j n rule: le.induct) (auto simp: div_mult2_eq)

lemma rev_le_be_bytes: "rev (le (length (be_bytes n)) n) = be_bytes n"
proof (induction n rule: be_bytes.induct)
  case (1 n)
  then show ?case by (cases "n = 0") (simp_all add: be_bytes_pos)
qed

lemma le_mod: "le k (n mod 256 ^ k) = le k n"
proof (induction k arbitrary: n)
  case (Suc k)
  have "n mod (256 * 256 ^ k) div 256 = n div 256 mod 256 ^ k"
    by (simp add: mod_mult2_eq)
  moreover have "(of_nat (n mod (256 * 256 ^ k)) :: byte) = of_nat n"
    by (simp add: byte_eq_iff_unat mod_mod_cancel)
  ultimately show ?case using Suc[of "n div 256"] by simp
qed simp

text \<open>The loop fills the buffer from \<open>index\<close> downwards with given bytes.\<close>

definition fill :: "bytes \<Rightarrow> nat \<times> bytes \<Rightarrow> nat \<times> bytes" where
  "fill bs st = (case st of (index, buf) \<Rightarrow>
     (index - length bs, take (index - length bs) buf @ rev (take index bs) @ drop index buf))"

lemma fill_Nil [simp]: "fill [] st = st"
  by (simp add: fill_def split: prod.split)

lemma fill_Cons:
  assumes "index \<le> length buf"
  shows "fill (b # bs) (index, buf) =
    (if index > 0 then fill bs (index - 1, buf[index - 1 := b]) else (index, buf))"
proof (cases index)
  case (Suc i)
  then have i: "i < length buf" using assms by simp
  then have "drop i (buf[i := b]) = b # drop (Suc i) buf"
    by (simp add: Cons_nth_drop_Suc[symmetric])
  then show ?thesis using Suc i by (simp add: fill_def min_def)
qed (use assms in \<open>simp add: fill_def\<close>)

lemma fill_append:
  assumes "snd st = buf" and "fst st \<le> length buf"
  shows "fill (bs @ cs) st = fill cs (fill bs st)"
  using assms
  by (cases st) (simp add: fill_def)

lemma fill_bounds: "fst st \<le> length (snd st) \<Longrightarrow>
    fst (fill bs st) \<le> length (snd (fill bs st)) \<and> length (snd (fill bs st)) = length (snd st)"
  by (cases st) (auto simp: fill_def min_def)

lemma putWord_fill: "index \<le> length buf \<Longrightarrow> putWord j d (index, buf) = fill (le j (unat d)) (index, buf)"
proof (induction j d "(index, buf)" arbitrary: index buf rule: putWord.induct)
  case (2 j d index buf)
  have "unat (drop_bit 8 d) = unat d div 256" by (simp add: drop_bit_eq_div unat_div)
  moreover have "(ucast d :: byte) = of_nat (unat d)" by (simp add: byte_eq_iff_unat unsigned_ucast_eq unsigned_take_bit_eq take_bit_eq_mod)
  ultimately show ?case using 2 by (simp add: fill_Cons)
qed simp

lemma putWords_fill:
  "fst st \<le> length (snd st) \<Longrightarrow> foldl (\<lambda>st d. putWord j d st) st ds = fill (concat (map (\<lambda>d. le j (unat d)) ds)) st"
proof (induction ds arbitrary: st)
  case (Cons d ds)
  have "putWord j d st = fill (le j (unat d)) st" using Cons.prems putWord_fill by (cases st) simp
  then show ?case
    using Cons fill_bounds[OF Cons.prems, of "le j (unat d)"] fill_append[OF refl Cons.prems] by simp
qed simp

lemma concat_Bits: "concat (map (\<lambda>d. le 8 (unat d)) (Bits i)) = le (8 * length (Bits i)) i"
proof (induction i rule: Bits.induct)
  case (1 i)
  show ?case
  proof (cases "i = 0")
    case False
    have "le 8 (unat (of_nat i :: uint64)) = le 8 i" using le_mod[of 8 i] by (simp add: unat_of_nat)
    moreover have "le (8 + 8 * length (Bits (i div 2 ^ 64))) i = le 8 i @ le (8 * length (Bits (i div 2 ^ 64))) (i div 256 ^ 8)"
      by (rule le_add)
    ultimately show ?thesis using 1 False by (simp add: Bits.simps[of i])
  qed (simp add: Bits.simps)
qed

lemma length_Bits: "length (be_bytes i) \<le> 8 * length (Bits i)"
proof -
  have "i < 256 ^ (8 * length (Bits i))"
  proof (induction i rule: Bits.induct)
    case (1 i)
    show ?case
    proof (cases "i = 0")
      case False
      then have "i div 2 ^ 64 < 256 ^ (8 * length (Bits (i div 2 ^ 64)))" using 1 by simp
      then show ?thesis using False
        by (simp add: Bits.simps[of i] power_add div_less_iff_less_mult mult.commute)
    qed simp
  qed
  then show ?thesis by (simp add: length_be_bytes_iff)
qed

lemma putWords_be_bytes:
  assumes "len = length (be_bytes i)"
  shows "foldl (\<lambda>st d. putWord wordBytes d st) (len, replicate len 0) (Bits i) = (0, be_bytes i)"
  using length_Bits[of i] assms rev_le_be_bytes[of i]
  by (simp add: putWords_fill wordBytes_def concat_Bits fill_def take_le min_def)

lemma emits_writeBigInt:
  assumes "length (be_bytes i) < 2 ^ 64"
  shows "emits (writeBigInt i) (rlp_str (be_bytes i))"
proof (cases "BitLen i \<le> 64")
  case True
  then have "unat (of_nat i :: uint64) = i" by (simp add: BitLen_less unat_of_nat)
  moreover have "writeBigInt i = writeUint64 (of_nat i)"
    using True by (simp add: writeBigInt_def fun_eq_iff)
  ultimately show ?thesis using emits_writeUint64[of "of_nat i"] by simp
next
  case False
  then have len: "8 < length (be_bytes i)" by (simp add: length_be_bytes)
  let ?len = "nat (drop_bit 3 (and (int (BitLen i) + 7) (- 8)))"
  have L: "?len = length (be_bytes i)" by (simp only: big_length length_be_bytes)
  have "emits (\<lambda>w. buf_Write (be_bytes i) (encodeStringHeader ?len w)) (rlp_head 0x80 0xB7 ?len @ be_bytes i)"
    using emits_encodeStringHeader[of ?len] emits_Write by (rule emits_seq) (use assms L in simp)
  moreover have "writeBigInt i = (\<lambda>w. buf_Write (be_bytes i) (encodeStringHeader ?len w))"
    using False putWords_be_bytes[OF L] by (simp add: writeBigInt_def buf_Write_def fun_eq_iff Let_def)
  moreover have "rlp_str (be_bytes i) = rlp_head 0x80 0xB7 ?len @ be_bytes i"
    unfolding rlp_str_def L using len by (intro if_not_P) simp
  ultimately show ?thesis by simp
qed

end
