(* ===== verification/Rlp_Output.thy ===== *)
theory Rlp_Output
  imports Rlp_Buffer
begin

section \<open>Writers and readers over the encoder buffer (rlp/encbuffer.go)\<close>

text \<open>
  \<open>writeTo\<close> hands the contents of a buffer to an \<open>io.Writer\<close> piece by piece, and \<open>encReader\<close>
  lets them be read through an \<open>io.Reader\<close>.  Neither makes a contiguous copy, so both merge
  string data and list headers on their own; the results here say that they deliver the same
  bytes as \<open>makeBytes\<close>.
\<close>

subsection \<open>Writing to an \<open>io.Writer\<close>\<close>

text \<open>
  A writer has a state of some type; \<open>Write\<close> returns how many bytes it took and an error or
  nil.  The outer option is for the panic of a slice expression.
\<close>

type_synonym ('s, 'e) io_write = "bytes \<Rightarrow> 's \<Rightarrow> (nat \<times> 'e option) \<times> 's"

fun writeTo_loop :: "('s, 'e) io_write \<Rightarrow> bytes \<Rightarrow> listhead list \<Rightarrow> nat \<Rightarrow> 's \<Rightarrow> ('e option \<times> 's) option" where
  "writeTo_loop wr s [] strpos st =
    (if strpos < length s then (case wr (drop strpos s) st of ((n, err), st') \<Rightarrow> Some (err, st'))
     else Some (None, st))"
| "writeTo_loop wr s (head # heads) strpos st =
    (let write_head = (\<lambda>strpos st. case wr (listhead_encode head) st of ((n, err), st') \<Rightarrow>
           (case err of Some e \<Rightarrow> Some (Some e, st') | None \<Rightarrow> writeTo_loop wr s heads strpos st'))
     in if strpos < offset head then
          (if offset head \<le> length s then
             (case wr (subslice strpos (offset head) s) st of ((n, err), st') \<Rightarrow>
               (case err of Some e \<Rightarrow> Some (Some e, st') | None \<Rightarrow> write_head (strpos + n) st'))
           else None)
        else write_head strpos st)"

definition writeTo :: "('s, 'e) io_write \<Rightarrow> encbuf \<Rightarrow> 's \<Rightarrow> ('e option \<times> 's) option" where
  "writeTo wr buf st = writeTo_loop wr (str buf) (lheads buf) 0 st"

text \<open>
  The contract of \<open>io.Writer\<close>: what a writer has taken is at the end of its output, and a
  writer that takes less than all reports an error.
\<close>

locale io_writer =
  fixes wr :: "('s, 'e) io_write" and written :: "'s \<Rightarrow> bytes"
  assumes takes: "wr b st = ((n, err), st') \<Longrightarrow> n \<le> length b \<and> written st' = written st @ take n b"
    and takes_all: "wr b st = ((n, None), st') \<Longrightarrow> n = length b"
begin

lemma wrote_all: "wr b st = ((n, None), st') \<Longrightarrow> n = length b \<and> written st' = written st @ b"
  using takes takes_all by fastforce

text \<open>Without an error the whole output has arrived, with one a prefix of it.\<close>

definition delivers :: "bytes \<Rightarrow> 's \<Rightarrow> ('e option \<times> 's) option \<Rightarrow> bool" where
  "delivers b st r \<longleftrightarrow> (\<exists>err st' n. r = Some (err, st') \<and> written st' = written st @ take n b \<and>
     (err = None \<longrightarrow> length b \<le> n))"

lemma delivers_wr:
  assumes "\<And>n st'. wr b st = ((n, None), st') \<Longrightarrow> delivers c st' (k n st')"
  shows "delivers (b @ c) st (case wr b st of ((n, err), st') \<Rightarrow>
    (case err of Some e \<Rightarrow> Some (Some e, st') | None \<Rightarrow> k n st'))"
proof -
  obtain n err st' where w: "wr b st = ((n, err), st')" by (cases "wr b st") auto
  show ?thesis
  proof (cases err)
    case (Some e)
    have "take n (b @ c) = take n b" using takes[OF w] by simp
    then show ?thesis using w Some takes[OF w] unfolding delivers_def by (auto intro!: exI[of _ n])
  next
    case None
    with assms w obtain err' t m where "k n st' = Some (err', t)" "written t = written st' @ take m c"
      "err' = None \<longrightarrow> length c \<le> m" unfolding delivers_def by blast
    then show ?thesis
      using w None wrote_all unfolding delivers_def by (fastforce intro!: exI[of _ "length b + m"])
  qed
qed

lemma writeTo_loop_delivers:
  "heads_ok s hs p \<Longrightarrow> delivers (render s hs p) st (writeTo_loop wr s hs p st)"
proof (induction hs arbitrary: p st)
  case Nil
  have "delivers [] st' (Some (None, st'))" for st' by (simp add: delivers_def)
  from delivers_wr[of "drop p s" st "[]" "\<lambda>n st'. Some (None, st')", OF this]
  have "delivers (drop p s) st (case wr (drop p s) st of ((n, err), st') \<Rightarrow> Some (err, st'))"
    by (simp add: option.case_distrib[symmetric] split: prod.splits option.splits)
  moreover have "delivers [] st (Some (None, st))" by (simp add: delivers_def)
  ultimately show ?case using Nil by auto
next
  case (Cons h hs)
  then have h: "p \<le> offset h" "offset h \<le> length s" and ok: "heads_ok s hs (offset h)"
    by (auto dest: heads_ok_le)
  have head: "delivers (listhead_encode h @ render s hs (offset h)) st (case wr (listhead_encode h) st of ((n, err), st') \<Rightarrow>
           (case err of Some e \<Rightarrow> Some (Some e, st') | None \<Rightarrow> writeTo_loop wr s hs (offset h) st'))" for st
    by (rule delivers_wr) (rule Cons.IH[OF ok])
  show ?case
  proof (cases "p < offset h")
    case True
    have "delivers (subslice p (offset h) s @ listhead_encode h @ render s hs (offset h)) st
      (case wr (subslice p (offset h) s) st of ((n, err), st') \<Rightarrow>
        (case err of Some e \<Rightarrow> Some (Some e, st') | None \<Rightarrow>
          (case wr (listhead_encode h) st' of ((n', err), st') \<Rightarrow>
           (case err of Some e \<Rightarrow> Some (Some e, st') | None \<Rightarrow> writeTo_loop wr s hs (p + n) st'))))"
    proof (rule delivers_wr)
      fix n st' assume "wr (subslice p (offset h) s) st = ((n, None), st')"
      then have n: "p + n = offset h" using wrote_all h by fastforce
      show "delivers (listhead_encode h @ render s hs (offset h)) st'
          (case wr (listhead_encode h) st' of ((n', err), st') \<Rightarrow>
           (case err of Some e \<Rightarrow> Some (Some e, st') | None \<Rightarrow> writeTo_loop wr s hs (p + n) st'))"
        unfolding n by (rule head)
    qed
    then show ?thesis using True h(2) by (simp add: Let_def)
  next
    case False
    then have "p = offset h" "subslice p (offset h) s = []" using h by (auto simp: subslice_def)
    then show ?thesis using head[of st] by (simp add: Let_def)
  qed
qed

lemma writeTo_delivers: "emits f out \<Longrightarrow> delivers out st (writeTo wr (f empty_buf) st)"
  using writeTo_loop_delivers by (auto simp: emits_def writeTo_def empty_buf_def)

end

text \<open>An encoder buffer is a writer itself: its \<open>Write\<close> takes everything.\<close>

definition encbuf_Write :: "(encbuf, unit) io_write" where
  "encbuf_Write b buf = ((length b, None), buf_Write b buf)"

interpretation encbuf_io: io_writer encbuf_Write str
  by unfold_locales (auto simp: encbuf_Write_def buf_Write_def)

subsection \<open>Reading through an \<open>io.Reader\<close>\<close>

record encReader =
  er_buf :: "encbuf option"
  er_lhpos :: nat
  er_strpos :: nat
  er_piece :: "bytes option"

text \<open>\<open>next\<close> returns the next piece, or nil at the end; the outer option is for a panic.\<close>

definition encReader_next :: "encReader \<Rightarrow> (bytes option \<times> encReader) option" where
  "encReader_next r = (case er_buf r of None \<Rightarrow> Some (None, r)
     | Some buf \<Rightarrow> (case er_piece r of Some p \<Rightarrow> Some (Some p, r)
       | None \<Rightarrow>
           if er_lhpos r < length (lheads buf) then
             (let head = lheads buf ! er_lhpos r in
              if er_strpos r < offset head then
                (if offset head \<le> length (str buf)
                 then Some (Some (subslice (er_strpos r) (offset head) (str buf)), r\<lparr>er_strpos := offset head\<rparr>)
                 else None)
              else Some (Some (listhead_encode head), r\<lparr>er_lhpos := er_lhpos r + 1\<rparr>))
           else if er_strpos r < length (str buf) then
             Some (Some (drop (er_strpos r) (str buf)), r\<lparr>er_strpos := length (str buf)\<rparr>)
           else Some (None, r)))"

text \<open>An upper bound for the number of pieces that are left.\<close>

definition pieces_left :: "encReader \<Rightarrow> nat" where
  "pieces_left r = (case er_buf r of None \<Rightarrow> 0 | Some buf \<Rightarrow>
     (length (lheads buf) - er_lhpos r) + (length (str buf) - er_strpos r) +
     (case er_piece r of None \<Rightarrow> 0 | Some p \<Rightarrow> 1))"

lemma encReader_next_decreases:
  "encReader_next r = Some (Some p, r') \<Longrightarrow> pieces_left (r'\<lparr>er_piece := None\<rparr>) < pieces_left r"
  by (auto simp: encReader_next_def pieces_left_def Let_def split: option.splits if_splits)

text \<open>
  The loop of \<open>Read\<close>, for a buffer of length \<open>cap\<close> of which \<open>acc\<close> is filled.  The result is
  the data read, whether \<open>io.EOF\<close> is returned, and the reader.
\<close>

function encReader_Read_loop :: "nat \<Rightarrow> bytes \<Rightarrow> encReader \<Rightarrow> (bytes \<times> bool \<times> encReader) option" where
  "encReader_Read_loop cap acc r = (case encReader_next r of None \<Rightarrow> None
     | Some (None, r') \<Rightarrow> Some (acc, True, r'\<lparr>er_piece := None, er_buf := None\<rparr>)
     | Some (Some p, r') \<Rightarrow>
         (let nn = min (cap - length acc) (length p); acc' = acc @ take nn p in
          if nn < length p then Some (acc', False, r'\<lparr>er_piece := Some (drop nn p)\<rparr>)
          else encReader_Read_loop cap acc' (r'\<lparr>er_piece := None\<rparr>)))"
  by pat_completeness auto
termination
  by (relation "measure (\<lambda>(cap, acc, r). pieces_left r)") (auto dest: encReader_next_decreases)

declare encReader_Read_loop.simps [simp del]

definition encReader_Read :: "nat \<Rightarrow> encReader \<Rightarrow> (bytes \<times> bool \<times> encReader) option" where
  "encReader_Read cap r = encReader_Read_loop cap [] r"

definition new_encReader :: "encbuf \<Rightarrow> encReader" where
  "new_encReader buf = \<lparr>er_buf = Some buf, er_lhpos = 0, er_strpos = 0, er_piece = None\<rparr>"

text \<open>What a reader has still to deliver.\<close>

definition unread :: "encReader \<Rightarrow> bytes" where
  "unread r = (case er_buf r of None \<Rightarrow> [] | Some buf \<Rightarrow>
     (case er_piece r of None \<Rightarrow> [] | Some p \<Rightarrow> p) @
     render (str buf) (drop (er_lhpos r) (lheads buf)) (er_strpos r))"

definition reader_ok :: "encReader \<Rightarrow> bool" where
  "reader_ok r \<longleftrightarrow> (case er_buf r of None \<Rightarrow> True | Some buf \<Rightarrow>
     heads_ok (str buf) (drop (er_lhpos r) (lheads buf)) (er_strpos r))"

lemma encReader_next_unread:
  assumes "reader_ok r"
  shows "(\<exists>p r'. encReader_next r = Some (Some p, r') \<and> er_buf r' \<noteq> None \<and> reader_ok r' \<and>
      unread r = p @ unread (r'\<lparr>er_piece := None\<rparr>)) \<or>
    encReader_next r = Some (None, r) \<and> unread r = []"
proof (cases "er_buf r")
  case None
  then show ?thesis by (simp add: encReader_next_def unread_def)
next
  case (Some buf)
  let ?hs = "drop (er_lhpos r) (lheads buf)"
  have ok: "heads_ok (str buf) ?hs (er_strpos r)" using assms Some by (simp add: reader_ok_def)
  show ?thesis
  proof (cases "er_piece r")
    case p: (Some p)
    then show ?thesis using Some assms by (simp add: encReader_next_def unread_def)
  next
    case None
    show ?thesis
    proof (cases "er_lhpos r < length (lheads buf)")
      case True
      then have hs: "?hs = lheads buf ! er_lhpos r # drop (Suc (er_lhpos r)) (lheads buf)"
        by (simp add: Cons_nth_drop_Suc)
      then have "offset (lheads buf ! er_lhpos r) \<le> length (str buf)"
        using ok by (auto dest: heads_ok_le)
      then show ?thesis
        using ok Some None True hs
        by (auto simp: encReader_next_def unread_def reader_ok_def Let_def subslice_def)
    next
      case False
      then show ?thesis using ok Some None by (auto simp: encReader_next_def unread_def reader_ok_def)
    qed
  qed
qed

lemma encReader_Read_loop_unread:
  assumes "reader_ok r" and "length acc \<le> cap"
  shows "\<exists>r'. encReader_Read_loop cap acc r = Some (acc @ take (cap - length acc) (unread r),
      length acc + length (unread r) \<le> cap, r') \<and>
    reader_ok r' \<and> unread r' = drop (cap - length acc) (unread r)"
  using assms
proof (induction cap acc r rule: encReader_Read_loop.induct)
  case (1 cap acc r)
  from encReader_next_unread[OF 1(2)] show ?case
  proof (elim disjE exE conjE)
    fix p r' assume nx: "encReader_next r = Some (Some p, r')" "er_buf r' \<noteq> None" "reader_ok r'"
      and u: "unread r = p @ unread (r'\<lparr>er_piece := None\<rparr>)"
    let ?nn = "min (cap - length acc) (length p)" and ?r = "r'\<lparr>er_piece := None\<rparr>"
    show ?thesis
    proof (cases "?nn < length p")
      case True
      then have "unread (r'\<lparr>er_piece := Some (drop ?nn p)\<rparr>) = drop ?nn p @ unread ?r"
        using nx(2) by (auto simp: unread_def)
      then show ?thesis
        using True nx u by (auto simp: encReader_Read_loop.simps[of cap acc r] Let_def reader_ok_def)
    next
      case False
      have "reader_ok ?r" using nx(3) by (auto simp: reader_ok_def split: option.splits)
      from 1(1)[OF nx(1) refl refl refl refl False this] 1(3) False show ?thesis
        using nx(1) u by (auto simp: min_def add.assoc split: if_splits simp: encReader_Read_loop.simps[of cap acc r] Let_def)
    qed
  next
    assume nx: "encReader_next r = Some (None, r)" and u: "unread r = []"
    then show ?thesis
      using 1(3) by (auto simp: encReader_Read_loop.simps[of cap acc r] reader_ok_def unread_def)
  qed
qed

lemma encReader_Read_unread:
  assumes "reader_ok r"
  shows "\<exists>r'. encReader_Read cap r = Some (take cap (unread r), length (unread r) \<le> cap, r') \<and>
    reader_ok r' \<and> unread r' = drop cap (unread r)"
  using encReader_Read_loop_unread[OF assms, of "[]" cap] by (simp add: encReader_Read_def)

lemma new_encReader_unread: "emits f out \<Longrightarrow>
    reader_ok (new_encReader (f empty_buf)) \<and> unread (new_encReader (f empty_buf)) = out"
  by (auto simp: emits_def empty_buf_def new_encReader_def reader_ok_def unread_def)

end
