(* ===== verification/Rlp_Stream.thy ===== *)
theory Rlp_Stream
  imports Rlp_Raw
begin

section \<open>The decoding stream (rlp/decode.go)\<close>

text \<open>
  \<open>Stream\<close> reads RLP values piecemeal from a reader.  The reader is modelled by the bytes it
  has still to deliver; it delivers them all and then reports the end of the input, as a
  \<open>bytes.Reader\<close> does.  The stack of list limits is a list with the innermost list first.
  \<open>kind\<close>, which is -1 when no value is ahead, is an option.  The auxiliary buffer \<open>uintbuf\<close>
  carries no data from one call to the next and is local here.  A run-time panic (a slice
  of impossible length) is the error \<open>StreamPanic\<close>; running out of memory is not modelled.

  An operation is a function from the stream to an error or a result, and the stream after
  it: the stream changes also when an operation fails.
\<close>

record Stream =
  s_input :: bytes
  s_remaining :: uint64
  s_size :: uint64
  s_kinderr :: "rlp_error option"
  s_stack :: "uint64 list"
  s_kind :: "kind option"
  s_byteval :: byte
  s_limited :: bool

type_synonym ('e, 'a) stream_m = "Stream \<Rightarrow> ('e + 'a) \<times> Stream"

definition sm_ret :: "'a \<Rightarrow> ('e, 'a) stream_m" where
  "sm_ret x = (\<lambda>s. (Inr x, s))"

definition sm_err :: "'e \<Rightarrow> ('e, 'a) stream_m" where
  "sm_err e = (\<lambda>s. (Inl e, s))"

definition sm_bind :: "('e, 'a) stream_m \<Rightarrow> ('a \<Rightarrow> ('e, 'b) stream_m) \<Rightarrow> ('e, 'b) stream_m" where
  "sm_bind m f = (\<lambda>s. case m s of (Inl e, s') \<Rightarrow> (Inl e, s') | (Inr x, s') \<Rightarrow> f x s')"

definition sm_wrap :: "('e \<Rightarrow> 'f) \<Rightarrow> ('e, 'a) stream_m \<Rightarrow> ('f, 'a) stream_m" where
  "sm_wrap g m = (\<lambda>s. case m s of (Inl e, s') \<Rightarrow> (Inl (g e), s') | (Inr x, s') \<Rightarrow> (Inr x, s'))"

subsection \<open>Reading from the input\<close>

definition rearm :: "Stream \<Rightarrow> Stream" where
  "rearm s = s\<lparr>s_kind := None\<rparr>"

text \<open>\<open>listLimit\<close>: the rest of the innermost list, or \<open>None\<close> outside of any list.\<close>

definition listLimit :: "Stream \<Rightarrow> uint64 option" where
  "listLimit s = (case s_stack s of [] \<Rightarrow> None | l # _ \<Rightarrow> Some l)"

definition set_limit :: "uint64 \<Rightarrow> Stream \<Rightarrow> Stream" where
  "set_limit l s = s\<lparr>s_stack := l # tl (s_stack s)\<rparr>"

definition willRead :: "uint64 \<Rightarrow> (rlp_error, unit) stream_m" where
  "willRead n s =
    (let s = rearm s;
         within_input = (\<lambda>s. if s_limited s
            then if n > s_remaining s then (Inl ErrValueTooLarge, s)
                 else (Inr (), s\<lparr>s_remaining := s_remaining s - n\<rparr>)
            else (Inr (), s))
     in case listLimit s of
          None \<Rightarrow> within_input s
        | Some limit \<Rightarrow>
            if n > limit then (Inl ErrElemTooLarge, s)
            else within_input (set_limit (limit - n) s))"

definition readByte :: "(rlp_error, byte) stream_m" where
  "readByte = sm_bind (willRead 1) (\<lambda>_ s. case s_input s of
      [] \<Rightarrow> (Inl ErrUnexpectedEOF, s)
    | b # r \<Rightarrow> (Inr b, s\<lparr>s_input := r\<rparr>))"

text \<open>\<open>readFull n\<close> fills a buffer of \<open>n\<close> bytes and returns it.\<close>

definition readFull :: "nat \<Rightarrow> (rlp_error, bytes) stream_m" where
  "readFull n = sm_bind (willRead (of_nat n)) (\<lambda>_ s.
     if n \<le> length (s_input s)
     then (Inr (take n (s_input s)), s\<lparr>s_input := drop n (s_input s)\<rparr>)
     else (Inl ErrUnexpectedEOF, s\<lparr>s_input := []\<rparr>))"

text \<open>\<open>make([]byte, n)\<close> panics when \<open>n\<close> is not a non-negative \<open>int\<close>.\<close>

definition readNew :: "uint64 \<Rightarrow> (rlp_error, bytes) stream_m" where
  "readNew n = (if n < 2 ^ 63 then readFull (unat n) else sm_err StreamPanic)"

text \<open>
  \<open>readUint\<close>, for a size and for an integer.  The bytes land at the end of a buffer of
  eight zero bytes.
\<close>

definition readUint :: "byte \<Rightarrow> (rlp_error, uint64) stream_m" where
  "readUint sz =
    (if sz = 0 then (\<lambda>s. (Inr 0, rearm s))
     else if sz = 1 then sm_bind readByte (\<lambda>b. sm_ret (ucast b))
     else let start = unat (8 - sz) in
       if start > 8 then sm_err StreamPanic
       else sm_bind (readFull (8 - start)) (\<lambda>d.
         let buffer = replicate start 0 @ d in
         if buffer ! start = 0 then sm_err ErrCanonSize else sm_ret (be_word buffer)))"

subsection \<open>The kind of the next value\<close>

text \<open>
  \<open>readKind\<close> of a stream returns a kind and a size also beside an error, and \<open>Kind\<close> stores
  all three.
\<close>

definition readHeadSize :: "kind \<Rightarrow> byte \<Rightarrow> Stream \<Rightarrow> (kind \<times> uint64 \<times> rlp_error option) \<times> Stream" where
  "readHeadSize k sizesize s =
    (case readUint sizesize s of
       (Inl e, s') \<Rightarrow> ((k, 0, Some e), s')
     | (Inr sz, s') \<Rightarrow> ((k, sz, if sz < 56 then Some ErrCanonSize else None), s'))"

definition stream_readKind :: "Stream \<Rightarrow> (kind \<times> uint64 \<times> rlp_error option) \<times> Stream" where
  "stream_readKind s =
    (case readByte s of
       (Inl e, s') \<Rightarrow>
         ((Byte, 0, Some (if s_stack s' = [] \<and> (e = ErrUnexpectedEOF \<or> e = ErrValueTooLarge)
                          then EOF else e)), s')
     | (Inr b, s1) \<Rightarrow>
         let s' = s1\<lparr>s_byteval := 0\<rparr> in
         if b < 0x80 then ((Byte, 0, None), s'\<lparr>s_byteval := b\<rparr>)
         else if b < 0xB8 then ((String, ucast (b - 0x80), None), s')
         else if b < 0xC0 then readHeadSize String (b - 0xB7) s'
         else if b < 0xF8 then ((List, ucast (b - 0xC0), None), s')
         else readHeadSize List (b - 0xF7) s')"

text \<open>
  \<open>Kind\<close> compares the size of the value ahead with the limit that was in force before the
  header was read.
\<close>

definition Kind :: "(rlp_error, kind \<times> uint64) stream_m" where
  "Kind s =
    (case s_kind s of
       Some k \<Rightarrow> (case s_kinderr s of None \<Rightarrow> Inr (k, s_size s) | Some e \<Rightarrow> Inl e, s)
     | None \<Rightarrow>
         if listLimit s = Some 0 then (Inl EOL, s)
         else (case stream_readKind s of ((k, sz, err), s1) \<Rightarrow>
           let err' = (case err of Some e \<Rightarrow> Some e
                | None \<Rightarrow>
                    if (case listLimit s of Some limit \<Rightarrow> sz > limit | None \<Rightarrow> False)
                    then Some ErrElemTooLarge
                    else if s_limited s1 \<and> sz > s_remaining s1 then Some ErrValueTooLarge
                    else None)
           in (case err' of None \<Rightarrow> Inr (k, sz) | Some e \<Rightarrow> Inl e,
               s1\<lparr>s_kind := Some k, s_size := sz, s_kinderr := err'\<rparr>)))"

subsection \<open>Reading values\<close>

text \<open>A value that is a single byte is in the header: \<open>takeByte\<close> returns it and rearms.\<close>

definition takeByte :: "('e, byte) stream_m" where
  "takeByte s = (Inr (s_byteval s), rearm s)"

definition Bytes :: "(rlp_error, bytes) stream_m" where
  "Bytes = sm_bind Kind (\<lambda>(k, sz). case k of
      Byte \<Rightarrow> sm_bind takeByte (\<lambda>b. sm_ret [b])
    | String \<Rightarrow> sm_bind (readNew sz) (\<lambda>b.
        if sz = 1 \<and> b ! 0 < 128 then sm_err ErrCanonSize else sm_ret b)
    | List \<Rightarrow> sm_err ErrExpectedString)"

text \<open>\<open>ReadBytes\<close> fills a buffer of length \<open>n\<close>, which the model returns.\<close>

definition ReadBytes :: "nat \<Rightarrow> (rlp_error, bytes) stream_m" where
  "ReadBytes n = sm_bind Kind (\<lambda>(k, sz). case k of
      Byte \<Rightarrow> if n \<noteq> 1 then sm_err (ErrWrongSize 1 n) else sm_bind takeByte (\<lambda>b. sm_ret [b])
    | String \<Rightarrow> if of_nat n \<noteq> sz then sm_err (ErrWrongSize sz n)
        else sm_bind (readFull n) (\<lambda>b.
          if sz = 1 \<and> b ! 0 < 128 then sm_err ErrCanonSize else sm_ret b)
    | List \<Rightarrow> sm_err ErrExpectedString)"

text \<open>
  \<open>Raw\<close> allocates room for a header and the content, in 64-bit arithmetic; when that wraps
  around, the slice expression behind the header panics.
\<close>

definition Raw :: "(rlp_error, bytes) stream_m" where
  "Raw = sm_bind Kind (\<lambda>(k, sz).
     if k = Byte then sm_bind takeByte (\<lambda>b. sm_ret [b])
     else
       let start = headsize sz; total = of_nat start + sz in
       if total \<ge> 2 ^ 63 \<or> total < of_nat start then sm_err StreamPanic
       else sm_bind (readFull (unat total - start)) (\<lambda>content.
         sm_ret ((if k = String then puthead 0x80 0xB7 sz else puthead 0xC0 0xF7 sz) @ content)))"

definition stream_uint :: "nat \<Rightarrow> (rlp_error, uint64) stream_m" where
  "stream_uint maxbits = sm_bind Kind (\<lambda>(k, sz). case k of
      Byte \<Rightarrow> (\<lambda>s. if s_byteval s = 0 then (Inl ErrCanonInt, s)
                 else sm_bind takeByte (\<lambda>b. sm_ret (ucast b)) s)
    | String \<Rightarrow>
        if sz > of_nat (maxbits div 8) then sm_err ErrUintOverflow
        else sm_bind
          (sm_wrap (\<lambda>e. if e = ErrCanonSize then ErrCanonInt else e) (readUint (ucast sz)))
          (\<lambda>v. if sz > 0 \<and> v < 128 then sm_err ErrCanonSize else sm_ret v)
    | List \<Rightarrow> sm_err ErrExpectedString)"

definition Uint64 :: "(rlp_error, uint64) stream_m" where
  "Uint64 = stream_uint 64"

definition Uint32 :: "(rlp_error, uint32) stream_m" where
  "Uint32 = sm_bind (stream_uint 32) (\<lambda>i. sm_ret (ucast i))"

definition Uint16 :: "(rlp_error, uint16) stream_m" where
  "Uint16 = sm_bind (stream_uint 16) (\<lambda>i. sm_ret (ucast i))"

definition Uint8 :: "(rlp_error, byte) stream_m" where
  "Uint8 = sm_bind (stream_uint 8) (\<lambda>i. sm_ret (ucast i))"

definition Bool :: "(rlp_error, bool) stream_m" where
  "Bool = sm_bind (stream_uint 8) (\<lambda>num.
     if num = 0 then sm_ret False
     else if num = 1 then sm_ret True
     else sm_err (ErrInvalidBool num))"

text \<open>
  \<open>decodeBigInt\<close>: the value is the big-endian number in the buffer.  The code reads a short
  integer into \<open>uintbuf\<close> and a long one into a new slice.
\<close>

definition stream_decodeBigInt :: "(rlp_error, nat) stream_m" where
  "stream_decodeBigInt = sm_bind
     (sm_bind Kind (\<lambda>(k, sz).
       if k = List then sm_err ErrExpectedString
       else if k = Byte then sm_bind takeByte (\<lambda>b. sm_ret [b])
       else if sz = 0 then (\<lambda>s. (Inr [], rearm s))
       else if sz \<le> 32 then sm_bind (readFull (unat sz)) (\<lambda>b.
         if sz = 1 \<and> b ! 0 < 128 then sm_err ErrCanonSize else sm_ret b)
       else readNew sz))
     (\<lambda>buffer. if length buffer > 0 \<and> buffer ! 0 = 0 then sm_err ErrCanonInt
       else sm_ret (be_val buffer))"

subsection \<open>Lists\<close>

definition Stream_List :: "(rlp_error, uint64) stream_m" where
  "Stream_List = sm_bind Kind (\<lambda>(k, sz) s.
     if k \<noteq> List then (Inl ErrExpectedList, s)
     else
       let s1 = (case listLimit s of None \<Rightarrow> s | Some limit \<Rightarrow> set_limit (limit - sz) s)
       in (Inr sz, s1\<lparr>s_stack := sz # s_stack s1, s_kind := None, s_size := 0\<rparr>))"

definition ListEnd :: "(rlp_error, unit) stream_m" where
  "ListEnd s =
    (case listLimit s of
       None \<Rightarrow> (Inl ErrNotInList, s)
     | Some limit \<Rightarrow>
         if limit > 0 then (Inl ErrNotAtEOL, s)
         else (Inr (), s\<lparr>s_stack := tl (s_stack s), s_kind := None, s_size := 0\<rparr>))"

definition MoreDataInList :: "Stream \<Rightarrow> bool" where
  "MoreDataInList s = (case listLimit s of None \<Rightarrow> False | Some limit \<Rightarrow> limit > 0)"

subsection \<open>Opening a stream\<close>

text \<open>
  \<open>Reset\<close> without a limit discovers the limit of the readers that know their length
  (\<open>bytes.Reader\<close>, \<open>bytes.Buffer\<close>, \<open>strings.Reader\<close>); the argument \<open>sized\<close> says whether the
  reader is one of them.
\<close>

definition Stream_Reset :: "bytes \<Rightarrow> bool \<Rightarrow> uint64 \<Rightarrow> Stream \<Rightarrow> Stream" where
  "Stream_Reset data sized inputLimit s =
    (let s1 = (if inputLimit > 0 then s\<lparr>s_remaining := inputLimit, s_limited := True\<rparr>
               else if sized then s\<lparr>s_remaining := of_nat (length data), s_limited := True\<rparr>
               else s\<lparr>s_limited := False\<rparr>)
     in s1\<lparr>s_input := data, s_stack := [], s_size := 0, s_kind := None, s_kinderr := None,
           s_byteval := 0\<rparr>)"

definition zero_stream :: Stream where
  "zero_stream = \<lparr>s_input = [], s_remaining = 0, s_size = 0, s_kinderr = None, s_stack = [],
     s_kind = Some Byte, s_byteval = 0, s_limited = False\<rparr>"

definition NewStream :: "bytes \<Rightarrow> bool \<Rightarrow> uint64 \<Rightarrow> Stream" where
  "NewStream data sized inputLimit = Stream_Reset data sized inputLimit zero_stream"

definition NewListStream :: "bytes \<Rightarrow> bool \<Rightarrow> uint64 \<Rightarrow> Stream" where
  "NewListStream data sized len =
    (NewStream data sized len)\<lparr>s_kind := Some List, s_size := len\<rparr>"

end
