(* ===== verification/Rlp_Types.thy ===== *)
theory Rlp_Types
  imports Rlp_Stream
begin

section \<open>Go types and values (rlp/typecache.go, rlp/internal/rlpstruct/rlpstruct.go)\<close>

text \<open>
  The encoder and the decoder work on Go types at run time.  \<open>gotype\<close> is the universe of the
  types they distinguish, and \<open>govalue\<close> holds their values.  Types that refer to
  themselves, and types with \<open>EncodeRLP\<close> or \<open>DecodeRLP\<close> methods of their own, are outside of the
  universe; so the cache of \<open>typecache.go\<close> only saves work, and \<open>infoWhileGenerating\<close> is a call
  of \<open>makeDecoder\<close> or \<open>makeWriter\<close>.  \<open>TOther\<close> stands for the types that have no RLP form.

  A struct field has its name, whether it is exported, its type, and the value of its
  \<open>rlp\<close> tag.
\<close>

datatype gotype =
    TBool
  | TUint nat
  | TString
  | TBigInt
  | TBigPtr
  | TRawValue
  | TSlice gotype
  | TArray nat gotype
  | TPtr gotype
  | TStruct "gofield list"
  | TInterface bool
  | TOther
and gofield = Field (f_name: string) (f_exported: bool) (f_type: gotype) (f_tag: string)

text \<open>
  The argument of \<open>TInterface\<close> says whether the interface has no methods.  A nil slice, a nil
  pointer and a nil interface are \<open>None\<close>.  Slices and arrays of bytes hold bytes.
\<close>

datatype govalue =
    VBool bool
  | VUint uint64
  | VString bytes
  | VBigInt int
  | VBigPtr "int option"
  | VBytes "bytes option"
  | VByteArray bytes
  | VSlice "govalue list option"
  | VArray "govalue list"
  | VPtr "govalue option"
  | VStruct "govalue list"
  | VInterface "(gotype \<times> govalue) option"

text \<open>\<open>isByte\<close> and \<open>isByteArray\<close>: byte slices and byte arrays are strings in RLP.\<close>

definition isByte :: "gotype \<Rightarrow> bool" where
  "isByte t \<longleftrightarrow> t = TUint 8"

fun isByteArray :: "gotype \<Rightarrow> bool" where
  "isByteArray TRawValue = True"
| "isByteArray (TSlice t) = isByte t"
| "isByteArray (TArray n t) = isByte t"
| "isByteArray t = False"

fun DefaultNilValue :: "gotype \<Rightarrow> kind" where
  "DefaultNilValue t = (case t of TUint b \<Rightarrow> String | TString \<Rightarrow> String | TBool \<Rightarrow> String
     | _ \<Rightarrow> if isByteArray t then String else List)"

fun isPtr :: "gotype \<Rightarrow> bool" where
  "isPtr (TPtr t) = True"
| "isPtr TBigPtr = True"
| "isPtr t = False"

fun isSlice :: "gotype \<Rightarrow> bool" where
  "isSlice (TSlice t) = True"
| "isSlice TRawValue = True"
| "isSlice t = False"

fun pointed_type :: "gotype \<Rightarrow> gotype" where
  "pointed_type (TPtr t) = t"
| "pointed_type TBigPtr = TBigInt"
| "pointed_type t = TOther"

lemma size_f_type [termination_simp]: "f \<in> set fs \<Longrightarrow> size (f_type f) < Suc (size_list size fs)"
proof -
  assume "f \<in> set fs"
  moreover have "size (f_type f) \<le> size f" by (cases f) simp
  ultimately show ?thesis using size_list_estimation'[of f fs "size (f_type f)" size] by simp
qed

text \<open>The zero value of a type.\<close>

fun zero_value :: "gotype \<Rightarrow> govalue" where
  "zero_value TBool = VBool False"
| "zero_value (TUint b) = VUint 0"
| "zero_value TString = VString []"
| "zero_value TBigInt = VBigInt 0"
| "zero_value TBigPtr = VBigPtr None"
| "zero_value TRawValue = VBytes None"
| "zero_value (TSlice t) = (if isByte t then VBytes None else VSlice None)"
| "zero_value (TArray n t) =
    (if isByte t then VByteArray (replicate n 0) else VArray (replicate n (zero_value t)))"
| "zero_value (TPtr t) = VPtr None"
| "zero_value (TStruct fs) = VStruct (map (\<lambda>f. zero_value (f_type f)) fs)"
| "zero_value (TInterface e) = VInterface None"
| "zero_value TOther = VStruct []"

text \<open>\<open>reflect.Value.IsZero\<close>.\<close>

fun IsZero :: "govalue \<Rightarrow> bool" where
  "IsZero (VBool b) \<longleftrightarrow> \<not> b"
| "IsZero (VUint i) \<longleftrightarrow> i = 0"
| "IsZero (VString s) \<longleftrightarrow> s = []"
| "IsZero (VBigInt i) \<longleftrightarrow> i = 0"
| "IsZero (VBigPtr p) \<longleftrightarrow> p = None"
| "IsZero (VBytes b) \<longleftrightarrow> b = None"
| "IsZero (VByteArray b) \<longleftrightarrow> (\<forall>x \<in> set b. x = 0)"
| "IsZero (VSlice s) \<longleftrightarrow> s = None"
| "IsZero (VArray vs) \<longleftrightarrow> (\<forall>v \<in> set vs. IsZero v)"
| "IsZero (VPtr p) \<longleftrightarrow> p = None"
| "IsZero (VStruct vs) \<longleftrightarrow> (\<forall>v \<in> set vs. IsZero v)"
| "IsZero (VInterface i) \<longleftrightarrow> i = None"

subsection \<open>Struct tags\<close>

record Tags =
  NilKind :: "kind option"
  NilOK :: bool
  Optional :: bool
  Tail :: bool
  Ignored :: bool

definition no_tags :: Tags where
  "no_tags = \<lparr>NilKind = None, NilOK = False, Optional = False, Tail = False, Ignored = False\<rparr>"

datatype tag_problem =
    NotPointer | AlsoTail | NotLastField | AlsoOptional | NotSlice | UnknownTag | MustBeOptional string

datatype tag_error = TagError (err_field: string) (err_tag: string) (err_problem: tag_problem)

text \<open>\<open>strings.Split\<close> and \<open>strings.TrimSpace\<close>, the latter for ASCII.\<close>

fun split_on :: "char \<Rightarrow> string \<Rightarrow> string list" where
  "split_on c [] = [[]]"
| "split_on c (x # xs) =
    (if x = c then [] # split_on c xs
     else (case split_on c xs of [] \<Rightarrow> [[x]] | y # ys \<Rightarrow> (x # y) # ys))"

definition is_space :: "char \<Rightarrow> bool" where
  "is_space c \<longleftrightarrow> c \<in> {CHR 0x09, CHR 0x0A, CHR 0x0B, CHR 0x0C, CHR 0x0D, CHR '' ''}"

definition TrimSpace :: "string \<Rightarrow> string" where
  "TrimSpace s = rev (dropWhile is_space (rev (dropWhile is_space s)))"

text \<open>One round of the loop of \<open>parseTag\<close>, on the trimmed part \<open>t\<close>.\<close>

definition parseTagPart :: "gofield \<Rightarrow> nat \<Rightarrow> nat \<Rightarrow> Tags \<Rightarrow> string \<Rightarrow> tag_error + Tags" where
  "parseTagPart f index lastPublic ts t =
    (let err = (\<lambda>p. Inl (TagError (f_name f) t p)) in
     if t = '''' then Inr ts
     else if t = ''-'' then Inr (ts\<lparr>Ignored := True\<rparr>)
     else if t = ''nil'' \<or> t = ''nilString'' \<or> t = ''nilList'' then
       (if \<not> isPtr (f_type f) then err NotPointer
        else Inr (ts\<lparr>NilOK := True, NilKind := Some
          (if t = ''nil'' then DefaultNilValue (pointed_type (f_type f))
           else if t = ''nilString'' then String else List)\<rparr>))
     else if t = ''optional'' then
       (if Tail ts then err AlsoTail else Inr (ts\<lparr>Optional := True\<rparr>))
     else if t = ''tail'' then
       (if index \<noteq> lastPublic then err NotLastField
        else if Optional ts then err AlsoOptional
        else if \<not> isSlice (f_type f) then err NotSlice
        else Inr (ts\<lparr>Tail := True\<rparr>))
     else err UnknownTag)"

definition parseTag :: "gofield \<Rightarrow> nat \<Rightarrow> nat \<Rightarrow> tag_error + Tags" where
  "parseTag f index lastPublic =
    foldE (parseTagPart f index lastPublic) no_tags (map TrimSpace (split_on (CHR '','') (f_tag f)))"

definition lastPublicField :: "gofield list \<Rightarrow> nat" where
  "lastPublicField fs = foldl (\<lambda>last i. if f_exported (fs ! i) then i else last) 0 [0..<length fs]"

text \<open>
  \<open>ProcessFields\<close>: the exported fields that are not ignored, by index, with their tags;
  and the check that no mandatory field comes after an optional one.
\<close>

definition gatherFields :: "gofield list \<Rightarrow> tag_error + (nat \<times> Tags) list" where
  "gatherFields fs = foldE (\<lambda>acc i.
     if \<not> f_exported (fs ! i) then Inr acc
     else (case parseTag (fs ! i) i (lastPublicField fs) of Inl e \<Rightarrow> Inl e
       | Inr ts \<Rightarrow> Inr (if Ignored ts then acc else acc @ [(i, ts)]))) [] [0..<length fs]"

definition checkOptional :: "gofield list \<Rightarrow> string option \<Rightarrow> nat \<times> Tags \<Rightarrow> tag_error + string option" where
  "checkOptional fs firstOptional p = (case p of (i, ts) \<Rightarrow>
     if Optional ts \<or> Tail ts
     then Inr (case firstOptional of None \<Rightarrow> Some (f_name (fs ! i)) | Some n \<Rightarrow> Some n)
     else (case firstOptional of None \<Rightarrow> Inr None
       | Some n \<Rightarrow> Inl (TagError (f_name (fs ! i)) '''' (MustBeOptional n))))"

definition ProcessFields :: "gofield list \<Rightarrow> tag_error + (nat \<times> Tags) list" where
  "ProcessFields fs = (case gatherFields fs of Inl e \<Rightarrow> Inl e
     | Inr ps \<Rightarrow> (case foldE (checkOptional fs) None ps of Inl e \<Rightarrow> Inl e | Inr _ \<Rightarrow> Inr ps))"

text \<open>
  The kind of value that stands for a nil pointer.  A tag with \<open>NilOK\<close> always has a kind, so
  the panic for an invalid one is never reached.
\<close>

definition typeNilKind :: "gotype \<Rightarrow> Tags \<Rightarrow> kind" where
  "typeNilKind t ts = (if NilOK ts then (case NilKind ts of Some k \<Rightarrow> k | None \<Rightarrow> List) else DefaultNilValue t)"

text \<open>Errors of types that have no encoder or decoder.\<close>

datatype type_error = NotSerializable gotype | BadTag tag_error | InField nat type_error

subsection \<open>The fields of a struct\<close>

text \<open>
  An entry of the list of \<open>structFields\<close>: the index of the field in the struct, its decoder
  or its writer, and whether it is optional.  \<open>infos ! i\<close> builds the decoder or the writer of
  the field with index \<open>i\<close>, given its tags; the first error is the one \<open>makeStructDecoder\<close>
  or \<open>makeStructWriter\<close> reports.
\<close>

record 'a field =
  fd_index :: nat
  fd_info :: 'a
  fd_optional :: bool

definition structFields :: "gofield list \<Rightarrow> (Tags \<Rightarrow> type_error + 'a) list \<Rightarrow> type_error + 'a field list" where
  "structFields fs infos = (case ProcessFields fs of Inl e \<Rightarrow> Inl (BadTag e)
     | Inr ps \<Rightarrow> foldE (\<lambda>acc (i, ts). case (infos ! i) ts of Inl e \<Rightarrow> Inl (InField i e)
         | Inr d \<Rightarrow> Inr (acc @ [\<lparr>fd_index = i, fd_info = d, fd_optional = Optional ts\<rparr>])) [] ps)"

text \<open>The index of the first field with the tag \<open>optional\<close>.\<close>

fun firstOptionalField :: "'a field list \<Rightarrow> nat" where
  "firstOptionalField [] = 0"
| "firstOptionalField (f # flds) = (if fd_optional f then 0 else Suc (firstOptionalField flds))"

lemma structFields_parts:
  assumes "structFields fs infos = Inr flds"
  obtains ps where "ProcessFields fs = Inr ps" and "list_all2 (\<lambda>(i, ts) f.
    (infos ! i) ts = Inr (fd_info f) \<and> fd_index f = i \<and> fd_optional f = Optional ts) ps flds"
proof -
  let ?R = "\<lambda>(i, ts) f. (infos ! i) ts = Inr (fd_info f) \<and> fd_index f = i \<and> fd_optional f = Optional ts"
  from assms obtain ps where ps: "ProcessFields fs = Inr ps"
    and fl: "foldE (\<lambda>acc (i, ts). case (infos ! i) ts of Inl e \<Rightarrow> Inl (InField i e)
         | Inr d \<Rightarrow> Inr (acc @ [\<lparr>fd_index = i, fd_info = d, fd_optional = Optional ts\<rparr>])) [] ps = Inr flds"
    by (auto simp: structFields_def split: sum.splits)
  have "foldE (\<lambda>acc (i, ts). case (infos ! i) ts of Inl e \<Rightarrow> Inl (InField i e)
         | Inr d \<Rightarrow> Inr (acc @ [\<lparr>fd_index = i, fd_info = d, fd_optional = Optional ts\<rparr>])) acc qs = Inr flds
      \<Longrightarrow> \<exists>fl. flds = acc @ fl \<and> list_all2 ?R qs fl" for acc qs
  proof (induction qs arbitrary: acc)
    case (Cons q qs)
    obtain i ts where q: "q = (i, ts)" by (cases q)
    then obtain d where "(infos ! i) ts = Inr d" using Cons.prems by (auto split: sum.splits)
    then show ?case using Cons by (fastforce simp: q)
  qed simp
  from this[OF fl] ps show thesis by (auto intro: that)
qed

end
