(* ===== verification/Rlp_Encode.thy ===== *)
theory Rlp_Encode
  imports Rlp_Big Rlp_Output Rlp_Types
begin

section \<open>Encoding Go values (rlp/encode.go)\<close>

text \<open>
  \<open>makeWriter\<close> builds the writer of a type from the writers of its parts.  A writer appends the
  encoding of a value to an encoder buffer.  When it fails the model drops the buffer: the
  entry points throw it away, except when \<open>Encode\<close> is given an \<open>encBuffer\<close>, where the caller is
  left with a part of the encoding.

  A value that is not of the type of its writer, which the type system of Go excludes, is the
  error \<open>NotOfType\<close>.  The writer of an interface looks up the writer of the dynamic type
  (\<open>cachedWriter\<close>); the argument \<open>dyn\<close> of \<open>makeWriter\<close> is this lookup.  It is bounded by the
  nesting of interfaces in the value, for which the size of the value is taken.
\<close>

datatype enc_error =
    ErrNegativeBigInt
  | EncTypeErr type_error
  | NotOfType
  | EncOutOfFuel
  | EncPanic

type_synonym "writer" = "govalue \<Rightarrow> encbuf \<Rightarrow> enc_error + encbuf"
type_synonym writer_lookup = "gotype \<Rightarrow> type_error + writer"

subsection \<open>Basic types\<close>

fun writeRawValue :: writer where
  "writeRawValue (VBytes b) w = Inr (w\<lparr>str := str w @ (case b of None \<Rightarrow> [] | Some b \<Rightarrow> b)\<rparr>)"
| "writeRawValue v w = Inl NotOfType"

fun writeUint :: writer where
  "writeUint (VUint i) w = Inr (writeUint64 i w)"
| "writeUint v w = Inl NotOfType"

fun writeBool_value :: writer where
  "writeBool_value (VBool b) w = Inr (writeBool b w)"
| "writeBool_value v w = Inl NotOfType"

fun writeBigIntPtr :: writer where
  "writeBigIntPtr (VBigPtr None) w = Inr (w\<lparr>str := str w @ [0x80]\<rparr>)"
| "writeBigIntPtr (VBigPtr (Some i)) w =
    (if i < 0 then Inl ErrNegativeBigInt else Inr (writeBigInt (nat i) w))"
| "writeBigIntPtr v w = Inl NotOfType"

fun writeBigIntNoPtr :: writer where
  "writeBigIntNoPtr (VBigInt i) w =
    (if i < 0 then Inl ErrNegativeBigInt else Inr (writeBigInt (nat i) w))"
| "writeBigIntNoPtr v w = Inl NotOfType"

fun writeBytes_value :: writer where
  "writeBytes_value (VBytes b) w = Inr (writeBytes (case b of None \<Rightarrow> [] | Some b \<Rightarrow> b) w)"
| "writeBytes_value v w = Inl NotOfType"

fun writeLengthZeroByteArray :: writer where
  "writeLengthZeroByteArray v w = Inr (w\<lparr>str := str w @ [0x80]\<rparr>)"

fun writeLengthOneByteArray :: writer where
  "writeLengthOneByteArray (VByteArray [b]) w =
    Inr (if b \<le> 0x7F then w\<lparr>str := str w @ [b]\<rparr> else w\<lparr>str := str w @ [0x81, b]\<rparr>)"
| "writeLengthOneByteArray v w = Inl NotOfType"

fun writeByteArray :: writer where
  "writeByteArray (VByteArray bs) w =
    (let w' = encodeStringHeader (length bs) w in Inr (w'\<lparr>str := str w' @ bs\<rparr>))"
| "writeByteArray v w = Inl NotOfType"

definition makeByteArrayWriter :: "nat \<Rightarrow> writer" where
  "makeByteArrayWriter len =
    (if len = 0 then writeLengthZeroByteArray else if len = 1 then writeLengthOneByteArray
     else writeByteArray)"

fun writeString_value :: writer where
  "writeString_value (VString s) w =
    Inr (if length s = 1 \<and> s ! 0 \<le> 0x7F then w\<lparr>str := str w @ [s ! 0]\<rparr>
     else let w' = encodeStringHeader (length s) w in w'\<lparr>str := str w' @ s\<rparr>)"
| "writeString_value v w = Inl NotOfType"

fun writeInterface :: "writer_lookup \<Rightarrow> writer" where
  "writeInterface dyn (VInterface None) w = Inr (w\<lparr>str := str w @ [0xC0]\<rparr>)"
| "writeInterface dyn (VInterface (Some (t, v))) w =
    (case dyn t of Inl e \<Rightarrow> Inl (EncTypeErr e) | Inr wr \<Rightarrow> wr v w)"
| "writeInterface dyn v w = Inl NotOfType"

subsection \<open>Slices, arrays and pointers\<close>

text \<open>The elements of a slice (a nil slice has none) or of an array.\<close>

fun elements :: "govalue \<Rightarrow> govalue list option" where
  "elements (VSlice None) = Some []"
| "elements (VSlice (Some vs)) = Some vs"
| "elements (VArray vs) = Some vs"
| "elements v = None"

definition writeElems :: "writer \<Rightarrow> govalue list \<Rightarrow> encbuf \<Rightarrow> enc_error + encbuf" where
  "writeElems wr vs w = foldE (\<lambda>w v. wr v w) w vs"

definition makeSliceWriter :: "Tags \<Rightarrow> writer \<Rightarrow> writer" where
  "makeSliceWriter ts wr v w = (case elements v of None \<Rightarrow> Inl NotOfType
     | Some vs \<Rightarrow>
         if Tail ts then writeElems wr vs w
         else if length vs = 0 then Inr (w\<lparr>str := str w @ [0xC0]\<rparr>)
         else (let (w1, listOffset) = buf_list w in
           case writeElems wr vs w1 of Inl e \<Rightarrow> Inl e | Inr w2 \<Rightarrow> Inr (listEnd listOffset w2)))"

fun writePtr :: "byte \<Rightarrow> writer \<Rightarrow> writer" where
  "writePtr nilEncoding wr (VPtr (Some v)) w = wr v w"
| "writePtr nilEncoding wr (VPtr None) w = Inr (w\<lparr>str := str w @ [nilEncoding]\<rparr>)"
| "writePtr nilEncoding wr v w = Inl NotOfType"

definition makePtrWriter :: "gotype \<Rightarrow> Tags \<Rightarrow> writer \<Rightarrow> writer" where
  "makePtrWriter etype ts wr = writePtr (if typeNilKind etype ts = String then 0x80 else 0xC0) wr"

subsection \<open>Structs\<close>

definition writeFields :: "writer field list \<Rightarrow> govalue list \<Rightarrow> encbuf \<Rightarrow> enc_error + encbuf" where
  "writeFields flds vs w = foldE (\<lambda>w f. fd_info f (vs ! fd_index f) w) w flds"

text \<open>
  The number of fields that are written when there are optional ones: from the end, fields
  are dropped as long as they are zero and not in front of the first optional one.  This is
  \<open>lastField + 1\<close> of the code.
\<close>

fun fieldsToWrite :: "writer field list \<Rightarrow> govalue list \<Rightarrow> nat \<Rightarrow> nat \<Rightarrow> nat" where
  "fieldsToWrite flds vs first 0 = 0"
| "fieldsToWrite flds vs first (Suc lastField) =
    (if lastField \<ge> first \<and> IsZero (vs ! fd_index (flds ! lastField))
     then fieldsToWrite flds vs first lastField else Suc lastField)"

definition structWriter :: "writer field list \<Rightarrow> writer" where
  "structWriter flds v w = (case v of
     VStruct vs \<Rightarrow>
       if \<exists>f \<in> set flds. length vs \<le> fd_index f then Inl NotOfType
       else (let first = firstOptionalField flds;
            n = (if first = length flds then length flds else fieldsToWrite flds vs first (length flds));
            (w1, lh) = buf_list w
        in case writeFields (take n flds) vs w1 of Inl e \<Rightarrow> Inl e | Inr w2 \<Rightarrow> Inr (listEnd lh w2))
   | _ \<Rightarrow> Inl NotOfType)"

definition makeStructWriter :: "gofield list \<Rightarrow> (Tags \<Rightarrow> type_error + writer) list \<Rightarrow> type_error + writer" where
  "makeStructWriter fs wrs = (case structFields fs wrs of Inl e \<Rightarrow> Inl e
     | Inr flds \<Rightarrow> Inr (structWriter flds))"

subsection \<open>The writer of a type\<close>

fun makeWriter :: "writer_lookup \<Rightarrow> gotype \<Rightarrow> Tags \<Rightarrow> type_error + writer" where
  "makeWriter dyn TRawValue ts = Inr writeRawValue"
| "makeWriter dyn TBigPtr ts = Inr writeBigIntPtr"
| "makeWriter dyn TBigInt ts = Inr writeBigIntNoPtr"
| "makeWriter dyn (TPtr t) ts =
    (case makeWriter dyn t no_tags of Inl e \<Rightarrow> Inl e | Inr wr \<Rightarrow> Inr (makePtrWriter t ts wr))"
| "makeWriter dyn (TUint bits) ts = Inr writeUint"
| "makeWriter dyn TBool ts = Inr writeBool_value"
| "makeWriter dyn TString ts = Inr writeString_value"
| "makeWriter dyn (TSlice t) ts =
    (if isByte t then Inr writeBytes_value
     else case makeWriter dyn t no_tags of Inl e \<Rightarrow> Inl e | Inr wr \<Rightarrow> Inr (makeSliceWriter ts wr))"
| "makeWriter dyn (TArray n t) ts =
    (if isByte t then Inr (makeByteArrayWriter n)
     else case makeWriter dyn t no_tags of Inl e \<Rightarrow> Inl e | Inr wr \<Rightarrow> Inr (makeSliceWriter ts wr))"
| "makeWriter dyn (TStruct fs) ts = makeStructWriter fs (map (\<lambda>f. makeWriter dyn (f_type f)) fs)"
| "makeWriter dyn (TInterface noMethods) ts = Inr (writeInterface dyn)"
| "makeWriter dyn TOther ts = Inl (NotSerializable TOther)"

fun cachedWriter :: "nat \<Rightarrow> writer_lookup" where
  "cachedWriter 0 t = Inr (\<lambda>v w. Inl EncOutOfFuel)"
| "cachedWriter (Suc n) t = makeWriter (cachedWriter n) t no_tags"

subsection \<open>Entry points\<close>

definition buf_encode :: "gotype \<Rightarrow> govalue \<Rightarrow> encbuf \<Rightarrow> enc_error + encbuf" where
  "buf_encode t v buf = (case cachedWriter (Suc (size v)) t of Inl e \<Rightarrow> Inl (EncTypeErr e)
     | Inr wr \<Rightarrow> wr v buf)"

text \<open>The entry points take a used buffer from a pool; \<open>getEncBuffer\<close> resets it.\<close>

definition EncodeToBytes :: "encbuf \<Rightarrow> gotype \<Rightarrow> govalue \<Rightarrow> enc_error + bytes" where
  "EncodeToBytes pooled t v = (case buf_encode t v (buf_reset pooled) of Inl e \<Rightarrow> Inl e
     | Inr buf \<Rightarrow> (case makeBytes buf of None \<Rightarrow> Inl EncPanic | Some b \<Rightarrow> Inr b))"

definition EncodeToReader :: "encbuf \<Rightarrow> gotype \<Rightarrow> govalue \<Rightarrow> enc_error + nat \<times> encReader" where
  "EncodeToReader pooled t v = (case buf_encode t v (buf_reset pooled) of Inl e \<Rightarrow> Inl e
     | Inr buf \<Rightarrow> Inr (buf_size buf, new_encReader buf))"

text \<open>
  \<open>Encode\<close> to a writer that is not an encoder buffer; for one that is, it is \<open>buf_encode\<close> on
  that buffer.  The result is an error of the encoder, or what \<open>writeTo\<close> returns.
\<close>

definition Encode :: "('s, 'e) io_write \<Rightarrow> encbuf \<Rightarrow> gotype \<Rightarrow> govalue \<Rightarrow> 's \<Rightarrow> enc_error + ('e option \<times> 's)" where
  "Encode wr pooled t v st = (case buf_encode t v (buf_reset pooled) of Inl e \<Rightarrow> Inl e
     | Inr buf \<Rightarrow> (case writeTo wr buf st of None \<Rightarrow> Inl EncPanic | Some r \<Rightarrow> Inr r))"

end
