(* ===== verification/Rlp_Stream_Correct.thy ===== *)
theory Rlp_Stream_Correct
  imports Rlp_Stream
begin

section \<open>The stream operations read exactly the canonical encodings\<close>

text \<open>
  What an operation of \<open>Rlp_Stream\<close> does to an unarmed stream is said by \<open>took e s s'\<close>: it
  consumed the bytes \<open>e\<close>, and the limits went down by their number, in 64-bit arithmetic.
  \<open>room n s\<close> says that \<open>n\<close> bytes are within the limits.  An operation with
  \<open>reader op P\<close> consumes an encoding \<open>e\<close> and returns \<open>x\<close> exactly when \<open>P x e\<close>.
\<close>

subsection \<open>Positions and limits\<close>

fun sub_limit :: "nat \<Rightarrow> uint64 list \<Rightarrow> uint64 list" where
  "sub_limit n [] = []"
| "sub_limit n (l # ls) = (l - of_nat n) # ls"

definition moved :: "nat \<Rightarrow> Stream \<Rightarrow> Stream \<Rightarrow> bool" where
  "moved n s s' \<longleftrightarrow> n \<le> length (s_input s) \<and> s_input s' = drop n (s_input s) \<and>
     s_stack s' = sub_limit n (s_stack s) \<and> s_limited s' = s_limited s \<and>
     (s_limited s \<longrightarrow> s_remaining s' = s_remaining s - of_nat n)"

definition took :: "bytes \<Rightarrow> Stream \<Rightarrow> Stream \<Rightarrow> bool" where
  "took e s s' \<longleftrightarrow> s_input s = e @ s_input s' \<and> moved (length e) s s' \<and> s_kind s' = None"

definition room :: "nat \<Rightarrow> Stream \<Rightarrow> bool" where
  "room n s \<longleftrightarrow> (\<forall>l. listLimit s = Some l \<longrightarrow> n \<le> unat l) \<and> (s_limited s \<longrightarrow> n \<le> unat (s_remaining s))"

lemma sub_limit_0 [simp]: "sub_limit 0 ls = ls"
  by (cases ls) simp_all

lemma sub_limit_add: "sub_limit m (sub_limit n ls) = sub_limit (n + m) ls"
  by (cases ls) (simp_all add: algebra_simps)

lemma moved_0: "moved 0 s s"
  by (simp add: moved_def)

lemma moved_upd [simp]:
  "moved n s (t\<lparr>s_kind := k\<rparr>) = moved n s t" "moved n s (t\<lparr>s_size := z\<rparr>) = moved n s t"
  "moved n s (t\<lparr>s_kinderr := e\<rparr>) = moved n s t" "moved n s (t\<lparr>s_byteval := b\<rparr>) = moved n s t"
  "moved n (s\<lparr>s_byteval := b\<rparr>) t = moved n s t"
  by (simp_all add: moved_def)

lemma moved_limited: "moved n s t \<Longrightarrow> s_limited t = s_limited s"
  by (simp add: moved_def)

lemma moved_trans: "moved n s t \<Longrightarrow> moved m t u \<Longrightarrow> moved (n + m) s u"
  by (auto simp: moved_def sub_limit_add add.commute diff_diff_eq)

lemma took_Nil: "s_kind s = None \<Longrightarrow> took [] s s"
  by (simp add: took_def moved_0)

lemma rearm_unarmed [simp]: "s_kind s = None \<Longrightarrow> s\<lparr>s_kind := None\<rparr> = s" "s_kind s = None \<Longrightarrow> rearm s = s"
  by (cases s; simp add: rearm_def)+

lemma took_trans: "took e s t \<Longrightarrow> took f t u \<Longrightarrow> took (e @ f) s u"
  by (auto simp: took_def dest: moved_trans)

lemma took_length: "took e s s' \<Longrightarrow> length (s_input s) = length e + length (s_input s')"
  by (simp add: took_def)

lemma tookI: "moved n s s' \<Longrightarrow> e = take n (s_input s) \<Longrightarrow> s_kind s' = None \<Longrightarrow> took e s s'"
  by (auto simp: took_def moved_def)

lemma took_from_moved:
  "moved (length h) s t \<Longrightarrow> s_input s = h @ s_input t \<Longrightarrow> took e t u \<Longrightarrow> took (h @ e) s u"
  by (auto simp: took_def dest: moved_trans)

lemma moved_listLimit: "moved n s s' \<Longrightarrow> listLimit s' = map_option (\<lambda>l. l - of_nat n) (listLimit s)"
  by (cases "s_stack s") (auto simp: moved_def listLimit_def)

lemma unat_minus_of_nat: "n \<le> unat l \<Longrightarrow> unat (l - of_nat n :: uint64) = unat l - n"
proof -
  assume "n \<le> unat l"
  moreover then have "n < 2 ^ 64" using unsigned_less[of l, where ?'a = nat] by simp
  then have "unat (of_nat n :: uint64) = n" by (simp add: unat_of_nat)
  ultimately show ?thesis by (simp add: unat_sub word_le_nat_alt)
qed

lemma room_moved:
  assumes "moved n s s'" and "room (n + m) s"
  shows "room m s'"
proof -
  have "s_limited s' = s_limited s" "s_limited s \<Longrightarrow> s_remaining s' = s_remaining s - of_nat n"
    using assms(1) by (simp_all add: moved_def)
  then show ?thesis
    using assms(2) moved_listLimit[OF assms(1)] by (auto simp: room_def unat_minus_of_nat)
qed

lemma room_mono: "room n s \<Longrightarrow> m \<le> n \<Longrightarrow> room m s"
  by (fastforce simp: room_def)

lemma room_took: "took e s s' \<Longrightarrow> room (length e + m) s \<Longrightarrow> room m s'"
  unfolding took_def by (blast intro: room_moved)


subsection \<open>Success of composed operations\<close>

lemma sm_bind_Inr: "sm_bind m f s = (Inr y, s') \<longleftrightarrow> (\<exists>x t. m s = (Inr x, t) \<and> f x t = (Inr y, s'))"
  by (auto simp: sm_bind_def split: prod.splits sum.splits)

lemma sm_wrap_Inr [simp]: "sm_wrap g m s = (Inr x, s') \<longleftrightarrow> m s = (Inr x, s')"
  by (auto simp: sm_wrap_def split: prod.splits sum.splits)

lemma sm_ret_Inr [simp]: "sm_ret x s = (Inr y, s') \<longleftrightarrow> y = x \<and> s' = s"
  by (auto simp: sm_ret_def)

lemma sm_err_Inr [simp]: "sm_err e s \<noteq> (Inr y, s')"
  by (simp add: sm_err_def)

lemma sm_if_err_Inr [simp]:
  "(if b then sm_err e else m) s = (Inr y, s') \<longleftrightarrow> \<not> b \<and> m s = (Inr y, s')"
  by simp

subsection \<open>Reading bytes\<close>

lemma willRead_iff:
  "willRead n s = (Inr (), s') \<longleftrightarrow> (\<forall>l. listLimit s = Some l \<longrightarrow> n \<le> l) \<and>
     (s_limited s \<longrightarrow> n \<le> s_remaining s) \<and>
     s' = s\<lparr>s_kind := None, s_stack := sub_limit (unat n) (s_stack s),
       s_remaining := (if s_limited s then s_remaining s - n else s_remaining s)\<rparr>"
  by (cases "s_stack s") (auto simp: willRead_def Let_def rearm_def listLimit_def set_limit_def not_le)

lemma willRead_kind: "willRead n s = (r, s') \<Longrightarrow> s_kind s' = None"
  by (auto simp: willRead_def Let_def rearm_def set_limit_def split: option.splits if_splits)

lemma willRead_error: "willRead n s = (Inl e, s') \<Longrightarrow> e = ErrElemTooLarge \<or> e = ErrValueTooLarge"
  by (auto simp: willRead_def Let_def split: option.splits if_splits)

lemma readFull_sound:
  assumes "readFull n s = (Inr b, s')" and "length (s_input s) < 2 ^ 64"
  shows "took b s s' \<and> length b = n"
proof -
  from assms(1) obtain t where t: "willRead (of_nat n) s = (Inr (), t)"
    and n: "n \<le> length (s_input t)" "b = take n (s_input t)" "s' = t\<lparr>s_input := drop n (s_input t)\<rparr>"
    by (auto simp: readFull_def sm_bind_def split: prod.splits sum.splits if_splits)
  from t have "s_input t = s_input s" by (auto simp: willRead_iff)
  with n(1) assms(2) have "unat (of_nat n :: uint64) = n" by (simp add: unat_of_nat)
  then show ?thesis using t n by (auto simp: willRead_iff took_def moved_def)
qed

lemma room_willRead:
  assumes "room n s" and "n < 2 ^ 64"
  shows "\<exists>t. willRead (of_nat n) s = (Inr (), t) \<and> s_input t = s_input s"
proof -
  have "unat (of_nat n :: uint64) = n" using assms(2) by (simp add: unat_of_nat)
  then show ?thesis using assms(1) by (simp add: willRead_iff room_def word_le_nat_alt)
qed

lemma readFull_complete:
  assumes "s_input s = b @ r" and "room (length b) s" and "length (s_input s) < 2 ^ 64"
  shows "\<exists>s'. readFull (length b) s = (Inr b, s') \<and> took b s s'"
proof -
  have "length b < 2 ^ 64" using assms(1,3) by simp
  with room_willRead[OF assms(2)] obtain t where
    "willRead (of_nat (length b)) s = (Inr (), t)" "s_input t = s_input s" by blast
  then have "readFull (length b) s = (Inr b, t\<lparr>s_input := r\<rparr>)"
    using assms(1) by (simp add: readFull_def sm_bind_def)
  then show ?thesis using readFull_sound assms(3) by blast
qed

lemma readByte_readFull:
  "readByte s = (Inr b, s') \<longleftrightarrow> readFull 1 s = (Inr [b], s')"
  by (auto simp: readByte_def readFull_def sm_bind_def Suc_le_eq drop_Suc take_Suc
      split: prod.splits sum.splits list.splits if_splits)

lemma be_word_replicate_0: "be_word (replicate n 0 @ d) = be_word d"
  by (induction n) (simp_all add: be_word_def)

lemma readFull_0: "readFull 0 s = (Inr [], rearm s)"
proof -
  have "willRead 0 s = (Inr (), rearm s)" by (simp add: willRead_iff rearm_def)
  then show ?thesis by (simp add: readFull_def sm_bind_def)
qed

lemma readFull_length: "readFull n s = (Inr d, s') \<Longrightarrow> length d = n"
  by (auto simp: readFull_def sm_bind_def split: prod.splits sum.splits if_splits)

text \<open>\<open>readUint\<close> reads a big-endian number without leading zero bytes (of one byte: any).\<close>

lemma readUint_iff:
  assumes "unat sz \<le> 8"
  shows "readUint sz s = (Inr v, s') \<longleftrightarrow>
    (\<exists>d. readFull (unat sz) s = (Inr d, s') \<and> v = be_word d \<and> (1 < unat sz \<longrightarrow> hd d \<noteq> 0))"
proof -
  consider "sz = 0" | "sz = 1" | "1 < unat sz" "sz \<noteq> 0" "sz \<noteq> 1"
    by (cases "unat sz = 0"; cases "unat sz = 1") (auto simp: byte_eq_iff_unat)
  then show ?thesis
  proof cases
    case 1
    then show ?thesis by (auto simp: readUint_def readFull_0 be_word_def)
  next
    case 2
    have "readUint sz s = (Inr v, s') \<longleftrightarrow> (\<exists>b. readByte s = (Inr b, s') \<and> v = ucast b)"
      using 2 by (auto simp: readUint_def sm_bind_def sm_ret_def split: prod.splits sum.splits)
    moreover have "readFull 1 s = (Inr d, s') \<Longrightarrow> \<exists>b. d = [b]" for d
      using readFull_length[of 1 s d s'] by (auto simp: length_Suc_conv)
    moreover have "be_word [b] = ucast b" for b by (simp add: be_word_def)
    ultimately have "readUint sz s = (Inr v, s') \<longleftrightarrow> (\<exists>d. readFull 1 s = (Inr d, s') \<and> v = be_word d)"
      by (metis readByte_readFull)
    then show ?thesis using 2 by simp
  next
    case 3
    have "sz \<le> 8" using assms by (simp add: word_le_nat_alt)
    then have u: "unat (8 - sz) = 8 - unat sz" by (simp add: unat_sub)
    have nl: "\<not> 8 < 8 - unat sz" by simp
    have hd: "(replicate (8 - unat sz) 0 @ d) ! (8 - unat sz) = hd d"
      if "readFull (unat sz) s = (Inr d, s')" for d
      using readFull_length[OF that] 3(1) by (cases d) (auto simp: nth_append)
    then show ?thesis
      using 3 u assms nl
      by (auto simp: readUint_def Let_def sm_bind_def sm_ret_def sm_err_def be_word_replicate_0
          split: prod.splits sum.splits if_splits)
  qed
qed

lemma readUint_sound:
  assumes "readUint sz s = (Inr v, s')" and "length (s_input s) < 2 ^ 64" and "unat sz \<le> 8"
  shows "\<exists>d. took d s s' \<and> length d = unat sz \<and> v = be_word d \<and> (1 < unat sz \<longrightarrow> hd d \<noteq> 0)"
  using assms readFull_sound by (fastforce simp: readUint_iff)

lemma readUint_complete:
  assumes "s_input s = d @ r" and "room (length d) s" and "length (s_input s) < 2 ^ 64"
    and "length d \<le> 8" and "1 < length d \<longrightarrow> hd d \<noteq> 0"
  shows "\<exists>s'. readUint (of_nat (length d)) s = (Inr (be_word d), s') \<and> took d s s'"
  using readFull_complete[OF assms(1-3)] assms(4,5) by (auto simp: readUint_iff)

subsection \<open>The kind of the next value\<close>

text \<open>The header of a value of kind \<open>k\<close> and size \<open>sz\<close>; a single byte \<open>b\<close> is its own header.\<close>

definition header :: "kind \<Rightarrow> uint64 \<Rightarrow> byte \<Rightarrow> bytes \<Rightarrow> bool" where
  "header k sz b h \<longleftrightarrow>
    (case k of Byte \<Rightarrow> h = [b] \<and> b < 0x80 \<and> sz = 0 | _ \<Rightarrow> h = kind_head k (unat sz))"

lemma header_simps [simp]:
  "header Byte sz b h \<longleftrightarrow> h = [b] \<and> b < 0x80 \<and> sz = 0"
  "header String sz b h \<longleftrightarrow> h = rlp_head 0x80 0xB7 (unat sz)"
  "header List sz b h \<longleftrightarrow> h = rlp_head 0xC0 0xF7 (unat sz)"
  by (simp_all add: header_def kind_head_def)

lemma readHeadSize_sound:
  assumes "readHeadSize k sb s = ((k', sz, None), s')" and "length (s_input s) < 2 ^ 64"
    and "1 \<le> unat sb" "unat sb \<le> 8"
  shows "k' = k \<and> took (be_bytes (unat sz)) s s' \<and> length (be_bytes (unat sz)) = unat sb \<and> 56 \<le> unat sz"
proof -
  from assms(1) have r: "readUint sb s = (Inr sz, s')" and k: "k' = k" and sz: "\<not> sz < 56"
    by (auto simp: readHeadSize_def split: prod.splits sum.splits if_splits)
  obtain d where d: "took d s s'" "length d = unat sb" "sz = be_word d" "1 < unat sb \<longrightarrow> hd d \<noteq> 0"
    using readUint_sound[OF r assms(2,4)] by blast
  have u: "unat sz = be_val d" using d assms(4) by (simp add: unat_be_word)
  have ge: "56 \<le> unat sz" using sz by (simp add: word_less_nat_alt)
  have "hd d \<noteq> 0"
  proof (cases "1 < unat sb")
    case False
    then obtain b where "d = [b]" using d(2) assms(3) by (metis One_nat_def Suc_length_conv le_neq_implies_less length_0_conv)
    then show ?thesis using u ge by auto
  qed (use d in simp)
  then show ?thesis using d k ge u by (simp add: be_bytes_be_val)
qed

lemma readHeadSize_complete:
  assumes "s_input s = be_bytes (unat sz) @ r" and "room (length (be_bytes (unat sz))) s"
    and "length (s_input s) < 2 ^ 64" and "56 \<le> unat sz"
    and "sb = of_nat (length (be_bytes (unat sz)))"
  shows "\<exists>s'. readHeadSize k sb s = ((k, sz, None), s') \<and> took (be_bytes (unat sz)) s s'"
proof -
  let ?d = "be_bytes (unat sz)"
  have len: "length ?d \<le> 8" using length_be_bytes_size[OF assms(4)] by simp
  have hd: "hd ?d \<noteq> 0" using hd_be_bytes[of "unat sz"] assms(4) by simp
  have "unat (be_word ?d) = unat sz" using len by (simp add: unat_be_word)
  then have w: "be_word ?d = sz" by (simp add: word_unat_eq_iff)
  obtain s' where "readUint sb s = (Inr sz, s')" "took ?d s s'"
    using readUint_complete[OF assms(1-3) len] hd w assms(5) by auto
  moreover have "\<not> sz < 56" using assms(4) by (simp add: word_less_nat_alt)
  ultimately show ?thesis by (simp add: readHeadSize_def)
qed

lemma byte_sub_tag:
  "\<not> b < t \<Longrightarrow> (b :: byte) = t + of_nat (unat (b - t))"
  "\<not> b < t \<Longrightarrow> unat (b - t) = unat b - unat t"
proof -
  show "b = t + of_nat (unat (b - t))" by simp
qed (simp add: unat_sub_tag not_less)

lemma rlp_head_short:
  "unat (b - t :: byte) < 56 \<Longrightarrow> rlp_head t tg (unat (b - t)) = [b]"
  by (simp add: rlp_head_def)

lemma took_byteval: "took e s (s'\<lparr>s_byteval := b\<rparr>) \<longleftrightarrow> took e s s'"
  by (simp add: took_def moved_def)

lemma took_from_byteval: "took e (s\<lparr>s_byteval := b\<rparr>) s' \<longleftrightarrow> took e s s'"
  by (simp add: took_def moved_def)

lemma readByte_sound:
  "readByte s = (Inr b, s') \<Longrightarrow> length (s_input s) < 2 ^ 64 \<Longrightarrow> took [b] s s'"
  using readFull_sound by (auto simp: readByte_readFull)

lemma stream_readKind_sound:
  assumes "stream_readKind s = ((k, sz, None), s')" and "length (s_input s) < 2 ^ 64"
    and "s_kind s = None"
  shows "\<exists>h. header k sz (s_byteval s') h \<and> took h s s'"
proof -
  obtain b t where rb: "readByte s = (Inr b, t)" using assms(1)
    by (auto simp: stream_readKind_def split: prod.splits sum.splits)
  note tb = readByte_sound[OF rb assms(2)]
  define t0 where "t0 = t\<lparr>s_byteval := 0\<rparr>"
  have k0: "s_kind t0 = None" "length (s_input t0) < 2 ^ 64"
    using tb took_length[OF tb] assms(2) by (simp_all add: t0_def took_def)
  note rk = assms(1)[unfolded stream_readKind_def rb, simplified, folded t0_def, unfolded Let_def]
  have long: "\<exists>h. h = rlp_head sm tg (unat sz) \<and> took h s s'"
    if "readHeadSize k0 (b - tg) t0 = ((k, sz, None), s')" "1 \<le> unat b - unat tg" "unat b - unat tg \<le> 8"
      "\<not> b < tg" for k0 tg sm
  proof -
    have "took (be_bytes (unat sz)) t0 s'" "length (be_bytes (unat sz)) = unat (b - tg)" "56 \<le> unat sz"
      using readHeadSize_sound[OF that(1) k0(2)] that byte_sub_tag(2)[OF that(4)] by auto
    moreover from calculation(2) have "b = tg + of_nat (length (be_bytes (unat sz)))"
      using byte_sub_tag(1)[OF that(4)] by simp
    ultimately show ?thesis
      using took_trans[OF tb, of "be_bytes (unat sz)" s'] by (auto simp: rlp_head_def t0_def took_from_byteval)
  qed
  consider "b < 0x80" | "\<not> b < 0x80" "b < 0xB8"
    | "\<not> b < 0x80" "\<not> b < 0xB8" "\<not> b < 0xB7" "b < 0xC0"
    | "\<not> b < 0x80" "\<not> b < 0xB8" "\<not> b < 0xC0" "b < 0xF8"
    | "\<not> b < 0x80" "\<not> b < 0xB8" "\<not> b < 0xC0" "\<not> b < 0xF8" "\<not> b < 0xF7"
    by (auto simp: word_less_nat_alt)
  then show ?thesis
  proof cases
    case 1
    then show ?thesis using rk tb by (auto simp: t0_def took_byteval)
  next
    case 2
    then have "k = String" "sz = ucast (b - 0x80)" "s' = t0" using rk by auto
    moreover have "unat (b - 0x80) < 56"
      unfolding byte_sub_tag(2)[OF 2(1)] using 2 by (simp add: word_less_nat_alt)
    ultimately show ?thesis using tb by (auto simp: t0_def took_byteval rlp_head_short)
  next
    case 3
    have "k = String" "readHeadSize String (b - 0xB7) t0 = ((String, sz, None), s')"
      using 3 rk by (auto simp: readHeadSize_def split: prod.splits sum.splits)
    then show ?thesis using long[of String "0xB7"] 3 by (simp add: word_less_nat_alt)
  next
    case 4
    then have "k = List" "sz = ucast (b - 0xC0)" "s' = t0" using rk by auto
    moreover have "unat (b - 0xC0) < 56"
      unfolding byte_sub_tag(2)[OF 4(3)] using 4 by (simp add: word_less_nat_alt)
    ultimately show ?thesis using tb by (auto simp: t0_def took_byteval rlp_head_short)
  next
    case 5
    have "k = List" "readHeadSize List (b - 0xF7) t0 = ((List, sz, None), s')"
      using 5 rk by (auto simp: readHeadSize_def split: prod.splits sum.splits)
    moreover have "unat b \<le> 255" using unat_byte_less[of b] by linarith
    then have "1 \<le> unat b - 247" "unat b - 247 \<le> 8" using 5 by (simp_all add: word_less_nat_alt)
    ultimately show ?thesis using long[of List "0xF7"] 5 by simp
  qed
qed


lemma readByte_complete:
  "s_input s = b # r \<Longrightarrow> room 1 s \<Longrightarrow> length (s_input s) < 2 ^ 64 \<Longrightarrow>
    \<exists>s'. readByte s = (Inr b, s') \<and> took [b] s s'"
  using readFull_complete[of s "[b]" r] by (simp add: readByte_readFull)

lemma unat_ucast_small: "unat (sz :: uint64) < 56 \<Longrightarrow> unat (ucast sz :: byte) = unat sz"
  using unat_byte_of_nat[of "unat sz"] by simp

lemma ucast_byte_small: "unat (sz :: uint64) < 256 \<Longrightarrow> ucast (ucast sz :: byte) = sz"
  using unat_byte_of_nat[of "unat sz"] by (simp add: word_unat_eq_iff)

lemma stream_readKind_complete:
  assumes "header k sz b h" and "s_input s = h @ r" and "room (length h) s"
    and "length (s_input s) < 2 ^ 64" and "s_kind s = None"
  shows "\<exists>s'. stream_readKind s = ((k, sz, None), s') \<and> took h s s' \<and> (k = Byte \<longrightarrow> s_byteval s' = b)"
proof -
  have "h \<noteq> []" using assms(1) by (cases k) auto
  then obtain x d where h: "h = x # d" by (cases h) auto
  then obtain t where rb: "readByte s = (Inr x, t)" and tb: "took [x] s t"
    using readByte_complete[of s x "d @ r"] assms(2,4) room_mono[OF assms(3), of 1] by auto
  define t0 where "t0 = t\<lparr>s_byteval := 0\<rparr>"
  have t0: "took [x] s t0" using tb by (simp add: t0_def took_byteval)
  have k0: "s_kind t0 = None" "length (s_input t0) < 2 ^ 64" "s_input t0 = d @ r" "room (length d) t0"
    using t0 took_length[OF t0] assms(2,3,4) h room_took[OF t0, of "length d"] by (auto simp: took_def)
  note rk = stream_readKind_def rb t0_def[symmetric] Let_def
  have long: "\<exists>s'. readHeadSize k' (x - tg) t0 = ((k', sz, None), s') \<and> took h s s'"
    if "h = rlp_head sm tg (unat sz)" "56 \<le> unat sz" for k' sm tg
  proof -
    have d: "d = be_bytes (unat sz)" "x - tg = of_nat (length (be_bytes (unat sz)))"
      using that h by (simp_all add: rlp_head_def)
    show ?thesis
      using readHeadSize_complete[OF _ _ k0(2) that(2) d(2)] k0(3,4) d(1) took_trans[OF t0] h
      by fastforce
  qed
  note len = length_be_bytes_size[of sz]
  show ?thesis
  proof (cases k)
    case Byte
    then show ?thesis using assms(1) h tb by (auto simp: rk took_byteval)
  next
    case String
    show ?thesis
    proof (cases "unat sz < 56")
      case True
      then have "unat x = 128 + unat sz" "x - 0x80 = of_nat (unat sz)"
        using assms(1) h String by (auto simp: rlp_head_def unat_word_ariths unat_ucast_small)
      then show ?thesis
        using t0 h assms(1) True String ucast_byte_small[of sz]
        by (auto simp: rk word_less_nat_alt rlp_head_def)
    next
      case False
      then have "unat x = 0xB7 + length (be_bytes (unat sz))"
        using assms(1) h String len by (auto simp: rlp_head_def unat_word_ariths)
      moreover have "h = rlp_head 0x80 0xB7 (unat sz)" using assms(1) String by simp
      ultimately show ?thesis
        using long[of "0x80" "0xB7" String] False len String by (auto simp: rk word_less_nat_alt)
    qed
  next
    case List
    show ?thesis
    proof (cases "unat sz < 56")
      case True
      then have "unat x = 0xC0 + unat sz" "x - 0xC0 = of_nat (unat sz)"
        using assms(1) h List by (auto simp: rlp_head_def unat_word_ariths unat_ucast_small)
      then show ?thesis
        using t0 h assms(1) True List ucast_byte_small[of sz]
        by (auto simp: rk word_less_nat_alt rlp_head_def)
    next
      case False
      then have "unat x = 0xF7 + length (be_bytes (unat sz))"
        using assms(1) h List len by (auto simp: rlp_head_def unat_word_ariths)
      moreover have "h = rlp_head 0xC0 0xF7 (unat sz)" using assms(1) List by simp
      ultimately show ?thesis
        using long[of "0xC0" "0xF7" List] False len List by (auto simp: rk word_less_nat_alt)
    qed
  qed
qed

text \<open>\<open>ahead k sz h s s1\<close>: the header \<open>h\<close> was read and \<open>s1\<close> is armed with it.\<close>

definition ahead :: "kind \<Rightarrow> uint64 \<Rightarrow> bytes \<Rightarrow> Stream \<Rightarrow> Stream \<Rightarrow> bool" where
  "ahead k sz h s s1 \<longleftrightarrow> header k sz (s_byteval s1) h \<and> s_input s = h @ s_input s1 \<and>
     moved (length h) s s1 \<and> s_kind s1 = Some k \<and> s_size s1 = sz \<and> s_kinderr s1 = None \<and>
     (s_limited s \<longrightarrow> sz \<le> s_remaining s1)"

lemma Kind_sound:
  assumes "Kind s = (Inr (k, sz), s1)" and "length (s_input s) < 2 ^ 64" and "s_kind s = None"
  shows "\<exists>h. ahead k sz h s s1"
proof -
  from assms(1,3) obtain t where t: "stream_readKind s = ((k, sz, None), t)"
    and s1: "s1 = t\<lparr>s_kind := Some k, s_size := sz, s_kinderr := None\<rparr>"
    and lim: "s_limited t \<longrightarrow> sz \<le> s_remaining t"
    by (auto simp: Kind_def Let_def not_less split: prod.splits option.splits if_splits)
  from stream_readKind_sound[OF t assms(2,3)] obtain h where
    "header k sz (s_byteval t) h" "took h s t" by blast
  then show ?thesis using lim by (auto simp: ahead_def s1 took_def dest: moved_limited)
qed

lemma Kind_complete:
  assumes "header k sz b h" and "s_input s = h @ r" and "room (length h + unat sz) s"
    and "length (s_input s) < 2 ^ 64" and "s_kind s = None"
  shows "\<exists>s1. Kind s = (Inr (k, sz), s1) \<and> ahead k sz h s s1 \<and> s_input s1 = r \<and>
    (k = Byte \<longrightarrow> s_byteval s1 = b)"
proof -
  have ne: "h \<noteq> []" using assms(1) by (cases k) auto
  obtain t where t: "stream_readKind s = ((k, sz, None), t)" "took h s t" "k = Byte \<longrightarrow> s_byteval t = b"
    using stream_readKind_complete[OF assms(1,2) _ assms(4,5)] room_mono[OF assms(3)] by auto
  have "room (unat sz) t" using room_took[OF t(2) assms(3)] .
  then have 1: "s_limited t \<Longrightarrow> sz \<le> s_remaining t" by (simp add: room_def word_le_nat_alt)
  have l: "0 < unat l \<and> unat sz \<le> unat l" if "listLimit s = Some l" for l
  proof -
    have "length h + unat sz \<le> unat l" using assms(3) that by (simp add: room_def)
    then show ?thesis using ne by (cases h) simp_all
  qed
  then have 2: "listLimit s \<noteq> Some 0" "\<And>l. listLimit s = Some l \<Longrightarrow> sz \<le> l"
    by (auto simp: word_le_nat_alt)
  define s1 where "s1 = t\<lparr>s_kind := Some k, s_size := sz, s_kinderr := None\<rparr>"
  have k: "Kind s = (Inr (k, sz), s1)"
    using 1 2 t(1) assms(5) by (auto simp: Kind_def Let_def s1_def leD split: option.splits)
  moreover have "s_input s1 = r" using t(2) assms(2) by (simp add: s1_def took_def)
  moreover have "header k sz (s_byteval s1) h" using assms(1) t(3) by (cases k) (simp_all add: s1_def)
  ultimately show ?thesis
    using t(2,3) 1 by (auto simp: ahead_def s1_def took_def dest: moved_limited)
qed


subsection \<open>Operations that read exactly one value\<close>

text \<open>
  The contract of a reading operation: it succeeds with \<open>x\<close> only when it consumed an encoding
  of \<open>x\<close>, and it does when one is there and lies within the limits.
\<close>

locale value_reader =
  fixes N :: nat and rd :: "('e, 'a) stream_m" and encodes :: "'a \<Rightarrow> bytes \<Rightarrow> bool"
  assumes bound: "N \<le> 2 ^ 63"
    and sound: "s_kind s = None \<Longrightarrow> length (s_input s) < N \<Longrightarrow> rd s = (Inr x, s') \<Longrightarrow>
      \<exists>e. encodes x e \<and> took e s s'"
    and complete: "s_kind s = None \<Longrightarrow> length (s_input s) < N \<Longrightarrow> s_input s = e @ r \<Longrightarrow>
      encodes x e \<Longrightarrow> room (length e) s \<Longrightarrow> \<exists>s'. rd s = (Inr x, s') \<and> took e s s'"
begin

text \<open>No encoding is a proper prefix of another, and each encodes one value.\<close>

lemma prefix_unique:
  assumes "encodes x e" and "encodes y f" and "e @ r = f @ q" and "length (e @ r) < N"
  shows "e = f \<and> x = y"
proof -
  have "\<exists>s'. rd (NewStream (e @ r) False 0) = (Inr x, s') \<and> took e (NewStream (e @ r) False 0) s'"
    by (rule complete[OF _ _ _ assms(1)])
      (use assms(4) in \<open>simp_all add: NewStream_def Stream_Reset_def Let_def room_def listLimit_def zero_stream_def\<close>)
  moreover have "\<exists>s'. rd (NewStream (e @ r) False 0) = (Inr y, s') \<and> took f (NewStream (e @ r) False 0) s'"
    by (rule complete[OF _ _ _ assms(2)])
      (use assms(3,4) in \<open>simp_all add: NewStream_def Stream_Reset_def Let_def room_def listLimit_def zero_stream_def\<close>)
  ultimately show ?thesis using assms(3) by (auto simp: took_def NewStream_def Stream_Reset_def Let_def)
qed

end

lemma ahead_took: "ahead k sz h s s1 \<Longrightarrow> took e s1 s' \<Longrightarrow> took (h @ e) s s'"
  unfolding ahead_def by (blast intro: took_from_moved)

lemma ahead_Byte_took: "ahead Byte sz h s s1 \<Longrightarrow> took h s (rearm s1)"
  by (auto simp: ahead_def took_def rearm_def)

lemma ahead_Byte: "ahead Byte sz h s s1 \<Longrightarrow> h = [s_byteval s1] \<and> s_byteval s1 < 0x80 \<and> sz = 0"
  by (simp add: ahead_def)

lemma ahead_header: "ahead k sz h s s1 \<Longrightarrow> header k sz (s_byteval s1) h"
  by (simp add: ahead_def)

lemma ahead_shorter: "ahead k sz h s s1 \<Longrightarrow> length (s_input s1) \<le> length (s_input s)"
  by (simp add: ahead_def)

lemma readFull_ahead:
  assumes "ahead k sz h s s1" and "readFull n s1 = (Inr c, s')" and "length (s_input s) < 2 ^ 63"
  shows "took (h @ c) s s' \<and> length c = n"
proof -
  have "length (s_input s1) < 2 ^ 64" using ahead_shorter[OF assms(1)] assms(3) by simp
  then show ?thesis using readFull_sound[OF assms(2)] ahead_took[OF assms(1)] by blast
qed

lemma readNew_ahead:
  assumes "ahead k sz h s s1" and "readNew n s1 = (Inr c, s')" and "length (s_input s) < 2 ^ 63"
  shows "took (h @ c) s s' \<and> length c = unat n"
  using assms readFull_ahead[OF assms(1) _ assms(3)]
  by (auto simp: readNew_def sm_err_def split: if_splits)

lemma readFull_ahead_complete:
  assumes "ahead k sz h s s1" and "s_input s1 = c @ r" and "length (s_input s) < 2 ^ 63"
    and "room (length h + length c) s"
  shows "\<exists>s'. readFull (length c) s1 = (Inr c, s') \<and> took (h @ c) s s'"
proof -
  have "room (length c) s1" using assms(1,4) unfolding ahead_def by (blast intro: room_moved)
  moreover have "length (s_input s1) < 2 ^ 64" using ahead_shorter[OF assms(1)] assms(3) by simp
  ultimately show ?thesis using readFull_complete[OF assms(2)] ahead_took[OF assms(1)] by blast
qed

lemma rlp_str_cases:
  obtains b where "c = [b]" "b < 0x80" "rlp_str c = [b]"
  | "\<not> (length c = 1 \<and> hd c < 0x80)" "rlp_str c = rlp_head 0x80 0xB7 (length c) @ c"
  by (cases "length c = 1 \<and> hd c < 0x80") (auto simp: rlp_str_def length_Suc_conv)

lemma rlp_str_String:
  "length c = unat sz \<Longrightarrow> \<not> (sz = 1 \<and> c ! 0 < 128) \<Longrightarrow> rlp_str c = rlp_head 0x80 0xB7 (unat (sz :: uint64)) @ c"
  by (cases c) (auto simp: rlp_str_def unat_eq_Suc_0)

lemma unat_of_nat_length: "length c < 2 ^ 63 \<Longrightarrow> unat (of_nat (length c) :: uint64) = length c"
  by (simp add: unat_of_nat)

interpretation stream_Bytes: value_reader "2 ^ 63" Bytes "\<lambda>c e. e = rlp_str c"
proof
  show "(2 :: nat) ^ 63 \<le> 2 ^ 63" ..
next
  fix s x s'
  assume s: "s_kind s = None" "length (s_input s) < 2 ^ 63" and r: "Bytes s = (Inr x, s')"
  from r obtain k sz s1 where kd: "Kind s = (Inr (k, sz), s1)"
    by (auto simp: Bytes_def sm_bind_def split: prod.splits sum.splits)
  from kd obtain h where h: "ahead k sz h s s1" using Kind_sound s by fastforce
  show "\<exists>e. e = rlp_str x \<and> took e s s'"
  proof (cases k)
    case Byte
    then have "x = [s_byteval s1]" "s' = rearm s1"
      using r kd by (simp_all add: Bytes_def sm_bind_def takeByte_def sm_ret_def)
    then show ?thesis using h[unfolded Byte] ahead_Byte ahead_Byte_took by (fastforce simp: rlp_str_def)
  next
    case String
    then have "readNew sz s1 = (Inr x, s')" "\<not> (sz = 1 \<and> x ! 0 < 128)"
      using r kd by (auto simp: Bytes_def sm_bind_def sm_ret_def sm_err_def split: prod.splits sum.splits if_splits)
    then show ?thesis
      using readNew_ahead[OF h _ s(2)] ahead_header[OF h] String by (simp add: rlp_str_String)
  next
    case List
    then show ?thesis using r kd by (simp add: Bytes_def sm_bind_def sm_err_def)
  qed
next
  fix s e r x
  assume s: "s_kind s = None" "length (s_input s) < 2 ^ 63" "s_input s = e @ r" "e = rlp_str x"
    "room (length e) s"
  then have len: "length (s_input s) < 2 ^ 64" by simp
  show "\<exists>s'. Bytes s = (Inr x, s') \<and> took e s s'"
  proof (cases x rule: rlp_str_cases)
    case (1 b)
    with s obtain s1 where "Kind s = (Inr (Byte, 0), s1)" "ahead Byte 0 [b] s s1" "s_byteval s1 = b"
      using Kind_complete[of Byte 0 b "[b]" s r] len by fastforce
    then show ?thesis
      using 1 s(4) ahead_Byte_took by (auto simp: Bytes_def sm_bind_def takeByte_def sm_ret_def)
  next
    case 2
    let ?sz = "of_nat (length x) :: uint64" and ?h = "rlp_head 0x80 0xB7 (length x)"
    have lx: "length x < 2 ^ 63" using s(2,3,4) length_rlp_str_ge[of x] by simp
    note u = unat_of_nat_length[OF lx]
    have small: "?sz < 2 ^ 63" using lx u by (simp add: word_less_nat_alt)
    obtain s1 where s1: "Kind s = (Inr (String, ?sz), s1)" "ahead String ?sz ?h s s1" "s_input s1 = x @ r"
      using Kind_complete[of String ?sz 0 ?h s "x @ r"] s 2 u len by auto
    moreover have "\<exists>s'. readFull (length x) s1 = (Inr x, s') \<and> took (?h @ x) s s'"
      using readFull_ahead_complete[OF s1(2,3) s(2)] s(4,5) 2(2) by simp
    moreover have "\<not> (?sz = 1 \<and> x ! 0 < 128)"
      using 2(1) u by (metis One_nat_def hd_conv_nth length_0_conv nat.simps(3) unat_eq_Suc_0)
    ultimately show ?thesis
      using 2(2) s(4) small u by (auto simp: Bytes_def sm_bind_def readNew_def sm_ret_def)
  qed
qed


text \<open>Operations that read a string and interpret it.\<close>

lemma value_reader_map:
  assumes "value_reader N rd encodes"
    and "\<And>s y s'. s_kind s = None \<Longrightarrow> length (s_input s) < N \<Longrightarrow>
      rd' s = (Inr y, s') \<longleftrightarrow> (\<exists>x. rd s = (Inr x, s') \<and> R x y)"
  shows "value_reader N rd' (\<lambda>y e. \<exists>x. encodes x e \<and> R x y)"
proof
  show "N \<le> 2 ^ 63" by (rule value_reader.bound[OF assms(1)])
next
  fix s x s'
  assume s: "s_kind s = None" "length (s_input s) < N" and "rd' s = (Inr x, s')"
  then obtain y where "rd s = (Inr y, s')" "R y x" using assms(2)[OF s] by blast
  then show "\<exists>e. (\<exists>y. encodes y e \<and> R y x) \<and> took e s s'"
    using value_reader.sound[OF assms(1) s] by blast
next
  fix s e r x
  assume "s_kind s = None" "length (s_input s) < N" "s_input s = e @ r" "\<exists>y. encodes y e \<and> R y x"
    "room (length e) s"
  then show "\<exists>s'. rd' s = (Inr x, s') \<and> took e s s'"
    using assms(2) value_reader.complete[OF assms(1)] by blast
qed

lemma value_reader_less:
  assumes "value_reader N rd encodes" and "M \<le> N"
  shows "value_reader M rd encodes"
  using assms unfolding value_reader_def by (meson less_le_trans order_trans)

lemma stream_op_kinds:
  assumes "rd = sm_bind Kind f" and "s_kind s = None" and "length (s_input s) < 2 ^ 63"
    and "\<And>k sz h s1. Kind s = (Inr (k, sz), s1) \<Longrightarrow> ahead k sz h s s1 \<Longrightarrow>
      f (k, sz) s1 = (Inr y, s') \<longleftrightarrow> (\<exists>x. g (k, sz) s1 = (Inr x, s') \<and> R x y)"
  shows "rd s = (Inr y, s') \<longleftrightarrow> (\<exists>x. sm_bind Kind g s = (Inr x, s') \<and> R x y)"
proof (cases "Kind s")
  case (Pair r s1)
  show ?thesis
  proof (cases r)
    case (Inr p)
    then obtain k sz where p: "Kind s = (Inr (k, sz), s1)" using Pair by (cases p) simp
    moreover obtain h where "ahead k sz h s s1" using Kind_sound[OF p] assms(2,3) by fastforce
    ultimately show ?thesis using assms(1,4) by (simp add: sm_bind_def)
  qed (use Pair assms(1) in \<open>simp add: sm_bind_def\<close>)
qed

definition int_content :: "bytes \<Rightarrow> bool" where
  "int_content c \<longleftrightarrow> c = [] \<or> hd c \<noteq> 0"

lemma be_word_Nil [simp]: "be_word [] = 0"
  by (simp add: be_word_def)

lemma be_word_single [simp]: "be_word [b] = ucast b"
  by (simp add: be_word_def)

lemma byte_not_zero_iff: "unat (b :: byte) \<noteq> 0 \<longleftrightarrow> b \<noteq> 0"
  by (simp add: byte_eq_iff_unat)

lemma be_word_ge_128:
  assumes "1 < length d" and "hd d \<noteq> 0" and "length d \<le> 8"
  shows "\<not> be_word d < 128"
proof -
  from assms(1) obtain b r where d: "d = b # r" "r \<noteq> []" by (cases d) auto
  have "256 ^ 1 \<le> (256 :: nat) ^ length r" using d(2) by (intro power_increasing) (auto simp: Suc_le_eq)
  then have "256 \<le> be_val d" using be_val_ge[of b r] d(1) assms(2) by simp
  then show ?thesis using unat_be_word[OF assms(3)] by (simp add: word_less_nat_alt)
qed

text \<open>The two ways of rejecting an integer that is not canonical.\<close>

lemma uint_content_ok:
  assumes "length d = unat sz" and "unat sz \<le> 8"
  shows "(1 < unat sz \<longrightarrow> hd d \<noteq> 0) \<and> \<not> (sz > 0 \<and> be_word d < 128) \<longleftrightarrow>
    \<not> (sz = 1 \<and> d ! 0 < 128) \<and> int_content d"
proof -
  consider "d = []" | b where "d = [b]" | "1 < length d" by (cases d; cases "tl d") auto
  then show ?thesis
  proof cases
    case 1
    then have "sz = 0" using assms(1) by (simp add: word_unat_eq_iff)
    then show ?thesis using 1 by (simp add: int_content_def)
  next
    case 2
    then have "sz = 1" using assms(1) by (simp add: word_unat_eq_iff)
    then show ?thesis using 2 by (auto simp: int_content_def word_less_nat_alt)
  next
    case 3
    then have "sz \<noteq> 1" "sz > 0" using assms by (auto simp: word_less_nat_alt)
    then show ?thesis using 3 assms be_word_ge_128[of d] by (auto simp: int_content_def)
  qed
qed

lemma stream_uint_Bytes:
  assumes "8 \<le> m" "m \<le> 64" and s: "s_kind s = None" "length (s_input s) < 2 ^ 63"
  shows "stream_uint m s = (Inr v, s') \<longleftrightarrow>
    (\<exists>c. Bytes s = (Inr c, s') \<and> int_content c \<and> length c \<le> m div 8 \<and> v = be_word c)"
  unfolding Bytes_def
proof (rule stream_op_kinds[OF stream_uint_def s])
  fix k sz h s1
  assume h: "ahead k sz h s s1"
  let ?f = "case (k, sz) of (k, sz) \<Rightarrow> case k of
      Byte \<Rightarrow> (\<lambda>s. if s_byteval s = 0 then (Inl ErrCanonInt, s) else sm_bind takeByte (\<lambda>b. sm_ret (ucast b)) s)
    | String \<Rightarrow> if sz > of_nat (m div 8) then sm_err ErrUintOverflow
        else sm_bind (sm_wrap (\<lambda>e. if e = ErrCanonSize then ErrCanonInt else e) (readUint (ucast sz)))
          (\<lambda>v. if sz > 0 \<and> v < 128 then sm_err ErrCanonSize else sm_ret v)
    | List \<Rightarrow> sm_err ErrExpectedString"
  show "?f s1 = (Inr v, s') \<longleftrightarrow> (\<exists>x. (case (k, sz) of (k, sz) \<Rightarrow> case k of
      Byte \<Rightarrow> sm_bind takeByte (\<lambda>b. sm_ret [b])
    | String \<Rightarrow> sm_bind (readNew sz) (\<lambda>b. if sz = 1 \<and> b ! 0 < 128 then sm_err ErrCanonSize else sm_ret b)
    | List \<Rightarrow> sm_err ErrExpectedString) s1 = (Inr x, s') \<and>
      int_content x \<and> length x \<le> m div 8 \<and> v = be_word x)"
  proof (cases k)
    case Byte
    then show ?thesis
      using assms(1) by (auto simp: sm_bind_def takeByte_def sm_ret_def int_content_def)
  next
    case String
    have m8: "unat (of_nat (m div 8) :: uint64) = m div 8" "m div 8 \<le> 8"
      using assms(2) by (simp_all add: unat_of_nat)
    show ?thesis
    proof (cases "sz > of_nat (m div 8)")
      case True
      then have "\<not> unat sz \<le> m div 8" using m8 by (simp add: word_less_nat_alt)
      then show ?thesis
        using True String readNew_ahead[OF h _ s(2)]
        by (auto simp: sm_err_def sm_bind_def sm_ret_def split: prod.splits sum.splits if_splits)
    next
      case False
      then have le: "unat sz \<le> m div 8" "unat sz \<le> 8" using m8 by (auto simp: word_less_nat_alt)
      then have "unat (ucast sz :: byte) = unat sz" using unat_byte_of_nat[of "unat sz"] by simp
      then have l: "?f s1 = (Inr v, s') \<longleftrightarrow> (\<exists>d. readFull (unat sz) s1 = (Inr d, s') \<and>
          v = be_word d \<and> (1 < unat sz \<longrightarrow> hd d \<noteq> 0) \<and> \<not> (sz > 0 \<and> v < 128))"
        using False String le(2) by (auto simp: sm_bind_Inr readUint_iff)
      have "sz < 2 ^ 63" using le by (simp add: word_less_nat_alt)
      then have b: "sm_bind (readNew sz)
          (\<lambda>b. if sz = 1 \<and> b ! 0 < 128 then sm_err ErrCanonSize else sm_ret b) s1 = (Inr x, s') \<longleftrightarrow>
          readFull (unat sz) s1 = (Inr x, s') \<and> \<not> (sz = 1 \<and> x ! 0 < 128)" for x
        by (auto simp: sm_bind_Inr readNew_def)
      have "readFull (unat sz) s1 = (Inr d, s') \<and> v = be_word d \<and> (1 < unat sz \<longrightarrow> hd d \<noteq> 0) \<and>
          \<not> (sz > 0 \<and> v < 128) \<longleftrightarrow> (readFull (unat sz) s1 = (Inr d, s') \<and> \<not> (sz = 1 \<and> d ! 0 < 128)) \<and>
          int_content d \<and> length d \<le> m div 8 \<and> v = be_word d" for d
      proof (cases "readFull (unat sz) s1 = (Inr d, s') \<and> v = be_word d")
        case True
        then show ?thesis using readFull_length[of "unat sz" s1 d] uint_content_ok[of d sz] le by simp
      qed blast
      then show ?thesis unfolding l using String by (simp add: b)
    qed
  qed (simp add: sm_err_def)
qed


lemma int_content_be_word:
  assumes "length c \<le> 8"
  shows "int_content c \<and> v = be_word c \<longleftrightarrow> c = be_bytes (unat v)"
proof
  assume c: "int_content c \<and> v = be_word c"
  then show "c = be_bytes (unat v)"
    using unat_be_word[OF assms] be_bytes_be_val[of c] by (auto simp: int_content_def)
next
  assume c: "c = be_bytes (unat v)"
  then have "v = be_word c" using unat_be_word[OF assms] by (simp add: word_unat_eq_iff)
  moreover have "int_content c"
    using c hd_be_bytes[of "unat v"] by (cases "unat v = 0") (auto simp: int_content_def)
  ultimately show "int_content c \<and> v = be_word c" by simp
qed

lemma value_reader_uint:
  assumes "8 \<le> m" and "m \<le> 64"
  shows "value_reader (2 ^ 63) (stream_uint m)
    (\<lambda>v e. e = rlp_str (be_bytes (unat v)) \<and> length (be_bytes (unat v)) \<le> m div 8)"
proof -
  have "int_content c \<and> length c \<le> m div 8 \<and> v = be_word c \<longleftrightarrow>
      c = be_bytes (unat v) \<and> length c \<le> m div 8" for c v
    using int_content_be_word[of c v] assms(2) by auto
  then have "(\<exists>c. e = rlp_str c \<and> int_content c \<and> length c \<le> m div 8 \<and> v = be_word c) \<longleftrightarrow>
      e = rlp_str (be_bytes (unat v)) \<and> length (be_bytes (unat v)) \<le> m div 8" for v e
    by auto
  then show ?thesis
    using value_reader_map[OF stream_Bytes.value_reader_axioms stream_uint_Bytes[OF assms]] by simp
qed

interpretation stream_Uint64: value_reader "2 ^ 63" Uint64 "\<lambda>v e. e = rlp_str (be_bytes (unat v))"
proof -
  have "length (be_bytes (unat v)) \<le> 8" for v :: uint64
    using length_be_bytes_le[of "unat v" 8] unsigned_less[of v, where ?'a = nat] by simp
  then show "value_reader (2 ^ 63) Uint64 (\<lambda>v e. e = rlp_str (be_bytes (unat v)))"
    using value_reader_uint[of 64] by (simp add: Uint64_def)
qed

lemma sm_bind_assoc: "sm_bind (sm_bind m f) g = sm_bind m (\<lambda>x. sm_bind (f x) g)"
  by (auto simp: sm_bind_def fun_eq_iff split: prod.splits sum.splits)

lemma length_be_bytes_1: "length (be_bytes n) \<le> 1 \<longleftrightarrow> n < 256"
  using length_be_bytes_le[of n 1] length_be_bytes_ge[of 1 n] by fastforce

interpretation stream_Bool: value_reader "2 ^ 63" Bool "\<lambda>b e. e = rlp_str (if b then [1] else [])"
proof -
  have "(if v = 0 then sm_ret False else if v = 1 then sm_ret True else sm_err (ErrInvalidBool v)) t
      = (Inr y, s') \<longleftrightarrow> t = s' \<and> v = (if y then 1 else 0)" for v :: uint64 and t s' y
    by auto
  then have "Bool s = (Inr y, s') \<longleftrightarrow> (\<exists>v. stream_uint 8 s = (Inr v, s') \<and> v = (if y then 1 else 0))" for s y s'
    by (simp add: Bool_def sm_bind_Inr)
  then have "value_reader (2 ^ 63) Bool (\<lambda>y e. \<exists>v :: uint64. (e = rlp_str (be_bytes (unat v)) \<and>
      length (be_bytes (unat v)) \<le> 8 div 8) \<and> v = (if y then 1 else 0))"
    using value_reader_map[OF value_reader_uint[of 8], of Bool "\<lambda>v y. v = (if y then 1 else 0)"] by simp
  moreover have "be_bytes 1 = [1]" by (simp add: be_bytes_pos)
  then have "(\<lambda>y e. \<exists>v :: uint64. (e = rlp_str (be_bytes (unat v)) \<and> length (be_bytes (unat v)) \<le> 8 div 8) \<and>
      v = (if y then 1 else 0)) = (\<lambda>b e. e = rlp_str (if b then [1] else []))"
    by (auto simp: fun_eq_iff)
  ultimately show "value_reader (2 ^ 63) Bool (\<lambda>b e. e = rlp_str (if b then [1] else []))" by simp
qed

lemma ReadBytes_Bytes:
  assumes "n < 2 ^ 63" and s: "s_kind s = None" "length (s_input s) < 2 ^ 63"
  shows "ReadBytes n s = (Inr c, s') \<longleftrightarrow> (\<exists>b. Bytes s = (Inr b, s') \<and> c = b \<and> length b = n)"
  unfolding Bytes_def
proof (rule stream_op_kinds[OF ReadBytes_def s], goal_cases)
  case (1 k sz h s1)
  show ?case
  proof (cases k)
    case String
    have n: "unat (of_nat n :: uint64) = n" using assms(1) by (simp add: unat_of_nat)
    show ?thesis
    proof (cases "of_nat n = sz")
      case True
      then show ?thesis using String n assms(1) readFull_length[of n s1]
        by (auto simp: sm_bind_Inr readNew_def word_less_nat_alt)
    next
      case False
      then have "unat sz \<noteq> n" using False by auto
      then show ?thesis using False String readNew_ahead[OF 1(2) _ s(2)] by (auto simp: sm_bind_Inr)
    qed
  qed (auto simp: sm_bind_Inr takeByte_def)
qed

lemma value_reader_ReadBytes:
  "n < 2 ^ 63 \<Longrightarrow> value_reader (2 ^ 63) (ReadBytes n) (\<lambda>c e. e = rlp_str c \<and> length c = n)"
  using value_reader_map[OF stream_Bytes.value_reader_axioms ReadBytes_Bytes] by simp

lemma BigInt_Bytes:
  assumes s: "s_kind s = None" "length (s_input s) < 2 ^ 63"
  shows "stream_decodeBigInt s = (Inr i, s') \<longleftrightarrow> (\<exists>c. Bytes s = (Inr c, s') \<and> int_content c \<and> i = be_val c)"
proof -
  let ?f = "\<lambda>(k, sz). if k = List then sm_err ErrExpectedString
       else if k = Byte then sm_bind takeByte (\<lambda>b. sm_ret [b])
       else if sz = 0 then (\<lambda>s. (Inr [], rearm s))
       else if sz \<le> 32 then sm_bind (readFull (unat sz)) (\<lambda>b.
         if sz = 1 \<and> b ! 0 < 128 then sm_err ErrCanonSize else sm_ret b)
       else readNew sz"
  have "sm_bind Kind ?f s = (Inr c, s') \<longleftrightarrow> (\<exists>b. Bytes s = (Inr b, s') \<and> c = b)" for c s'
    unfolding Bytes_def
  proof (rule stream_op_kinds[OF refl s], goal_cases)
    case (1 k sz h s1)
    show ?case
    proof (cases k)
      case String
      have "sz \<le> 32 \<Longrightarrow> sz < 2 ^ 63" by (simp add: word_less_nat_alt word_le_nat_alt)
      moreover have "sz = 1 \<Longrightarrow> sz \<le> 32" by simp
      ultimately show ?thesis
        using String by (auto simp: sm_bind_Inr readNew_def readFull_0)
    qed (auto simp: sm_bind_Inr takeByte_def)
  qed
  moreover have "(length c > 0 \<and> c ! 0 = 0) \<longleftrightarrow> \<not> int_content c" for c
    by (cases c) (auto simp: int_content_def)
  ultimately show ?thesis by (auto simp: stream_decodeBigInt_def sm_bind_Inr[of "sm_bind Kind ?f"])
qed


interpretation stream_BigInt: value_reader "2 ^ 63" stream_decodeBigInt "\<lambda>i e. e = rlp_str (be_bytes i)"
proof -
  have "int_content c \<and> i = be_val c \<longleftrightarrow> c = be_bytes i" for c i
    using be_bytes_be_val[of c] hd_be_bytes[of i] by (cases "i = 0") (auto simp: int_content_def)
  then show "value_reader (2 ^ 63) stream_decodeBigInt (\<lambda>i e. e = rlp_str (be_bytes i))"
    using value_reader_map[OF stream_Bytes.value_reader_axioms BigInt_Bytes] by simp
qed

text \<open>\<open>Raw\<close> accepts any header with content behind it.\<close>

definition raw_value :: "bytes \<Rightarrow> bool" where
  "raw_value e \<longleftrightarrow> (\<exists>b. b < 0x80 \<and> e = [b]) \<or> (\<exists>c. e = rlp_head 0x80 0xB7 (length c) @ c) \<or>
     (\<exists>c. e = rlp_list c)"


lemma raw_value_head:
  "raw_value (rlp_head 0x80 0xB7 (length c) @ c)" "raw_value (rlp_head 0xC0 0xF7 (length c) @ c)"
  by (auto simp: raw_value_def rlp_list_def)

lemma Raw_total:
  fixes sz :: uint64
  assumes "\<not> (of_nat (headsize sz) + sz \<ge> 2 ^ 63 \<or> of_nat (headsize sz) + sz < of_nat (headsize sz))"
  shows "unat (of_nat (headsize sz) + sz) - headsize sz = unat sz"
proof -
  have "headsize sz \<le> 9"
    using headsize_rlp_head[of "unat sz"] length_rlp_head_le[of "unat sz"] unsigned_less[of sz, where ?'a = nat] by simp
  then have "unat (of_nat (headsize sz) :: uint64) = headsize sz" by (simp add: unat_of_nat)
  moreover have "of_nat (headsize sz) \<le> of_nat (headsize sz) + sz" using assms by (simp add: not_less)
  then have "unat (of_nat (headsize sz) + sz) = unat (of_nat (headsize sz) :: uint64) + unat sz"
    by (rule unat_plus_simple[THEN iffD1])
  ultimately show ?thesis by simp
qed

lemma Raw_total_fits:
  fixes sz :: uint64
  assumes "headsize sz + unat sz < 2 ^ 63"
  shows "\<not> (of_nat (headsize sz) + sz \<ge> 2 ^ 63 \<or> of_nat (headsize sz) + sz < of_nat (headsize sz))"
proof -
  have "unat (of_nat (headsize sz) :: uint64) = headsize sz" using assms by (simp add: unat_of_nat)
  then have "unat (of_nat (headsize sz) + sz) = headsize sz + unat sz"
    using assms by (simp add: unat_word_ariths)
  then show ?thesis
    using assms \<open>unat (of_nat (headsize sz)) = headsize sz\<close> by (simp add: word_less_nat_alt word_le_nat_alt)
qed

interpretation stream_Raw: value_reader "2 ^ 63" Raw "\<lambda>r e. r = e \<and> raw_value e"
proof
  show "(2 :: nat) ^ 63 \<le> 2 ^ 63" ..
next
  fix s x s'
  assume s: "s_kind s = None" "length (s_input s) < 2 ^ 63" and r: "Raw s = (Inr x, s')"
  from r obtain k sz s1 where kd: "Kind s = (Inr (k, sz), s1)" by (auto simp: Raw_def sm_bind_Inr)
  from kd obtain h where h: "ahead k sz h s s1" using Kind_sound s by fastforce
  have ph: "puthead sm lg sz = rlp_head sm lg (unat sz)" for sm lg
    using puthead_rlp_head[of "unat sz"] unsigned_less[of sz, where ?'a = nat] by simp
  show "\<exists>e. (x = e \<and> raw_value e) \<and> took e s s'"
  proof (cases "k = Byte")
    case True
    then show ?thesis
      using r kd ahead_Byte[of sz h s s1] ahead_Byte_took[of sz h s s1] h
      by (auto simp: Raw_def sm_bind_Inr takeByte_def raw_value_def)
  next
    case False
    then have t: "\<not> (of_nat (headsize sz) + sz \<ge> 2 ^ 63 \<or> of_nat (headsize sz) + sz < of_nat (headsize sz))"
      using r kd by (auto simp: Raw_def sm_bind_Inr Let_def)
    obtain c where c: "readFull (unat sz) s1 = (Inr c, s')"
      "x = (if k = String then puthead 0x80 0xB7 sz else puthead 0xC0 0xF7 sz) @ c"
      using r kd False Raw_total[OF t] by (auto simp: Raw_def sm_bind_Inr Let_def simp del: power_numeral)
    from readFull_ahead[OF h c(1) s(2)] have t: "took (h @ c) s s'" "length c = unat sz" by auto
    then show ?thesis
      using c(2) ph ahead_header[OF h] False raw_value_head[of c] by (cases k) auto
  qed
next
  fix s e r x
  assume s: "s_kind s = None" "length (s_input s) < 2 ^ 63" "s_input s = e @ r" "x = e \<and> raw_value e"
    "room (length e) s"
  then have len: "length (s_input s) < 2 ^ 64" "length e < 2 ^ 63" by simp_all
  have content: "\<exists>s'. Raw s = (Inr e, s') \<and> took e s s'"
    if e: "e = rlp_head sm lg (length c) @ c" and k: "k \<noteq> Byte" "sm = (if k = String then 0x80 else 0xC0)"
      "lg = (if k = String then 0xB7 else 0xF7)" for k sm lg c
  proof -
    let ?sz = "of_nat (length c) :: uint64"
    have c: "length c < 2 ^ 63" using len(2) e by simp
    note u = unat_of_nat_length[OF c]
    have hs: "headsize ?sz = length (rlp_head sm lg (length c))" using headsize_rlp_head c by simp
    obtain s1 where s1: "Kind s = (Inr (k, ?sz), s1)" "ahead k ?sz (rlp_head sm lg (length c)) s s1" "s_input s1 = c @ r"
      using Kind_complete[of k ?sz 0 "rlp_head sm lg (length c)" s "c @ r"] s e k u len(1) by (cases k) auto
    have t: "\<not> (of_nat (headsize ?sz) + ?sz \<ge> 2 ^ 63 \<or> of_nat (headsize ?sz) + ?sz < of_nat (headsize ?sz))"
      by (rule Raw_total_fits) (use len(2) e hs u in simp)
    obtain s' where "readFull (length c) s1 = (Inr c, s')" "took e s s'"
      using readFull_ahead_complete[OF s1(2,3) s(2)] s(5) e by auto
    then have "Raw s = (Inr e, s')"
      unfolding Raw_def sm_bind_Inr
      using s1(1) k e Raw_total[OF t] t u puthead_rlp_head[of "length c"] c
      by (intro exI[of _ "(k, ?sz)"] exI[of _ s1]) (cases k; simp add: sm_bind_Inr Let_def)
    then show ?thesis using \<open>took e s s'\<close> by blast
  qed
  from s(4) consider b where "b < 0x80" "e = [b]" | c where "e = rlp_head 0x80 0xB7 (length c) @ c"
    | c where "e = rlp_head 0xC0 0xF7 (length c) @ c" by (auto simp: raw_value_def rlp_list_def)
  then show "\<exists>s'. Raw s = (Inr x, s') \<and> took e s s'"
  proof cases
    case 1
    with s obtain s1 where "Kind s = (Inr (Byte, 0), s1)" "ahead Byte 0 [b] s s1" "s_byteval s1 = b"
      using Kind_complete[of Byte 0 b "[b]" s r] len by fastforce
    then show ?thesis
      using 1 s(4) ahead_Byte_took by (auto simp: Raw_def sm_bind_def takeByte_def sm_ret_def)
  next
    case 2 then show ?thesis using content[of _ _ _ String] s(4) by simp
  next
    case 3 then show ?thesis using content[of _ _ _ List] s(4) by simp
  qed
qed

end
