(* ===== verification/Rlp_Stream_Lists.thy ===== *)
theory Rlp_Stream_Lists
  imports Rlp_Stream_Correct
begin

section \<open>Lists in a stream\<close>

text \<open>
  Entering a list with \<open>Stream_List\<close>, reading its elements, and leaving it with \<open>ListEnd\<close>
  consumes exactly the encoding of the list.  The limit of the enclosing list is lowered
  by the size of the inner one without a check, and may wrap around when the inner list is
  longer than what is left of the outer one; \<open>ListEnd\<close> then never accepts the outer list,
  since more than all of the input would have to be read from it.
\<close>

definition entered :: "uint64 \<Rightarrow> Stream \<Rightarrow> Stream \<Rightarrow> bool" where
  "entered sz s s1 \<longleftrightarrow> s_input s = rlp_head 0xC0 0xF7 (unat sz) @ s_input s1 \<and> s_kind s1 = None \<and>
     s_stack s1 = sz # sub_limit (length (rlp_head 0xC0 0xF7 (unat sz)) + unat sz) (s_stack s) \<and>
     s_limited s1 = s_limited s \<and>
     (s_limited s \<longrightarrow> s_remaining s1 = s_remaining s - of_nat (length (rlp_head 0xC0 0xF7 (unat sz))))"

lemma took_iff:
  "took e s s' \<longleftrightarrow> s_input s = e @ s_input s' \<and> s_stack s' = sub_limit (length e) (s_stack s) \<and>
     s_limited s' = s_limited s \<and> (s_limited s \<longrightarrow> s_remaining s' = s_remaining s - of_nat (length e)) \<and>
     s_kind s' = None"
proof -
  have "s_input s = e @ s_input s' \<Longrightarrow> length e \<le> length (s_input s) \<and> s_input s' = drop (length e) (s_input s)"
    by simp
  then show ?thesis unfolding took_def moved_def by blast
qed

lemma entered_ahead:
  assumes "ahead List sz h s s1"
  shows "entered sz s
    ((case listLimit s1 of None \<Rightarrow> s1 | Some limit \<Rightarrow> set_limit (limit - sz) s1)
      \<lparr>s_stack := sz # s_stack (case listLimit s1 of None \<Rightarrow> s1 | Some limit \<Rightarrow> set_limit (limit - sz) s1),
       s_kind := None, s_size := 0\<rparr>)"
proof -
  have "moved (length h) s s1" and h: "h = rlp_head 0xC0 0xF7 (unat sz)" "s_input s = h @ s_input s1"
    using assms by (auto simp: ahead_def)
  then have m: "s_stack s1 = sub_limit (length h) (s_stack s)" "s_limited s1 = s_limited s"
    "s_limited s \<longrightarrow> s_remaining s1 = s_remaining s - of_nat (length h)"
    by (simp_all add: moved_def)
  have "of_nat (length h + unat sz) = (of_nat (length h) + sz :: uint64)" by simp
  then show ?thesis
    using m h by (cases "s_stack s")
      (auto simp: entered_def listLimit_def set_limit_def diff_diff_eq split: option.splits)
qed

lemma List_sound:
  assumes "Stream_List s = (Inr sz, s1)" and "s_kind s = None" and "length (s_input s) < 2 ^ 63"
  shows "entered sz s s1"
proof -
  from assms(1) obtain k t where k: "Kind s = (Inr (k, sz), t)" "k = List"
    and s1: "s1 = (case listLimit t of None \<Rightarrow> t | Some limit \<Rightarrow> set_limit (limit - sz) t)
      \<lparr>s_stack := sz # s_stack (case listLimit t of None \<Rightarrow> t | Some limit \<Rightarrow> set_limit (limit - sz) t),
       s_kind := None, s_size := 0\<rparr>"
    by (auto simp: Stream_List_def sm_bind_Inr Let_def split: if_splits)
  obtain h where "ahead List sz h s t" using Kind_sound[OF k(1)] k(2) assms(2,3) by auto
  then show ?thesis unfolding s1 by (rule entered_ahead)
qed

lemma ListEnd_iff:
  "ListEnd s = (Inr (), s') \<longleftrightarrow> listLimit s = Some 0 \<and>
     s' = s\<lparr>s_stack := tl (s_stack s), s_kind := None, s_size := 0\<rparr>"
  by (auto simp: ListEnd_def split: option.splits if_splits) (metis word_neq_0_conv)

lemma leave_list:
  assumes "entered sz s s1" and "took body s1 s2" and "length (s_input s) < 2 ^ 63"
  shows "listLimit s2 = Some (sz - of_nat (length body))"
    and "length body = unat sz \<Longrightarrow>
      took (rlp_list body) s (s2\<lparr>s_stack := tl (s_stack s2), s_kind := None, s_size := 0\<rparr>)"
proof -
  let ?h = "rlp_head 0xC0 0xF7 (unat sz)"
  have m: "s_stack s2 = sub_limit (length body) (s_stack s1)" "s_limited s2 = s_limited s1"
    "s_limited s1 \<longrightarrow> s_remaining s2 = s_remaining s1 - of_nat (length body)"
    "s_input s1 = body @ s_input s2"
    using assms(2) by (simp_all add: took_iff)
  have e: "s_stack s1 = sz # sub_limit (length ?h + unat sz) (s_stack s)" "s_input s = ?h @ s_input s1"
    "s_limited s1 = s_limited s" "s_limited s \<longrightarrow> s_remaining s1 = s_remaining s - of_nat (length ?h)"
    using assms(1) by (simp_all add: entered_def)
  show "listLimit s2 = Some (sz - of_nat (length body))" using m(1) e(1) by (simp add: listLimit_def)
  assume len: "length body = unat sz"
  then have r: "rlp_list body = ?h @ body" by (simp add: rlp_list_def)
  have l: "length ?h + unat sz = length (rlp_list body)" using len r by simp
  have "s_input s = rlp_list body @ s_input s2" using e(2) m(4) r by simp
  moreover have "s_limited s \<longrightarrow> s_remaining s2 = s_remaining s - of_nat (length (rlp_list body))"
    using m(2,3) e(3,4) r by (auto simp: diff_diff_eq)
  ultimately show "took (rlp_list body) s (s2\<lparr>s_stack := tl (s_stack s2), s_kind := None, s_size := 0\<rparr>)"
    using m(1,2) e(1,3) l by (simp add: took_iff)
qed

lemma list_sound:
  assumes "entered sz s s1" and "took body s1 s2" and "ListEnd s2 = (Inr (), s3)"
    and "length (s_input s) < 2 ^ 63"
  shows "took (rlp_list body) s s3 \<and> length body = unat sz"
proof -
  have "listLimit s2 = Some 0" and s3: "s3 = s2\<lparr>s_stack := tl (s_stack s2), s_kind := None, s_size := 0\<rparr>"
    using assms(3) by (simp_all add: ListEnd_iff)
  then have "sz = of_nat (length body)" using leave_list(1)[OF assms(1,2,4)] by simp
  moreover have "length body < 2 ^ 63"
    using assms(1,4) took_length[OF assms(2)] by (simp add: entered_def)
  ultimately have "length body = unat sz" by (simp add: unat_of_nat)
  then show ?thesis using leave_list(2)[OF assms(1,2,4)] s3 by simp
qed

lemma list_complete:
  assumes "s_input s = rlp_list body @ r" and "room (length (rlp_list body)) s"
    and "s_kind s = None" and "length (s_input s) < 2 ^ 63"
  obtains s1 where "Stream_List s = (Inr (of_nat (length body)), s1)"
    and "entered (of_nat (length body)) s s1" and "s_kind s1 = None"
    and "s_input s1 = body @ r" and "room (length body) s1"
    and "listLimit s1 = Some (of_nat (length body))"
    and "\<And>s2. took body s1 s2 \<Longrightarrow> \<exists>s3. ListEnd s2 = (Inr (), s3) \<and> took (rlp_list body) s s3"
proof -
  let ?sz = "of_nat (length body) :: uint64" and ?h = "rlp_head 0xC0 0xF7 (length body)"
  have "length body < 2 ^ 63" using assms(1,4) length_rlp_list_gt[of body] by simp
  note u = unat_of_nat_length[OF this]
  obtain t where t: "Kind s = (Inr (List, ?sz), t)" "ahead List ?sz ?h s t" "s_input t = body @ r"
    using Kind_complete[of List ?sz 0 ?h s "body @ r"] assms u by (auto simp: rlp_list_def)
  define s1 where "s1 = (case listLimit t of None \<Rightarrow> t | Some limit \<Rightarrow> set_limit (limit - ?sz) t)
      \<lparr>s_stack := ?sz # s_stack (case listLimit t of None \<Rightarrow> t | Some limit \<Rightarrow> set_limit (limit - ?sz) t),
       s_kind := None, s_size := 0\<rparr>"
  have l: "Stream_List s = (Inr ?sz, s1)" using t(1) by (simp add: Stream_List_def sm_bind_Inr s1_def Let_def)
  have e: "entered ?sz s s1" unfolding s1_def by (rule entered_ahead[OF t(2)])
  have i: "s_input s1 = body @ r" using e assms(1) u by (simp add: entered_def rlp_list_def)
  have lim: "listLimit s1 = Some ?sz" by (simp add: s1_def listLimit_def)
  have "room (length body) s1"
  proof -
    have "s_limited s \<Longrightarrow> length ?h + length body \<le> unat (s_remaining s)"
      using assms(2) by (simp add: room_def rlp_list_def)
    then show ?thesis
      using e lim u unat_minus_of_nat[of "length ?h" "s_remaining s"] by (auto simp: room_def entered_def)
  qed
  moreover have "\<exists>s3. ListEnd s2 = (Inr (), s3) \<and> took (rlp_list body) s s3" if "took body s1 s2" for s2
    using leave_list[OF e that assms(4)] u by (auto simp: ListEnd_iff)
  ultimately show thesis using that[OF l e _ i _ lim] e by (simp add: entered_def)
qed

subsection \<open>The end of a list\<close>

lemma willRead_not_EOL: "willRead n s \<noteq> (Inl EOL, s')"
  using willRead_error by fastforce

lemma readFull_not_EOL: "readFull n s \<noteq> (Inl EOL, s')"
  using willRead_not_EOL by (auto simp: readFull_def sm_bind_def split: prod.splits sum.splits if_splits)

lemma readByte_not_EOL: "readByte s \<noteq> (Inl EOL, s')"
  using willRead_not_EOL
  by (auto simp: readByte_def sm_bind_def split: prod.splits sum.splits if_splits list.splits)

lemma readUint_not_EOL: "readUint n s \<noteq> (Inl EOL, s')"
  using readByte_not_EOL readFull_not_EOL
  by (auto simp: readUint_def sm_bind_def sm_err_def sm_ret_def Let_def
      split: prod.splits sum.splits if_splits)

lemma Kind_EOL:
  assumes "s_kind s = None"
  shows "Kind s = (Inl EOL, s') \<longleftrightarrow> listLimit s = Some 0 \<and> s' = s"
proof -
  have "stream_readKind s \<noteq> ((k, sz, Some EOL), t)" for k sz t
    using readByte_not_EOL readUint_not_EOL
    by (auto simp: stream_readKind_def readHeadSize_def Let_def split: prod.splits sum.splits if_splits)
  then show ?thesis
    using assms by (auto simp: Kind_def Let_def split: prod.splits option.splits if_splits)
qed

text \<open>\<open>Kind\<close> is a peek: calling it again gives the same answer and changes nothing.\<close>

lemma Kind_again: "Kind s = (r, s1) \<Longrightarrow> Kind s1 = (r, s1)"
  by (auto simp: Kind_def[of s] Let_def split: option.splits prod.splits if_splits)
    (auto simp: Kind_def)

end
