(* ===== verification/Rlp_Decode.thy ===== *)
theory Rlp_Decode
  imports Rlp_Types
begin

section \<open>Decoding into Go values (rlp/decode.go)\<close>

text \<open>
  \<open>makeDecoder\<close> builds the decoder of a type from the decoders of its parts.  A decoder here
  decodes into a fresh zero value and returns it; what a failed decoding leaves behind in
  its target is not modelled.  An error of the stream keeps its identity unless the code
  wraps it into a \<open>decodeError\<close>, which carries a message and a path (\<open>addErrorContext\<close>).

  A loop over the elements of a list, and the recursion of \<open>decodeInterface\<close>, go on as long as
  there is input; they take the number of bytes left as fuel, which is enough because every
  element takes at least one byte (theory \<open>Rlp_Decode_Correct\<close>).
\<close>

datatype dec_msg =
    MsgCanonInt | MsgCanonSize | MsgExpectedList | MsgExpectedString | MsgTooLong | MsgTooShort
  | MsgTooManyElements | MsgListTooFew | MsgTooFewElements | MsgWrongEmpty kind kind

datatype dec_ctx = CtxIndex nat | CtxField string | CtxType gotype

datatype dec_error =
    StreamErr rlp_error
  | DecodeErr dec_msg "dec_ctx list"
  | TypeErr type_error
  | OutOfFuel

type_synonym 'a decoder_m = "(dec_error, 'a) stream_m"
type_synonym decoder = "govalue decoder_m"

fun wrapStreamError :: "dec_error \<Rightarrow> dec_error" where
  "wrapStreamError (StreamErr ErrCanonInt) = DecodeErr MsgCanonInt []"
| "wrapStreamError (StreamErr ErrCanonSize) = DecodeErr MsgCanonSize []"
| "wrapStreamError (StreamErr ErrExpectedList) = DecodeErr MsgExpectedList []"
| "wrapStreamError (StreamErr ErrExpectedString) = DecodeErr MsgExpectedString []"
| "wrapStreamError (StreamErr ErrUintOverflow) = DecodeErr MsgTooLong []"
| "wrapStreamError (StreamErr ErrNotAtEOL) = DecodeErr MsgTooManyElements []"
| "wrapStreamError e = e"

fun addErrorContext :: "dec_ctx \<Rightarrow> dec_error \<Rightarrow> dec_error" where
  "addErrorContext c (DecodeErr m ctx) = DecodeErr m (ctx @ [c])"
| "addErrorContext c e = e"

text \<open>A stream operation inside a decoder, with its error as it is, or wrapped.\<close>

definition plain :: "(rlp_error, 'a) stream_m \<Rightarrow> 'a decoder_m" where
  "plain m = sm_wrap StreamErr m"

definition wrapped :: "(rlp_error, 'a) stream_m \<Rightarrow> 'a decoder_m" where
  "wrapped m = sm_wrap (\<lambda>e. wrapStreamError (StreamErr e)) m"

subsection \<open>Basic types\<close>

definition decodeRawValue :: decoder where
  "decodeRawValue = sm_bind (plain Raw) (\<lambda>r. sm_ret (VBytes (Some r)))"

definition decodeUint :: "nat \<Rightarrow> decoder" where
  "decodeUint bits = sm_bind (wrapped (stream_uint bits)) (\<lambda>i. sm_ret (VUint i))"

definition decodeBool :: decoder where
  "decodeBool = sm_bind (wrapped Bool) (\<lambda>b. sm_ret (VBool b))"

definition decodeString :: decoder where
  "decodeString = sm_bind (wrapped Bytes) (\<lambda>b. sm_ret (VString b))"

definition decodeBigInt :: decoder where
  "decodeBigInt = sm_bind (wrapped stream_decodeBigInt) (\<lambda>i. sm_ret (VBigPtr (Some (int i))))"

definition decodeBigIntNoPtr :: decoder where
  "decodeBigIntNoPtr = sm_bind (wrapped stream_decodeBigInt) (\<lambda>i. sm_ret (VBigInt (int i)))"

definition decodeByteSlice :: decoder where
  "decodeByteSlice = sm_bind (wrapped Bytes) (\<lambda>b. sm_ret (VBytes (Some b)))"

definition decodeByteArray :: "nat \<Rightarrow> decoder" where
  "decodeByteArray n = sm_bind (plain Kind) (\<lambda>(k, sz). case k of
      Byte \<Rightarrow>
        if n = 0 then sm_err (DecodeErr MsgTooLong [])
        else if n > 1 then sm_err (DecodeErr MsgTooShort [])
        else sm_bind takeByte (\<lambda>b. sm_ret (VByteArray [b]))
    | String \<Rightarrow>
        if of_nat n < sz then sm_err (DecodeErr MsgTooLong [])
        else if of_nat n > sz then sm_err (DecodeErr MsgTooShort [])
        else sm_bind (plain (readFull n)) (\<lambda>b.
          if sz = 1 \<and> b ! 0 < 128 then sm_err (wrapStreamError (StreamErr ErrCanonSize))
          else sm_ret (VByteArray b))
    | List \<Rightarrow> sm_err (wrapStreamError (StreamErr ErrExpectedString)))"

subsection \<open>Lists\<close>

text \<open>
  The element loops stop at \<open>EOL\<close>.  The growing of the slice in \<open>decodeSliceElems\<close> is the
  growing of the result list.
\<close>

fun decodeSliceElems :: "nat \<Rightarrow> decoder \<Rightarrow> nat \<Rightarrow> govalue list decoder_m" where
  "decodeSliceElems 0 elemdec i s = (Inl OutOfFuel, s)"
| "decodeSliceElems (Suc fuel) elemdec i s =
    (case elemdec s of
       (Inl e, s') \<Rightarrow>
         if e = StreamErr EOL then (Inr [], s') else (Inl (addErrorContext (CtxIndex i) e), s')
     | (Inr v, s') \<Rightarrow> sm_bind (decodeSliceElems fuel elemdec (Suc i)) (\<lambda>vs. sm_ret (v # vs)) s')"

definition sliceElems :: "decoder \<Rightarrow> govalue list decoder_m" where
  "sliceElems elemdec s = decodeSliceElems (Suc (length (s_input s))) elemdec 0 s"

definition decodeListSlice :: "decoder \<Rightarrow> govalue list decoder_m" where
  "decodeListSlice elemdec = sm_bind (wrapped Stream_List) (\<lambda>size.
     if size = 0 then sm_bind (plain ListEnd) (\<lambda>_. sm_ret [])
     else sm_bind (sliceElems elemdec) (\<lambda>vs. sm_bind (plain ListEnd) (\<lambda>_. sm_ret vs)))"

fun decodeArrayElems :: "nat \<Rightarrow> decoder \<Rightarrow> nat \<Rightarrow> govalue list decoder_m" where
  "decodeArrayElems 0 elemdec i s = (Inr [], s)"
| "decodeArrayElems (Suc n) elemdec i s =
    (case elemdec s of
       (Inl e, s') \<Rightarrow>
         if e = StreamErr EOL then (Inr [], s') else (Inl (addErrorContext (CtxIndex i) e), s')
     | (Inr v, s') \<Rightarrow> sm_bind (decodeArrayElems n elemdec (Suc i)) (\<lambda>vs. sm_ret (v # vs)) s')"

definition decodeListArray :: "nat \<Rightarrow> decoder \<Rightarrow> decoder" where
  "decodeListArray vlen elemdec = sm_bind (wrapped Stream_List) (\<lambda>_.
     sm_bind (decodeArrayElems vlen elemdec 0) (\<lambda>vs.
       if length vs < vlen then sm_err (DecodeErr MsgListTooFew [])
       else sm_bind (wrapped ListEnd) (\<lambda>_. sm_ret (VArray vs))))"

subsection \<open>Pointers\<close>

definition makeSimplePtrDecoder :: "decoder \<Rightarrow> decoder" where
  "makeSimplePtrDecoder dec = sm_bind dec (\<lambda>v. sm_ret (VPtr (Some v)))"

definition makeNilPtrDecoder :: "kind \<Rightarrow> decoder \<Rightarrow> decoder" where
  "makeNilPtrDecoder nilKind dec = sm_bind (wrapped Kind) (\<lambda>(kind, size).
     if kind \<noteq> Byte \<and> size = 0 then
       (if kind \<noteq> nilKind then sm_err (DecodeErr (MsgWrongEmpty kind nilKind) [])
        else (\<lambda>s. (Inr (VPtr None), rearm s)))
     else sm_bind dec (\<lambda>v. sm_ret (VPtr (Some v))))"

subsection \<open>Structs\<close>

definition zeroFields :: "gofield list \<Rightarrow> decoder field list \<Rightarrow> govalue list \<Rightarrow> govalue list" where
  "zeroFields fs flds vs =
    foldl (\<lambda>vs f. vs[fd_index f := zero_value (f_type (fs ! fd_index f))]) vs flds"

fun decodeFields :: "gofield list \<Rightarrow> decoder field list \<Rightarrow> govalue list \<Rightarrow> govalue list decoder_m" where
  "decodeFields fs [] vs s = (Inr vs, s)"
| "decodeFields fs (f # flds) vs s =
    (case fd_info f s of
       (Inr v, s') \<Rightarrow> decodeFields fs flds (vs[fd_index f := v]) s'
     | (Inl e, s') \<Rightarrow>
         if e = StreamErr EOL then
           (if fd_optional f then (Inr (zeroFields fs (f # flds) vs), s')
            else (Inl (DecodeErr MsgTooFewElements []), s'))
         else (Inl (addErrorContext (CtxField (f_name (fs ! fd_index f))) e), s'))"

definition structDecoder :: "gofield list \<Rightarrow> decoder field list \<Rightarrow> decoder" where
  "structDecoder fs flds = sm_bind (wrapped Stream_List) (\<lambda>_.
     sm_bind (decodeFields fs flds (map (\<lambda>f. zero_value (f_type f)) fs)) (\<lambda>vs.
       sm_bind (wrapped ListEnd) (\<lambda>_. sm_ret (VStruct vs))))"

definition makeStructDecoder :: "gofield list \<Rightarrow> (Tags \<Rightarrow> type_error + decoder) list \<Rightarrow>
    type_error + decoder" where
  "makeStructDecoder fs decs = (case structFields fs decs of Inl e \<Rightarrow> Inl e
     | Inr flds \<Rightarrow> Inr (structDecoder fs flds))"

subsection \<open>Interfaces\<close>

text \<open>
  An empty interface receives a byte slice or a slice of interfaces.  \<open>ifaceValue\<close> is the
  part of \<open>decodeInterface\<close> behind the call of \<open>Kind\<close>; the fuel bounds the nesting by the number
  of bytes left.
\<close>

definition ifaceValue :: "decoder \<Rightarrow> kind \<times> uint64 \<Rightarrow> decoder" where
  "ifaceValue elemdec p =
    (if fst p = List then sm_bind (decodeListSlice elemdec)
       (\<lambda>vs. sm_ret (VInterface (Some (TSlice (TInterface True), VSlice (Some vs)))))
     else sm_bind (plain Bytes) (\<lambda>b. sm_ret (VInterface (Some (TSlice (TUint 8), VBytes (Some b))))))"

fun decodeIface :: "nat \<Rightarrow> decoder" where
  "decodeIface 0 = sm_err OutOfFuel"
| "decodeIface (Suc fuel) = sm_bind (plain Kind) (ifaceValue (decodeIface fuel))"

definition decodeInterface :: "bool \<Rightarrow> decoder" where
  "decodeInterface noMethods =
    (if \<not> noMethods then sm_err (TypeErr (NotSerializable (TInterface noMethods)))
     else sm_bind (plain Kind) (\<lambda>p s. ifaceValue (decodeIface (Suc (length (s_input s)))) p s))"

subsection \<open>The decoder of a type\<close>

definition makePtrDecoder :: "gotype \<Rightarrow> Tags \<Rightarrow> decoder \<Rightarrow> decoder" where
  "makePtrDecoder etype ts dec =
    (if \<not> NilOK ts then makeSimplePtrDecoder dec else makeNilPtrDecoder (typeNilKind etype ts) dec)"

definition makeSliceDecoder :: "Tags \<Rightarrow> decoder \<Rightarrow> decoder" where
  "makeSliceDecoder ts dec =
    sm_bind (if Tail ts then sliceElems dec else decodeListSlice dec) (\<lambda>vs. sm_ret (VSlice (Some vs)))"

fun makeDecoder :: "gotype \<Rightarrow> Tags \<Rightarrow> type_error + decoder" where
  "makeDecoder TRawValue ts = Inr decodeRawValue"
| "makeDecoder TBigPtr ts = Inr decodeBigInt"
| "makeDecoder TBigInt ts = Inr decodeBigIntNoPtr"
| "makeDecoder (TPtr t) ts =
    (case makeDecoder t no_tags of Inl e \<Rightarrow> Inl e | Inr dec \<Rightarrow> Inr (makePtrDecoder t ts dec))"
| "makeDecoder (TUint bits) ts = Inr (decodeUint bits)"
| "makeDecoder TBool ts = Inr decodeBool"
| "makeDecoder TString ts = Inr decodeString"
| "makeDecoder (TSlice t) ts =
    (if isByte t then Inr decodeByteSlice
     else case makeDecoder t no_tags of Inl e \<Rightarrow> Inl e | Inr dec \<Rightarrow> Inr (makeSliceDecoder ts dec))"
| "makeDecoder (TArray n t) ts =
    (if isByte t then Inr (decodeByteArray n)
     else case makeDecoder t no_tags of Inl e \<Rightarrow> Inl e | Inr dec \<Rightarrow> Inr (decodeListArray n dec))"
| "makeDecoder (TStruct fs) ts = makeStructDecoder fs (map (\<lambda>f. makeDecoder (f_type f)) fs)"
| "makeDecoder (TInterface noMethods) ts = Inr (decodeInterface noMethods)"
| "makeDecoder TOther ts = Inl (NotSerializable TOther)"

text \<open>\<open>Stream.Decode\<close> and \<open>DecodeBytes\<close>; the latter takes a used stream from a pool.\<close>

definition Stream_Decode :: "gotype \<Rightarrow> decoder" where
  "Stream_Decode t s = (case makeDecoder t no_tags of Inl e \<Rightarrow> (Inl (TypeErr e), s)
     | Inr dec \<Rightarrow> sm_wrap (\<lambda>e. case e of DecodeErr m (c # ctx) \<Rightarrow> addErrorContext (CtxType t) e | _ \<Rightarrow> e) dec s)"

definition Decode :: "Stream \<Rightarrow> bytes \<Rightarrow> bool \<Rightarrow> gotype \<Rightarrow> (dec_error + govalue) \<times> Stream" where
  "Decode pooled data sized t = Stream_Decode t (Stream_Reset data sized 0 pooled)"

definition DecodeBytes :: "Stream \<Rightarrow> bytes \<Rightarrow> gotype \<Rightarrow> dec_error + govalue" where
  "DecodeBytes pooled b t =
    (case Stream_Decode t (Stream_Reset b True (of_nat (length b)) pooled) of
       (Inl e, s) \<Rightarrow> Inl e
     | (Inr v, s) \<Rightarrow> if length (s_input s) > 0 then Inl (StreamErr ErrMoreThanOneValue) else Inr v)"

end
