(* ===== verification/Rlp_Decode_Correct.thy ===== *)
theory Rlp_Decode_Correct
  imports Rlp_Stream_Lists Rlp_Decode
begin

section \<open>Decoders accept exactly the encodings of their type\<close>

text \<open>
  \<open>elem_decoder N dec R\<close> is the contract between a decoder and the code that calls it on the
  elements of a list, on inputs of less than \<open>N\<close> bytes: the contract of \<open>value_reader\<close>, and
  beside it that the end of the list is reported as \<open>EOL\<close> without any effect, that it starts with
  a call of \<open>Kind\<close> (so that a call of \<open>Kind\<close> before it makes no difference), that it takes one
  whole value, and that it does not run out of fuel.
\<close>

definition peeks :: "Stream \<Rightarrow> ('e, 'a) stream_m \<Rightarrow> bool" where
  "peeks s m \<longleftrightarrow> m (snd (Kind s)) = m s \<and> (\<forall>e. fst (Kind s) = Inl e \<longrightarrow> (\<exists>d. fst (m s) = Inl d))"

locale elem_decoder = value_reader N dec encodes for N and dec :: decoder and encodes +
  assumes eol: "s_kind s = None \<Longrightarrow> length (s_input s) < N \<Longrightarrow> listLimit s = Some 0 \<Longrightarrow>
      dec s = (Inl (StreamErr EOL), s)"
    and eol_only: "s_kind s = None \<Longrightarrow> length (s_input s) < N \<Longrightarrow> dec s = (Inl (StreamErr EOL), s') \<Longrightarrow> listLimit s = Some 0 \<and> s' = s"
    and peek: "length (s_input s) < N \<Longrightarrow> peeks s dec"
    and one_value: "encodes v e \<Longrightarrow> raw_value e"
    and fueled: "s_kind s = None \<Longrightarrow> length (s_input s) < N \<Longrightarrow> dec s \<noteq> (Inl OutOfFuel, s')"

subsection \<open>Peeking\<close>

lemma peeks_Kind: "peeks s Kind"
  using Kind_again[of s] by (cases "Kind s") (auto simp: peeks_def)

lemma peeks_bind: "peeks s m \<Longrightarrow> peeks s (sm_bind m f)"
  by (fastforce simp: peeks_def sm_bind_def split: prod.splits sum.splits)

lemma peeks_wrap: "peeks s m \<Longrightarrow> peeks s (sm_wrap g m)"
  by (fastforce simp: peeks_def sm_wrap_def split: prod.splits sum.splits)

lemma peeks_ops [simp]: "peeks s Kind" "peeks s Bytes" "peeks s Raw" "peeks s (stream_uint m)" "peeks s Bool"
  "peeks s stream_decodeBigInt" "peeks s Stream_List"
  by (simp_all add: peeks_Kind peeks_bind Bytes_def Raw_def stream_uint_def Bool_def
      stream_decodeBigInt_def Stream_List_def)

subsection \<open>The end of the list\<close>

definition eol_ok :: "'e \<Rightarrow> ('e, 'a) stream_m \<Rightarrow> bool" where
  "eol_ok c m \<longleftrightarrow> (\<forall>s. s_kind s = None \<longrightarrow> listLimit s = Some 0 \<longrightarrow> m s = (Inl c, s)) \<and>
     (\<forall>s s'. s_kind s = None \<longrightarrow> m s = (Inl c, s') \<longrightarrow> listLimit s = Some 0 \<and> s' = s)"

lemma eol_ok_Kind: "eol_ok EOL Kind"
  by (simp add: eol_ok_def Kind_EOL)

lemma eol_ok_bind:
  assumes "eol_ok c m" and "\<And>x s s'. f x s \<noteq> (Inl c, s')"
  shows "eol_ok c (sm_bind m f)"
  using assms by (fastforce simp: eol_ok_def sm_bind_def split: prod.splits sum.splits)

lemma eol_ok_wrap:
  assumes "eol_ok c m" and "\<And>e. g e = d \<longleftrightarrow> e = c"
  shows "eol_ok d (sm_wrap g m)"
  using assms by (fastforce simp: eol_ok_def sm_wrap_def split: prod.splits sum.splits)

lemma sm_bind_Inl:
  "sm_bind m f s = (Inl e, s') \<longleftrightarrow> m s = (Inl e, s') \<or> (\<exists>x t. m s = (Inr x, t) \<and> f x t = (Inl e, s'))"
  by (auto simp: sm_bind_def split: prod.splits sum.splits)

lemma sm_wrap_Inl: "sm_wrap g m s = (Inl e, s') \<longleftrightarrow> (\<exists>d. m s = (Inl d, s') \<and> e = g d)"
  by (auto simp: sm_wrap_def split: prod.splits sum.splits)

lemma sm_ret_Inl [simp]: "sm_ret x s \<noteq> (Inl e, s')"
  by (simp add: sm_ret_def)

lemma sm_err_Inl [simp]: "sm_err e s = (Inl d, s') \<longleftrightarrow> d = e \<and> s' = s"
  by (auto simp: sm_err_def)

lemma takeByte_Inl [simp]: "takeByte s \<noteq> (Inl e, s')"
  by (simp add: takeByte_def)

lemma readNew_not_EOL: "readNew n s \<noteq> (Inl EOL, s')"
  using readFull_not_EOL by (simp add: readNew_def)

lemma ListEnd_not_EOL: "ListEnd s \<noteq> (Inl EOL, s')"
  by (auto simp: ListEnd_def split: option.splits if_splits)

lemmas not_EOL = readFull_not_EOL readNew_not_EOL readUint_not_EOL ListEnd_not_EOL

lemma eol_ok_ops:
  "eol_ok EOL Bytes" "eol_ok EOL Raw" "eol_ok EOL (stream_uint m)" "eol_ok EOL Stream_List"
proof -
  show "eol_ok EOL Bytes" unfolding Bytes_def
    by (rule eol_ok_bind[OF eol_ok_Kind]) (auto simp: sm_bind_Inl not_EOL split: kind.splits if_splits)
  show "eol_ok EOL Raw" unfolding Raw_def
    by (rule eol_ok_bind[OF eol_ok_Kind]) (auto simp: sm_bind_Inl not_EOL Let_def split: if_splits)
  show "eol_ok EOL (stream_uint m)" unfolding stream_uint_def
    by (rule eol_ok_bind[OF eol_ok_Kind])
      (auto simp: sm_bind_Inl sm_wrap_Inl not_EOL split: kind.splits if_splits)
  show "eol_ok EOL Stream_List" unfolding Stream_List_def
    by (rule eol_ok_bind[OF eol_ok_Kind]) (auto simp: Let_def split: if_splits)
qed

lemma eol_ok_Bool: "eol_ok EOL Bool"
  unfolding Bool_def by (rule eol_ok_bind[OF eol_ok_ops(3)]) (auto split: if_splits)

lemma eol_ok_BigInt: "eol_ok EOL stream_decodeBigInt"
  unfolding stream_decodeBigInt_def sm_bind_assoc
  by (rule eol_ok_bind[OF eol_ok_Kind]) (auto simp: sm_bind_Inl not_EOL split: kind.splits if_splits)

lemma wrapStreamError_EOL: "wrapStreamError (StreamErr e) = StreamErr EOL \<longleftrightarrow> e = EOL"
  by (cases e) simp_all

lemma wrapStreamError_OutOfFuel:
  "wrapStreamError e = OutOfFuel \<longleftrightarrow> e = OutOfFuel" "OutOfFuel = wrapStreamError e \<longleftrightarrow> e = OutOfFuel"
  by (cases e rule: wrapStreamError.cases; simp)+

lemma eol_ok_wrapped:
  "eol_ok EOL m \<Longrightarrow> eol_ok (StreamErr EOL) (wrapped m)"
  "eol_ok EOL m \<Longrightarrow> eol_ok (StreamErr EOL) (plain m)"
  unfolding wrapped_def plain_def by (rule eol_ok_wrap; simp add: wrapStreamError_EOL)+

lemma wrapped_fuel [simp]: "wrapped m s \<noteq> (Inl OutOfFuel, s')" "plain m s \<noteq> (Inl OutOfFuel, s')"
  by (auto simp: wrapped_def plain_def sm_wrap_Inl wrapStreamError_OutOfFuel)

lemma wrapped_Inr [simp]: "wrapped m s = (Inr x, s') \<longleftrightarrow> m s = (Inr x, s')"
    "plain m s = (Inr x, s') \<longleftrightarrow> m s = (Inr x, s')"
  by (simp_all add: wrapped_def plain_def)

lemma peeks_wrapped: "peeks s m \<Longrightarrow> peeks s (wrapped m)" "peeks s m \<Longrightarrow> peeks s (plain m)"
  by (simp_all add: wrapped_def plain_def peeks_wrap)


subsection \<open>Decoders of strings and numbers\<close>

lemma elem_decoder_leaf:
  assumes "value_reader (2 ^ 63) m R" and "eol_ok EOL m" and "\<And>s. peeks s m" and "\<And>x e. R x e \<Longrightarrow> raw_value e"
    and w: "w = plain \<or> w = wrapped"
  shows "elem_decoder (2 ^ 63) (sm_bind (w m) (\<lambda>x. sm_ret (g x))) (\<lambda>v e. \<exists>x. R x e \<and> v = g x)"
proof -
  have i: "w m s = (Inr x, s') \<longleftrightarrow> m s = (Inr x, s')" for s x s' using w by auto
  have "eol_ok (StreamErr EOL) (w m)" using w eol_ok_wrapped[OF assms(2)] by auto
  then have eol: "eol_ok (StreamErr EOL) (sm_bind (w m) (\<lambda>x. sm_ret (g x)))"
    by (rule eol_ok_bind) simp
  have "value_reader (2 ^ 63) (sm_bind (w m) (\<lambda>x. sm_ret (g x))) (\<lambda>v e. \<exists>x. R x e \<and> v = g x)"
    by (rule value_reader_map[OF assms(1)]) (auto simp: sm_bind_Inr i)
  moreover have "peeks s (sm_bind (w m) (\<lambda>x. sm_ret (g x)))" for s
    using w peeks_wrapped[OF assms(3)] by (auto intro: peeks_bind)
  moreover have "sm_bind (w m) (\<lambda>x. sm_ret (g x)) s \<noteq> (Inl OutOfFuel, s')" for s s'
    using w by (auto simp: sm_bind_Inl)
  ultimately show ?thesis
    using eol assms(4) by (auto simp: elem_decoder_def elem_decoder_axioms_def eol_ok_def)
qed

lemma raw_value_str [simp]: "raw_value (rlp_str b)"
  by (cases b rule: rlp_str_cases) (auto simp: raw_value_def)

lemma raw_value_list [simp]: "raw_value (rlp_list b)"
  by (auto simp: raw_value_def)

lemma raw_value_nonempty: "raw_value e \<Longrightarrow> e \<noteq> []"
  by (auto simp: raw_value_def dest: sym[of "[]"])

lemma decodeRawValue_ok: "elem_decoder (2 ^ 63) decodeRawValue (\<lambda>v e. \<exists>r. (r = e \<and> raw_value e) \<and> v = VBytes (Some r))"
  unfolding decodeRawValue_def
  by (rule elem_decoder_leaf[OF stream_Raw.value_reader_axioms]) (auto simp: eol_ok_ops raw_value_nonempty)

lemma decodeUint_ok:
  assumes "8 \<le> bits" and "bits \<le> 64"
  shows "elem_decoder (2 ^ 63) (decodeUint bits) (\<lambda>v e. \<exists>i. (e = rlp_str (be_bytes (unat i)) \<and>
    length (be_bytes (unat i)) \<le> bits div 8) \<and> v = VUint i)"
  unfolding decodeUint_def
  by (rule elem_decoder_leaf[OF value_reader_uint[OF assms]]) (auto simp: eol_ok_ops)

lemma decodeBool_ok: "elem_decoder (2 ^ 63) decodeBool (\<lambda>v e. \<exists>b. e = rlp_str (if b then [1] else []) \<and> v = VBool b)"
  unfolding decodeBool_def
  by (rule elem_decoder_leaf[OF stream_Bool.value_reader_axioms]) (auto simp: eol_ok_Bool)

lemma decodeString_ok: "elem_decoder (2 ^ 63) decodeString (\<lambda>v e. \<exists>b. e = rlp_str b \<and> v = VString b)"
  unfolding decodeString_def
  by (rule elem_decoder_leaf[OF stream_Bytes.value_reader_axioms]) (auto simp: eol_ok_ops)

lemma decodeByteSlice_ok: "elem_decoder (2 ^ 63) decodeByteSlice (\<lambda>v e. \<exists>b. e = rlp_str b \<and> v = VBytes (Some b))"
  unfolding decodeByteSlice_def
  by (rule elem_decoder_leaf[OF stream_Bytes.value_reader_axioms]) (auto simp: eol_ok_ops)

lemma decodeBigInt_ok:
  "elem_decoder (2 ^ 63) decodeBigInt (\<lambda>v e. \<exists>i. e = rlp_str (be_bytes i) \<and> v = VBigPtr (Some (int i)))"
  "elem_decoder (2 ^ 63) decodeBigIntNoPtr (\<lambda>v e. \<exists>i. e = rlp_str (be_bytes i) \<and> v = VBigInt (int i))"
  unfolding decodeBigInt_def decodeBigIntNoPtr_def
  by (rule elem_decoder_leaf[OF stream_BigInt.value_reader_axioms]; auto simp: eol_ok_BigInt)+

lemma decodeByteArray_ReadBytes:
  assumes "n < 2 ^ 63" and s: "s_kind s = None" "length (s_input s) < 2 ^ 63"
  shows "decodeByteArray n s = (Inr v, s') \<longleftrightarrow> (\<exists>b. Bytes s = (Inr b, s') \<and> length b = n \<and> v = VByteArray b)"
proof -
  have "decodeByteArray n s = (Inr v, s') \<longleftrightarrow> (\<exists>b. ReadBytes n s = (Inr b, s') \<and> v = VByteArray b)"
  proof (cases "Kind s")
    case (Pair r s1)
    show ?thesis
    proof (cases r)
      case (Inr p)
      obtain k sz where p: "p = (k, sz)" by (cases p)
      have n: "(of_nat n < sz \<or> sz < of_nat n) \<longleftrightarrow> of_nat n \<noteq> sz" by auto
      show ?thesis
        using Pair Inr p n
        by (cases k) (auto simp: decodeByteArray_def ReadBytes_def sm_bind_Inr takeByte_def)
    qed (use Pair in \<open>simp add: decodeByteArray_def ReadBytes_def sm_bind_Inr\<close>)
  qed
  then show ?thesis by (auto simp: ReadBytes_Bytes[OF assms])
qed

lemma decodeByteArray_ok:
  assumes "n < 2 ^ 63"
  shows "elem_decoder (2 ^ 63) (decodeByteArray n) (\<lambda>v e. \<exists>b. e = rlp_str b \<and> length b = n \<and> v = VByteArray b)"
proof -
  have "value_reader (2 ^ 63) (decodeByteArray n) (\<lambda>v e. \<exists>b. e = rlp_str b \<and> length b = n \<and> v = VByteArray b)"
    by (rule value_reader_map[OF stream_Bytes.value_reader_axioms decodeByteArray_ReadBytes[OF assms]])
  moreover have "eol_ok (StreamErr EOL) (decodeByteArray n)"
    unfolding decodeByteArray_def
    by (rule eol_ok_bind[OF eol_ok_wrapped(2)[OF eol_ok_Kind]])
      (auto simp: sm_bind_Inl plain_def sm_wrap_Inl not_EOL split: kind.splits if_splits)
  moreover have "peeks s (decodeByteArray n)" for s
    unfolding decodeByteArray_def by (intro peeks_bind peeks_wrapped peeks_Kind)
  moreover have "decodeByteArray n s \<noteq> (Inl OutOfFuel, s')" for s s'
    by (auto simp: decodeByteArray_def sm_bind_Inl split: kind.splits if_splits)
  ultimately show ?thesis
    by (auto simp: elem_decoder_def elem_decoder_axioms_def eol_ok_def)
qed


subsection \<open>Lists of elements\<close>

text \<open>The element loop, on the part of the input that belongs to the list.\<close>

lemma took_shorter: "took e s s' \<Longrightarrow> e \<noteq> [] \<Longrightarrow> length (s_input s') < length (s_input s)"
  by (simp add: took_length)

lemma took_unarmed: "took e s s' \<Longrightarrow> s_kind s' = None"
  by (simp add: took_def)

lemma took_listLimit: "took e s s' \<Longrightarrow> listLimit s' = map_option (\<lambda>l. l - of_nat (length e)) (listLimit s)"
  by (simp add: took_def moved_listLimit)

lemma List_entered:
  assumes "Stream_List s = (Inr sz, s1)" and "s_kind s = None" and "length (s_input s) < 2 ^ 63"
  shows "s_kind s1 = None" "length (s_input s1) < 2 ^ 63" "length (s_input s1) < length (s_input s)"
proof -
  have e: "s_input s = rlp_head 0xC0 0xF7 (unat sz) @ s_input s1" "s_kind s1 = None"
    using List_sound[OF assms] by (simp_all add: entered_def)
  then show "s_kind s1 = None" "length (s_input s1) < 2 ^ 63" "length (s_input s1) < length (s_input s)"
    using assms(3) by simp_all
qed

context elem_decoder
begin

lemma slice_elems_sound:
  assumes "decodeSliceElems n dec i s = (Inr vs, s')" and "s_kind s = None" and "length (s_input s) < N"
  shows "\<exists>es. list_all2 encodes vs es \<and> took (concat es) s s' \<and> listLimit s' = Some 0"
  using assms
proof (induction n arbitrary: i s vs)
  case (Suc n)
  show ?case
  proof (cases "dec s")
    case (Pair r t)
    show ?thesis
    proof (cases r)
      case (Inl e)
      then have "vs = []" "listLimit s = Some 0" "s' = s"
        using Suc.prems Pair eol_only by (auto split: if_splits)
      then show ?thesis using Suc.prems(2) by (intro exI[of _ "[]"]) (simp add: took_Nil)
    next
      case (Inr v)
      then obtain ws where ws: "decodeSliceElems n dec (Suc i) t = (Inr ws, s')" "vs = v # ws"
        using Suc.prems(1) Pair by (auto simp: sm_bind_Inr)
      obtain e where e: "encodes v e" "took e s t"
        using sound[OF Suc.prems(2,3)] Pair Inr by blast
      have "length (s_input t) < N" using took_length[OF e(2)] Suc.prems(3) by simp
      from Suc.IH[OF ws(1) took_unarmed[OF e(2)] this] obtain es where
        "list_all2 encodes ws es" "took (concat es) t s'" "listLimit s' = Some 0" by blast
      then show ?thesis
        using e ws(2) took_trans[OF e(2)] by (intro exI[of _ "e # es"]) simp
    qed
  qed
qed simp

lemma slice_elems_complete:
  assumes "list_all2 encodes vs es" and "s_input s = concat es @ r" and "s_kind s = None"
    and "length (s_input s) < N" and "room (length (concat es)) s"
    and "listLimit s = Some (of_nat (length (concat es)))" and "length vs < n"
  shows "\<exists>s'. decodeSliceElems n dec i s = (Inr vs, s') \<and> took (concat es) s s'"
  using assms
proof (induction vs es arbitrary: n i s rule: list_all2_induct)
  case Nil
  then show ?case using eol[of s] took_Nil[of s] by (cases n) simp_all
next
  case (Cons v vs e es)
  then obtain m where n: "n = Suc m" by (cases n) auto
  obtain t where t: "dec s = (Inr v, t)" "took e s t"
    using complete[OF Cons.prems(2,3) _ Cons.hyps(1), of "concat es @ r"] Cons.prems(1)
      room_mono[OF Cons.prems(4)] by auto
  have i: "s_input t = concat es @ r" "length (s_input t) < N"
    using t(2) Cons.prems(1,3) by (simp_all add: took_def)
  have r: "room (length (concat es)) t"
    using room_took[OF t(2), of "length (concat es)"] Cons.prems(4) by simp
  have l: "listLimit t = Some (of_nat (length (concat es)))"
    using took_listLimit[OF t(2)] Cons.prems(5) by simp
  from Cons.IH[OF i(1) took_unarmed[OF t(2)] i(2) r l, of m "Suc i"] obtain s' where
    "decodeSliceElems m dec (Suc i) t = (Inr vs, s')" "took (concat es) t s'"
    using Cons.prems(6) n by auto
  then show ?case using t took_trans[OF t(2)] n by (simp add: sm_bind_Inr)
qed

lemma slice_elems_fueled:
  assumes "s_kind s = None" and "length (s_input s) < N" and "length (s_input s) < n"
  shows "decodeSliceElems n dec i s \<noteq> (Inl OutOfFuel, s')"
  using assms
proof (induction n arbitrary: i s)
  case (Suc n)
  show ?case
  proof (cases "dec s")
    case (Pair r t)
    show ?thesis
    proof (cases r)
      case (Inl e)
      moreover have "e \<noteq> OutOfFuel" using fueled[OF Suc.prems(1,2)] Pair Inl by blast
      then have "addErrorContext c e \<noteq> OutOfFuel" for c by (cases e) simp_all
      ultimately show ?thesis using Pair by auto
    next
      case (Inr v)
      then obtain e where e: "encodes v e" "took e s t"
        using sound[OF Suc.prems(1,2)] Pair by blast
      then have "length (s_input t) < length (s_input s)" using took_shorter one_value raw_value_nonempty by blast
      then show ?thesis
        using Suc.IH[of t "Suc i"] Suc.prems(2,3) took_unarmed[OF e(2)] Pair Inr by (auto simp: sm_bind_Inl)
    qed
  qed
qed simp

lemma list_all2_nonempty_length: "list_all2 encodes vs es \<Longrightarrow> length vs \<le> length (concat es)"
proof (induction vs es rule: list_all2_induct)
  case (Cons v vs e es)
  then have "e \<noteq> []" using one_value raw_value_nonempty by blast
  then show ?case using Cons by (cases e) simp_all
qed simp

lemma sliceElems_complete:
  assumes "list_all2 encodes vs es" and "s_input s = concat es @ r" and "s_kind s = None"
    and "length (s_input s) < N" and "room (length (concat es)) s"
    and "listLimit s = Some (of_nat (length (concat es)))"
  shows "\<exists>s'. sliceElems dec s = (Inr vs, s') \<and> took (concat es) s s'"
proof -
  have "length vs \<le> length (s_input s)" using list_all2_nonempty_length[OF assms(1)] assms(2) by simp
  then show ?thesis unfolding sliceElems_def by (intro slice_elems_complete[OF assms]) simp
qed

lemma decodeListSlice_ok:
  assumes "M \<le> Suc N" and M: "M \<le> 2 ^ 63"
  shows "value_reader M (decodeListSlice dec) (\<lambda>vs e. \<exists>es. list_all2 encodes vs es \<and> e = rlp_list (concat es))"
proof
  show "M \<le> 2 ^ 63" by (rule M)
next
  fix s x s'
  assume s: "s_kind s = None" "length (s_input s) < M" and r: "decodeListSlice dec s = (Inr x, s')"
  have len: "length (s_input s) < 2 ^ 63" using s(2) M by simp
  obtain sz s1 where s1: "Stream_List s = (Inr sz, s1)" using r by (auto simp: decodeListSlice_def sm_bind_Inr)
  note en = List_sound[OF s1 s(1) len] and k = List_entered[OF s1 s(1) len]
  have kN: "length (s_input s1) < N" using k(3) s(2) assms(1) by simp
  show "\<exists>e. (\<exists>es. list_all2 encodes x es \<and> e = rlp_list (concat es)) \<and> took e s s'"
  proof (cases "sz = 0")
    case True
    then have "ListEnd s1 = (Inr (), s')" "x = []"
      using r s1 by (auto simp: decodeListSlice_def sm_bind_Inr)
    then show ?thesis using list_sound[OF en took_Nil[OF k(1)] _ len] by (intro exI[of _ "rlp_list []"]) auto
  next
    case False
    then obtain t where t: "sliceElems dec s1 = (Inr x, t)" "ListEnd t = (Inr (), s')"
      using r s1 by (auto simp: decodeListSlice_def sm_bind_Inr)
    obtain es where "list_all2 encodes x es" "took (concat es) s1 t"
      using slice_elems_sound[OF t(1)[unfolded sliceElems_def] k(1) kN] by blast
    then show ?thesis using list_sound[OF en _ t(2) len] by blast
  qed
next
  fix s e r x
  assume s: "s_kind s = None" "length (s_input s) < M" "s_input s = e @ r"
    "\<exists>es. list_all2 encodes x es \<and> e = rlp_list (concat es)" "room (length e) s"
  have len: "length (s_input s) < 2 ^ 63" using s(2) M by simp
  from s(4) obtain es where es: "list_all2 encodes x es" "e = rlp_list (concat es)" by blast
  obtain s1 where s1: "Stream_List s = (Inr (of_nat (length (concat es))), s1)" "s_kind s1 = None"
      "s_input s1 = concat es @ r" "room (length (concat es)) s1"
      "listLimit s1 = Some (of_nat (length (concat es)))"
    and fin: "\<And>s2. took (concat es) s1 s2 \<Longrightarrow> \<exists>s3. ListEnd s2 = (Inr (), s3) \<and> took (rlp_list (concat es)) s s3"
    using list_complete[of s "concat es" r] s es(2) len by metis
  note k = List_entered[OF s1(1) s(1) len]
  have kN: "length (s_input s1) < N" using k(3) s(2) assms(1) by simp
  show "\<exists>s'. decodeListSlice dec s = (Inr x, s') \<and> took e s s'"
  proof (cases "of_nat (length (concat es)) = (0 :: uint64)")
    case True
    have "length (concat es) < 2 ^ 63" using k(2) s1(3) by simp
    then have "concat es = []" using True unat_of_nat_length[of "concat es"] by (metis length_0_conv unsigned_0)
    then have "x = []" using list_all2_nonempty_length[OF es(1)] unfolding \<open>concat es = []\<close> by simp
    then show ?thesis
      using fin[OF took_Nil[OF s1(2), folded \<open>concat es = []\<close>]] s1(1) es(2) True
      by (auto simp: decodeListSlice_def sm_bind_Inr)
  next
    case False
    obtain t where "sliceElems dec s1 = (Inr x, t)" "took (concat es) s1 t"
      using sliceElems_complete[OF es(1) s1(3,2) kN s1(4,5)] by blast
    then show ?thesis using fin s1(1) es(2) False by (fastforce simp: decodeListSlice_def sm_bind_Inr)
  qed
qed

end

text \<open>Errors inside a list never look like the end of the enclosing list.\<close>

lemma addErrorContext_EOL:
  "addErrorContext c e = StreamErr EOL \<longleftrightarrow> e = StreamErr EOL" "StreamErr EOL = addErrorContext c e \<longleftrightarrow> e = StreamErr EOL"
  "addErrorContext c e = OutOfFuel \<longleftrightarrow> e = OutOfFuel" "OutOfFuel = addErrorContext c e \<longleftrightarrow> e = OutOfFuel"
  by (cases e; auto)+

lemma slice_elems_not_EOL: "decodeSliceElems n dec i s \<noteq> (Inl (StreamErr EOL), s')"
  by (induction n arbitrary: i s)
    (auto simp: sm_bind_Inl addErrorContext_EOL split: prod.splits sum.splits)

lemma array_elems_not_EOL: "decodeArrayElems n dec i s \<noteq> (Inl (StreamErr EOL), s')"
  by (induction n arbitrary: i s)
    (auto simp: sm_bind_Inl addErrorContext_EOL split: prod.splits sum.splits)

lemma wrapped_not_EOL: "(\<And>t. m s \<noteq> (Inl EOL, t)) \<Longrightarrow> wrapped m s \<noteq> (Inl (StreamErr EOL), s')"
    "(\<And>t. m s \<noteq> (Inl EOL, t)) \<Longrightarrow> plain m s \<noteq> (Inl (StreamErr EOL), s')"
  by (auto simp: wrapped_def plain_def sm_wrap_Inl wrapStreamError_EOL eq_commute[of "StreamErr EOL"])

lemmas list_not_EOL = slice_elems_not_EOL array_elems_not_EOL wrapped_not_EOL[of ListEnd, OF ListEnd_not_EOL]

lemma list_frame_eol:
  assumes "\<And>sz s s'. body sz s \<noteq> (Inl (StreamErr EOL), s')"
  shows "eol_ok (StreamErr EOL) (sm_bind (wrapped Stream_List) body)"
  by (intro eol_ok_bind eol_ok_wrapped eol_ok_ops assms)

lemma list_frame_peeks: "peeks s (sm_bind (wrapped Stream_List) body)"
  by (intro peeks_bind peeks_wrapped peeks_ops)

lemma list_frame_fueled:
  assumes "\<And>sz s1 s'. s_kind s1 = None \<Longrightarrow> length (s_input s1) < length (s_input s) \<Longrightarrow> body sz s1 \<noteq> (Inl OutOfFuel, s')"
    and "s_kind s = None" and "length (s_input s) < 2 ^ 63"
  shows "sm_bind (wrapped Stream_List) body s \<noteq> (Inl OutOfFuel, s')"
  using assms(1) List_entered[OF _ assms(2,3)] by (auto simp: sm_bind_Inl)

text \<open>A decoder that enters a list, reads what is inside, and leaves it.\<close>

lemma list_frame_reader:
  assumes N: "N \<le> 2 ^ 63" and sound: "\<And>s x s'. s_kind s = None \<Longrightarrow> length (s_input s) < N \<Longrightarrow> inner s = (Inr x, s') \<Longrightarrow>
      \<exists>b. P x b \<and> took b s s'"
    and complete: "\<And>s x b r. s_kind s = None \<Longrightarrow> length (s_input s) < N \<Longrightarrow> s_input s = b @ r \<Longrightarrow> P x b \<Longrightarrow>
      room (length b) s \<Longrightarrow> listLimit s = Some (of_nat (length b)) \<Longrightarrow> \<exists>s'. inner s = (Inr x, s') \<and> took b s s'"
  shows "value_reader N (sm_bind (wrapped Stream_List) (\<lambda>_. sm_bind inner (\<lambda>x.
      sm_bind (wrapped ListEnd) (\<lambda>_. sm_ret (g x))))) (\<lambda>v e. \<exists>x b. P x b \<and> e = rlp_list b \<and> v = g x)"
proof (unfold_locales, goal_cases)
  case (2 s v s')
  then have len: "length (s_input s) < 2 ^ 63" using N by simp
  from 2 obtain sz s1 x t where s1: "Stream_List s = (Inr sz, s1)" and x: "inner s1 = (Inr x, t)"
    and e: "ListEnd t = (Inr (), s')" "v = g x"
    by (auto simp: sm_bind_Inr)
  note en = List_sound[OF s1 2(1) len] and k = List_entered[OF s1 2(1) len]
  obtain b where "P x b" "took b s1 t" using sound[OF k(1) _ x] k(3) 2(2) by auto
  then show ?case using list_sound[OF en _ e(1) len] e(2) by blast
next
  case (3 s e r v)
  then have len: "length (s_input s) < 2 ^ 63" using N by simp
  from 3 obtain x b where x: "P x b" "e = rlp_list b" "v = g x" by blast
  obtain s1 where s1: "Stream_List s = (Inr (of_nat (length b)), s1)"
      "s_kind s1 = None" "s_input s1 = b @ r" "room (length b) s1" "listLimit s1 = Some (of_nat (length b))"
    and fin: "\<And>s2. took b s1 s2 \<Longrightarrow> \<exists>s3. ListEnd s2 = (Inr (), s3) \<and> took (rlp_list b) s s3"
    using list_complete[of s b r] 3 x(2) len by metis
  have "length (s_input s1) < N" using List_entered(3)[OF s1(1) 3(1) len] 3(2) by simp
  then obtain t where "inner s1 = (Inr x, t)" "took b s1 t"
    using complete[OF s1(2) _ s1(3) x(1) s1(4,5)] by blast
  then show ?case using fin s1(1) x(2,3) by (fastforce simp: sm_bind_Inr)
qed (rule N)

context elem_decoder
begin

lemma decodeListSlice_elem:
  assumes "M \<le> Suc N" and M: "M \<le> 2 ^ 63"
  shows "elem_decoder M (sm_bind (decodeListSlice dec) (\<lambda>vs. sm_ret (g vs)))
    (\<lambda>v e. \<exists>vs. (\<exists>es. list_all2 encodes vs es \<and> e = rlp_list (concat es)) \<and> v = g vs)"
proof -
  let ?m = "sm_bind (decodeListSlice dec) (\<lambda>vs. sm_ret (g vs))"
  have "eol_ok (StreamErr EOL) (decodeListSlice dec)" "peeks s (decodeListSlice dec)" for s
    unfolding decodeListSlice_def sliceElems_def
    by (rule list_frame_eol, auto simp: sm_bind_Inl list_not_EOL simp del: decodeSliceElems.simps split: if_splits)
      (rule list_frame_peeks)
  then have "eol_ok (StreamErr EOL) ?m" "peeks s ?m" for s by (auto intro: eol_ok_bind peeks_bind)
  moreover have "?m s \<noteq> (Inl OutOfFuel, s')" if "s_kind s = None" "length (s_input s) < M" for s s'
  proof -
    have "length (s_input s) < 2 ^ 63" using that(2) M by simp
    then have "decodeListSlice dec s \<noteq> (Inl OutOfFuel, t)" for t
      unfolding decodeListSlice_def sliceElems_def using that(2) assms(1)
      by (intro list_frame_fueled that(1))
        (auto simp: sm_bind_Inl slice_elems_fueled simp del: decodeSliceElems.simps)
    then show ?thesis by (simp add: sm_bind_Inl)
  qed
  moreover have "value_reader M ?m (\<lambda>v e. \<exists>vs. (\<exists>es. list_all2 encodes vs es \<and> e = rlp_list (concat es)) \<and> v = g vs)"
    by (rule value_reader_map[OF decodeListSlice_ok[OF assms]]) (auto simp: sm_bind_Inr)
  ultimately show ?thesis by (auto simp: elem_decoder_def elem_decoder_axioms_def eol_ok_def)
qed

lemma array_elems_sound:
  assumes "decodeArrayElems n dec i s = (Inr vs, s')" and "s_kind s = None" and "length (s_input s) < N"
  shows "\<exists>es. list_all2 encodes vs es \<and> took (concat es) s s' \<and> length vs \<le> n"
  using assms
proof (induction n arbitrary: i s vs)
  case 0
  then show ?case using took_Nil[of s] by (intro exI[of _ "[]"]) simp
next
  case (Suc n)
  show ?case
  proof (cases "dec s")
    case (Pair r t)
    show ?thesis
    proof (cases r)
      case (Inl e)
      then have "vs = []" "s' = s" using Suc.prems Pair eol_only by (auto split: if_splits)
      then show ?thesis using Suc.prems(2) by (intro exI[of _ "[]"]) (simp add: took_Nil)
    next
      case (Inr v)
      then obtain ws where ws: "decodeArrayElems n dec (Suc i) t = (Inr ws, s')" "vs = v # ws"
        using Suc.prems(1) Pair by (auto simp: sm_bind_Inr)
      obtain e where e: "encodes v e" "took e s t"
        using sound[OF Suc.prems(2,3)] Pair Inr by blast
      have "length (s_input t) < N" using took_length[OF e(2)] Suc.prems(3) by simp
      from Suc.IH[OF ws(1) took_unarmed[OF e(2)] this] obtain es where
        "list_all2 encodes ws es" "took (concat es) t s'" "length ws \<le> n" by blast
      then show ?thesis
        using e ws(2) took_trans[OF e(2)] by (intro exI[of _ "e # es"]) simp
    qed
  qed
qed

lemma array_elems_complete:
  assumes "list_all2 encodes vs es" and "s_input s = concat es @ r" and "s_kind s = None"
    and "length (s_input s) < N" and "room (length (concat es)) s"
  shows "\<exists>s'. decodeArrayElems (length vs) dec i s = (Inr vs, s') \<and> took (concat es) s s'"
  using assms
proof (induction vs es arbitrary: i s rule: list_all2_induct)
  case Nil
  then show ?case using took_Nil[of s] by simp
next
  case (Cons v vs e es)
  obtain t where t: "dec s = (Inr v, t)" "took e s t"
    using complete[OF Cons.prems(2,3) _ Cons.hyps(1), of "concat es @ r"] Cons.prems(1)
      room_mono[OF Cons.prems(4)] by auto
  have i: "s_input t = concat es @ r" "length (s_input t) < N"
    using t(2) Cons.prems(1,3) by (simp_all add: took_def)
  have r: "room (length (concat es)) t"
    using room_took[OF t(2), of "length (concat es)"] Cons.prems(4) by simp
  from Cons.IH[OF i(1) took_unarmed[OF t(2)] i(2) r, of "Suc i"] obtain s' where
    "decodeArrayElems (length vs) dec (Suc i) t = (Inr vs, s')" "took (concat es) t s'" by blast
  then show ?case using t took_trans[OF t(2)] by (simp add: sm_bind_Inr)
qed

lemma array_elems_fueled:
  assumes "s_kind s = None" and "length (s_input s) < N"
  shows "decodeArrayElems n dec i s \<noteq> (Inl OutOfFuel, s')"
  using assms
proof (induction n arbitrary: i s)
  case (Suc n)
  have "dec s \<noteq> (Inl OutOfFuel, t)" for t by (rule fueled[OF Suc.prems])
  moreover have "decodeArrayElems n dec (Suc i) t \<noteq> (Inl OutOfFuel, s')" if d: "dec s = (Inr v, t)" for v t
  proof -
    obtain e where e: "took e s t" using sound[OF Suc.prems d] by blast
    then show ?thesis using Suc took_length[OF e] took_unarmed[OF e] by simp
  qed
  ultimately show ?case by (auto simp: sm_bind_Inl addErrorContext_EOL split: prod.splits sum.splits)
qed simp

lemma decodeListArray_elem:
  "elem_decoder N (decodeListArray n dec) (\<lambda>v e. \<exists>vs b. (length vs = n \<and> (\<exists>es. list_all2 encodes vs es \<and>
    b = concat es)) \<and> e = rlp_list b \<and> v = VArray vs)"
proof -
  let ?inner = "sm_bind (decodeArrayElems n dec 0) (\<lambda>vs.
      if length vs < n then sm_err (DecodeErr MsgListTooFew []) else sm_ret vs)"
  let ?P = "\<lambda>vs b. length vs = n \<and> (\<exists>es. list_all2 encodes vs es \<and> b = concat es)"
  have m: "decodeListArray n dec = sm_bind (wrapped Stream_List) (\<lambda>_. sm_bind ?inner (\<lambda>vs.
      sm_bind (wrapped ListEnd) (\<lambda>_. sm_ret (VArray vs))))"
    unfolding decodeListArray_def sm_bind_assoc
    by (intro arg_cong[of _ _ "sm_bind _"] ext) (auto simp: sm_bind_def sm_err_def sm_ret_def)
  have "value_reader N (decodeListArray n dec) (\<lambda>v e. \<exists>vs b. ?P vs b \<and> e = rlp_list b \<and> v = VArray vs)"
    unfolding m
  proof (rule list_frame_reader[OF bound])
    fix s x s' assume "s_kind s = None" "length (s_input s) < N" "?inner s = (Inr x, s')"
    then show "\<exists>b. ?P x b \<and> took b s s'"
      using array_elems_sound[of n 0 s x s'] by (auto simp: sm_bind_Inr)
  next
    fix s x b r assume "s_kind s = None" "length (s_input s) < N" "s_input s = b @ r" "?P x b" "room (length b) s"
    then show "\<exists>s'. ?inner s = (Inr x, s') \<and> took b s s'"
      using array_elems_complete[of x _ s r 0] by (fastforce simp: sm_bind_Inr)
  qed
  moreover have "eol_ok (StreamErr EOL) (decodeListArray n dec)" "peeks s (decodeListArray n dec)" for s
    unfolding decodeListArray_def
    by (rule list_frame_eol, auto simp: sm_bind_Inl list_not_EOL split: if_splits) (rule list_frame_peeks)
  moreover have "decodeListArray n dec s \<noteq> (Inl OutOfFuel, s')"
    if "s_kind s = None" "length (s_input s) < N" for s s'
    unfolding decodeListArray_def using that bound
    by (intro list_frame_fueled) (auto simp: sm_bind_Inl array_elems_fueled split: if_splits)
  ultimately show ?thesis by (auto simp: elem_decoder_def elem_decoder_axioms_def eol_ok_def)
qed

subsection \<open>Pointers\<close>

lemma simple_ptr_elem:
  "elem_decoder N (makeSimplePtrDecoder dec) (\<lambda>v e. \<exists>w. encodes w e \<and> v = VPtr (Some w))"
proof -
  have "value_reader N (makeSimplePtrDecoder dec) (\<lambda>v e. \<exists>w. encodes w e \<and> v = VPtr (Some w))"
    by (rule value_reader_map[OF value_reader_axioms]) (auto simp: makeSimplePtrDecoder_def sm_bind_Inr)
  moreover have "length (s_input s) < N \<Longrightarrow> peeks s (makeSimplePtrDecoder dec)" for s
    using peek by (simp add: makeSimplePtrDecoder_def peeks_bind)
  ultimately show ?thesis
    using eol eol_only one_value fueled
    by (auto simp: elem_decoder_def elem_decoder_axioms_def makeSimplePtrDecoder_def sm_bind_Inl)
qed

end

text \<open>The encoding of an empty value of a kind, and the first byte of a header.\<close>

definition empty_value :: "kind \<Rightarrow> bytes" where
  "empty_value k = (if k = String then [0x80] else [0xC0])"

lemma rlp_head_first:
  assumes "rlp_head sm lg (unat (sz :: uint64)) = x # t" and "sm = 0x80 \<and> lg = 0xB7 \<or> sm = 0xC0 \<and> lg = 0xF7"
  shows "unat x = (if unat sz < 56 then unat sm + unat sz else unat lg + length (be_bytes (unat sz)))"
    and "unat sz < 56 \<Longrightarrow> t = []" and "\<not> unat sz < 56 \<Longrightarrow> 0 < length (be_bytes (unat sz)) \<and> length (be_bytes (unat sz)) \<le> 8"
proof -
  show "\<not> unat sz < 56 \<Longrightarrow> 0 < length (be_bytes (unat sz)) \<and> length (be_bytes (unat sz)) \<le> 8"
    using length_be_bytes_size[of sz] by simp
  then show "unat x = (if unat sz < 56 then unat sm + unat sz else unat lg + length (be_bytes (unat sz)))"
    using assms by (auto simp: rlp_head_def unat_word_ariths unat_ucast_small split: if_splits)
  show "unat sz < 56 \<Longrightarrow> t = []" using assms(1) by (simp add: rlp_head_def)
qed

lemma header_first:
  assumes "header k sz b (x # t)"
  shows "x = 0x80 \<Longrightarrow> k = String \<and> sz = 0 \<and> t = []" and "x = 0xC0 \<Longrightarrow> k = List \<and> sz = 0 \<and> t = []"
proof -
  have "(x = 0x80 \<longrightarrow> k = String \<and> sz = 0 \<and> t = []) \<and> (x = 0xC0 \<longrightarrow> k = List \<and> sz = 0 \<and> t = [])"
  proof (cases k)
    case Byte
    then show ?thesis using assms by auto
  next
    case String
    then have h: "rlp_head 0x80 0xB7 (unat sz) = x # t" using assms by simp
    show ?thesis using rlp_head_first[OF h] String by (auto simp: word_unat_eq_iff split: if_splits)
  next
    case List
    then have h: "rlp_head 0xC0 0xF7 (unat sz) = x # t" using assms by simp
    show ?thesis using rlp_head_first[OF h] List by (auto simp: word_unat_eq_iff split: if_splits)
  qed
  then show "x = 0x80 \<Longrightarrow> k = String \<and> sz = 0 \<and> t = []" and "x = 0xC0 \<Longrightarrow> k = List \<and> sz = 0 \<and> t = []"
    by blast+
qed

lemma header_empty: "k \<noteq> Byte \<Longrightarrow> header k 0 b h \<longleftrightarrow> h = empty_value k"
  by (cases k) (auto simp: empty_value_def rlp_head_def)

text \<open>A whole value that starts like an empty one is the empty one.\<close>

lemma raw_value_header:
  assumes "raw_value e" and "length e < 2 ^ 64"
  shows "\<exists>k sz b h c. header k sz b h \<and> e = h @ c \<and> (if k = Byte then c = [] else length c = unat sz)"
proof -
  have u: "unat (of_nat (length c) :: uint64) = length c" if "length c < 2 ^ 64" for c :: bytes
    using that by (simp add: unat_of_nat)
  from assms(1) consider b where "b < 0x80" "e = [b]" | c where "e = rlp_head 0x80 0xB7 (length c) @ c"
    | c where "e = rlp_head 0xC0 0xF7 (length c) @ c" by (auto simp: raw_value_def rlp_list_def)
  then show ?thesis
  proof cases
    case (1 b)
    then show ?thesis by (intro exI[of _ Byte] exI[of _ 0] exI[of _ b] exI[of _ "[b]"] exI[of _ "[]"]) simp
  next
    case (2 c)
    then show ?thesis
      using u[of c] assms(2)
      by (intro exI[of _ String] exI[of _ "of_nat (length c)"] exI[of _ 0] exI[of _ "rlp_head 0x80 0xB7 (length c)"] exI[of _ c]) simp
  next
    case (3 c)
    then show ?thesis
      using u[of c] assms(2)
      by (intro exI[of _ List] exI[of _ "of_nat (length c)"] exI[of _ 0] exI[of _ "rlp_head 0xC0 0xF7 (length c)"] exI[of _ c]) simp
  qed
qed

lemma raw_value_empty:
  assumes "raw_value (x # t)" and "length (x # t) < 2 ^ 64" and "x = 0x80 \<or> x = 0xC0"
  shows "t = []"
proof -
  obtain k sz b h c where h: "header k sz b h" "x # t = h @ c" "if k = Byte then c = [] else length c = unat sz"
    using raw_value_header[OF assms(1,2)] by blast
  have "h \<noteq> []" using h(1) by (cases k) auto
  then obtain h' where "h = x # h'" using h(2) by (cases h) auto
  then have "k \<noteq> Byte \<and> sz = 0 \<and> h' = []" using header_first[of k sz b x h'] h(1) assms(3) by auto
  then show ?thesis using h(2,3) \<open>h = x # h'\<close> by simp
qed

lemma raw_value_empty_value: "k \<noteq> Byte \<Longrightarrow> raw_value (empty_value k)"
  using raw_value_head[of "[]"] by (cases k) (auto simp: empty_value_def rlp_head_def)

context elem_decoder
begin

lemma dec_peek:
  assumes "Kind s = (r, s1)" and "length (s_input s) < N"
  shows "dec s1 = dec s" and "dec s = (Inr v, s') \<Longrightarrow> \<exists>p. r = Inr p"
  using peek[OF assms(2)] assms(1) by (auto simp: peeks_def, cases r, auto)

lemma nil_ptr_reader:
  assumes nk: "nk \<noteq> Byte"
  shows "value_reader N (makeNilPtrDecoder nk dec) (\<lambda>v e. v = VPtr None \<and> e = empty_value nk \<or>
    (\<exists>w. encodes w e \<and> v = VPtr (Some w) \<and> e \<noteq> empty_value String \<and> e \<noteq> empty_value List))"
proof (unfold_locales, goal_cases)
  case (2 s v s')
  then have len: "length (s_input s) < 2 ^ 64" using bound by simp
  from 2(3) obtain k sz s1 where kd: "Kind s = (Inr (k, sz), s1)"
    by (auto simp: makeNilPtrDecoder_def sm_bind_Inr)
  obtain h where h: "ahead k sz h s s1" using Kind_sound[OF kd len 2(1)] by blast
  show ?case
  proof (cases "k \<noteq> Byte \<and> sz = 0")
    case True
    then have "k = nk" "v = VPtr None" "s' = rearm s1"
      using 2(3) kd by (auto simp: makeNilPtrDecoder_def sm_bind_Inr split: if_splits)
    moreover have "h = empty_value k" using ahead_header[OF h] True header_empty by simp
    moreover have "took h s (rearm s1)" using h by (auto simp: ahead_def took_def rearm_def)
    ultimately show ?thesis by blast
  next
    case False
    then obtain w where w: "dec s1 = (Inr w, s')" "v = VPtr (Some w)"
      using 2(3) kd by (auto simp: makeNilPtrDecoder_def sm_bind_Inr)
    then obtain e where e: "encodes w e" "took e s s'" using sound[OF 2(1,2)] dec_peek(1)[OF kd 2(2)] by auto
    have "e \<noteq> empty_value k'" for k'
    proof
      assume k': "e = empty_value k'"
      have "s_input s = e @ s_input s'" "s_input s = h @ s_input s1" "h \<noteq> []"
        using e(2) h ahead_header[OF h] by (auto simp: took_def ahead_def header_def kind_head_def split: kind.splits)
      then obtain x t where "h = x # t" "x = 0x80 \<or> x = 0xC0" using k'
        by (cases h) (auto simp: empty_value_def split: if_splits)
      then show False using header_first[of k sz "s_byteval s1" x t] ahead_header[OF h] False by auto
    qed
    then show ?thesis using e w(2) by blast
  qed
next
  case (3 s e r v)
  then have len: "length (s_input s) < 2 ^ 64" using bound by simp
  from 3(4) show ?case
  proof (elim disjE exE conjE)
    assume v: "v = VPtr None" "e = empty_value nk"
    then have "header nk 0 0 e" using nk header_empty by blast
    then obtain s1 where s1: "Kind s = (Inr (nk, 0), s1)" "ahead nk 0 e s s1"
      using Kind_complete[of nk 0 0 e s r] 3 len by auto
    then have "took e s (rearm s1)" by (auto simp: ahead_def took_def rearm_def)
    then show ?thesis using s1(1) v nk by (auto simp: makeNilPtrDecoder_def sm_bind_Inr)
  next
    fix w assume w: "encodes w e" "v = VPtr (Some w)" "e \<noteq> empty_value String" "e \<noteq> empty_value List"
    obtain s' where s': "dec s = (Inr w, s')" "took e s s'" using complete[OF 3(1-3) w(1) 3(5)] by blast
    obtain k sz s1 where kd: "Kind s = (Inr (k, sz), s1)"
      using dec_peek(2)[OF _ 3(2) s'(1)] by (metis prod.exhaust)
    obtain h where h: "ahead k sz h s s1" using Kind_sound[OF kd len 3(1)] by blast
    have "\<not> (k \<noteq> Byte \<and> sz = 0)"
    proof
      assume k: "k \<noteq> Byte \<and> sz = 0"
      then have "h = empty_value k" using ahead_header[OF h] header_empty by simp
      moreover have "s_input s = h @ s_input s1" using h by (simp add: ahead_def)
      ultimately obtain x where x: "x = 0x80 \<or> x = 0xC0" "s_input s = x # s_input s1"
        by (auto simp: empty_value_def split: if_splits)
      moreover have "e \<noteq> []" using one_value[OF w(1)] raw_value_nonempty by blast
      ultimately obtain t where t: "e = x # t" using 3(3) by (cases e) auto
      have "t = []" by (rule raw_value_empty[of x t]) (use one_value[OF w(1)] t 3(3) len x in auto)
      then show False using t x w(3,4) by (auto simp: empty_value_def)
    qed
    then show ?thesis using s' kd w(2) dec_peek(1)[OF kd 3(2)] by (auto simp: makeNilPtrDecoder_def sm_bind_Inr)
  qed
qed (rule bound)

lemma nil_ptr_elem:
  assumes nk: "nk \<noteq> Byte"
  shows "elem_decoder N (makeNilPtrDecoder nk dec) (\<lambda>v e. v = VPtr None \<and> e = empty_value nk \<or>
    (\<exists>w. encodes w e \<and> v = VPtr (Some w) \<and> e \<noteq> empty_value String \<and> e \<noteq> empty_value List))"
proof -
  let ?m = "makeNilPtrDecoder nk dec"
  have k: "eol_ok (StreamErr EOL) (wrapped Kind)" by (rule eol_ok_wrapped(1)[OF eol_ok_Kind])
  have "?m s = (Inl (StreamErr EOL), s)" if "s_kind s = None" "listLimit s = Some 0" for s
    using k that by (simp add: eol_ok_def makeNilPtrDecoder_def sm_bind_Inl)
  moreover have "listLimit s = Some 0 \<and> s' = s \<and> e = StreamErr EOL"
    if s: "s_kind s = None" "length (s_input s) < N" and m: "?m s = (Inl e, s')" "e = StreamErr EOL \<or> e = OutOfFuel"
    for s s' e
  proof (cases "\<exists>p s1. Kind s = (Inr p, s1)")
    case True
    then obtain q sz s1 where kd: "Kind s = (Inr (q, sz), s1)" by auto
    then have "wrapped Kind s \<noteq> (Inl d, t)" for d t by (simp add: wrapped_def sm_wrap_def)
    then have "dec s = (Inl e, s')"
      using kd m dec_peek(1)[OF kd s(2)] by (auto simp: makeNilPtrDecoder_def sm_bind_Inl split: if_splits)
    then have "listLimit s = Some 0" using m(2) s eol_only[OF s] fueled[OF s] by auto
    then show ?thesis using kd Kind_EOL[OF s(1), of s] by simp
  next
    case False
    then have "wrapped Kind s = (Inl e, s')" using m(1) by (auto simp: makeNilPtrDecoder_def sm_bind_Inl)
    then show ?thesis using k s(1) m(2) by (auto simp: eol_ok_def)
  qed
  moreover have "peeks s ?m" for s
    unfolding makeNilPtrDecoder_def by (intro peeks_bind peeks_wrapped peeks_ops)
  ultimately show ?thesis
    using nil_ptr_reader[OF nk] one_value raw_value_empty_value[OF nk]
    by (auto simp: elem_decoder_def elem_decoder_axioms_def)
qed

text \<open>A decoder that agrees on short inputs gives the same list.\<close>

lemma slice_elems_cong:
  assumes "\<And>t. s_kind t = None \<Longrightarrow> length (s_input t) < N \<Longrightarrow> dec' t = dec t"
    and "s_kind s = None" and "length (s_input s) < N"
  shows "decodeSliceElems n dec' i s = decodeSliceElems n dec i s"
  using assms(2,3)
proof (induction n arbitrary: i s)
  case (Suc n)
  have "decodeSliceElems n dec' (Suc i) t = decodeSliceElems n dec (Suc i) t" if t: "dec s = (Inr v, t)" for v t
  proof -
    obtain e where "took e s t" using sound[OF Suc.prems t] by blast
    then show ?thesis using Suc took_length took_unarmed by fastforce
  qed
  then show ?case
    using assms(1)[OF Suc.prems] by (auto simp: sm_bind_def split: prod.splits sum.splits)
qed simp

lemma decodeListSlice_cong:
  assumes "\<And>t. s_kind t = None \<Longrightarrow> length (s_input t) < N \<Longrightarrow> dec' t = dec t"
    and "s_kind s = None" and "length (s_input s) < 2 ^ 63"
    and "\<And>sz t. Stream_List s = (Inr sz, t) \<Longrightarrow> length (s_input t) < N"
  shows "decodeListSlice dec' s = decodeListSlice dec s"
proof -
  have "sliceElems dec' t = sliceElems dec t" if "Stream_List s = (Inr sz, t)" for sz t
  proof -
    have "s_kind t = None" "length (s_input t) < N" using List_entered[OF that assms(2,3)] assms(4)[OF that] by auto
    then show ?thesis unfolding sliceElems_def by (intro slice_elems_cong assms(1))
  qed
  then show ?thesis
    unfolding decodeListSlice_def
    by (auto simp: sm_bind_def wrapped_def sm_wrap_def split: prod.splits sum.splits)
qed

end

end
