(* ===== verification/Rlp_Decode_Types.thy ===== *)
theory Rlp_Decode_Types
  imports Rlp_Decode_Correct
begin

section \<open>What the decoder of a type accepts\<close>

text \<open>
  \<open>typed t ts v e\<close> is the reference definition of decoding: \<open>e\<close> is an encoding of the value \<open>v\<close>
  of type \<open>t\<close>, for a struct field with the tags \<open>ts\<close>.  The theorem \<open>makeDecoder_ok\<close> says that
  the decoder of a type accepts exactly these encodings.
\<close>

subsection \<open>Interfaces\<close>

text \<open>What an interface receives: byte slices and slices of interfaces.\<close>

definition iface_bytes :: "bytes \<Rightarrow> govalue" where
  "iface_bytes b = VInterface (Some (TSlice (TUint 8), VBytes (Some b)))"

definition iface_list :: "govalue list \<Rightarrow> govalue" where
  "iface_list vs = VInterface (Some (TSlice (TInterface True), VSlice (Some vs)))"

fun iface_of :: "rlp_item \<Rightarrow> govalue" where
  "iface_of (RStr b) = iface_bytes b"
| "iface_of (RList xs) = iface_list (map iface_of xs)"

definition iface_typed :: "govalue \<Rightarrow> bytes \<Rightarrow> bool" where
  "iface_typed v e \<longleftrightarrow> (\<exists>it. v = iface_of it \<and> e = rlp_enc it)"

lemma list_all2_iface: "list_all2 iface_typed vs es \<longleftrightarrow> (\<exists>its. vs = map iface_of its \<and> es = map rlp_enc its)"
proof
  show "list_all2 iface_typed vs es \<Longrightarrow> \<exists>its. vs = map iface_of its \<and> es = map rlp_enc its"
  proof (induction vs es rule: list_all2_induct)
    case (Cons v vs e es)
    then obtain it its where "v = iface_of it" "e = rlp_enc it" "vs = map iface_of its" "es = map rlp_enc its"
      by (auto simp: iface_typed_def)
    then show ?case by (intro exI[of _ "it # its"]) simp
  qed simp
qed (auto simp: list_all2_conv_all_nth iface_typed_def)

lemma iface_typed_cases: "iface_typed v e \<longleftrightarrow>
    (\<exists>vs. (\<exists>es. list_all2 iface_typed vs es \<and> e = rlp_list (concat es)) \<and> v = iface_list vs) \<or>
    (\<exists>b. e = rlp_str b \<and> v = iface_bytes b)" (is "_ \<longleftrightarrow> ?L \<or> ?S")
proof
  assume "iface_typed v e"
  then obtain it where "v = iface_of it" "e = rlp_enc it" by (auto simp: iface_typed_def)
  then show "?L \<or> ?S"
  proof (cases it)
    case (RList xs)
    have "list_all2 iface_typed (map iface_of xs) (map rlp_enc xs)" by (auto simp: list_all2_iface)
    then show ?thesis using RList \<open>v = _\<close> \<open>e = _\<close> by auto
  qed auto
next
  assume "?L \<or> ?S"
  then show "iface_typed v e"
  proof
    assume ?L
    then obtain its where "v = iface_list (map iface_of its)" "e = rlp_list (concat (map rlp_enc its))"
      by (auto simp: list_all2_iface)
    then show ?thesis unfolding iface_typed_def by (intro exI[of _ "RList its"]) simp
  next
    assume ?S
    then obtain b where "e = rlp_str b" "v = iface_bytes b" by blast
    then show ?thesis unfolding iface_typed_def by (intro exI[of _ "RStr b"]) simp
  qed
qed

lemma value_reader_or:
  assumes "value_reader N rd1 R1" and "value_reader N rd2 R2"
    and "\<And>s x s'. rd s = (Inr x, s') \<longleftrightarrow> rd1 s = (Inr x, s') \<or> rd2 s = (Inr x, s')"
  shows "value_reader N rd (\<lambda>v e. R1 v e \<or> R2 v e)"
proof
  show "N \<le> 2 ^ 63" by (rule value_reader.bound[OF assms(1)])
next
  fix s x s' assume s: "s_kind s = None" "length (s_input s) < N" and "rd s = (Inr x, s')"
  then consider "rd1 s = (Inr x, s')" | "rd2 s = (Inr x, s')" using assms(3) by blast
  then show "\<exists>e. (R1 x e \<or> R2 x e) \<and> took e s s'"
    using value_reader.sound[OF assms(1) s] value_reader.sound[OF assms(2) s] by cases blast+
next
  fix s e r x assume s: "s_kind s = None" "length (s_input s) < N" "s_input s = e @ r" "R1 x e \<or> R2 x e" "room (length e) s"
  then show "\<exists>s'. rd s = (Inr x, s') \<and> took e s s'"
    using value_reader.complete[OF assms(1) s(1-3)] value_reader.complete[OF assms(2) s(1-3)] assms(3) by blast
qed

lemma elem_decoder_less: "elem_decoder N dec R \<Longrightarrow> M \<le> N \<Longrightarrow> elem_decoder M dec R"
  by (auto simp: elem_decoder_def elem_decoder_axioms_def intro: value_reader_less)

context elem_decoder
begin

lemma iface_step:
  assumes "M \<le> Suc N" and M: "M \<le> 2 ^ 63"
  shows "elem_decoder M (sm_bind (plain Kind) (ifaceValue dec)) (\<lambda>v e.
    (\<exists>vs. (\<exists>es. list_all2 encodes vs es \<and> e = rlp_list (concat es)) \<and> v = iface_list vs) \<or>
    (\<exists>b. e = rlp_str b \<and> v = iface_bytes b))"
proof -
  let ?A = "sm_bind (decodeListSlice dec) (\<lambda>vs. sm_ret (iface_list vs))"
  let ?B = "sm_bind (plain Bytes) (\<lambda>b. sm_ret (iface_bytes b))"
  let ?D = "sm_bind (plain Kind) (ifaceValue dec)"
  note A = decodeListSlice_elem[OF assms, of iface_list]
  have B: "elem_decoder M ?B (\<lambda>v e. \<exists>b. e = rlp_str b \<and> v = iface_bytes b)"
    by (rule elem_decoder_less[OF _ M], rule elem_decoder_leaf[OF stream_Bytes.value_reader_axioms])
      (auto simp: eol_ok_ops)
  have pA: "peeks s ?A" for s unfolding decodeListSlice_def by (intro peeks_bind list_frame_peeks)
  have pB: "peeks s ?B" for s by (intro peeks_bind peeks_wrapped peeks_ops)
  have D: "?D s = (if k = List then ?A s else ?B s)" if "Kind s = (Inr (k, z), s1)" for s k z s1
  proof -
    have "?D s = ifaceValue dec (k, z) s1" using that by (simp add: sm_bind_def plain_def sm_wrap_def)
    also have "\<dots> = (if k = List then ?A s1 else ?B s1)"
      by (simp add: ifaceValue_def iface_list_def iface_bytes_def)
    finally show ?thesis using pA[of s] pB[of s] that by (simp add: peeks_def)
  qed
  have Da: "?D s = ?A s \<or> ?D s = ?B s" if "fst (Kind s) = Inr p" for s p
    using D[of s "fst p" "snd p" "snd (Kind s)"] that by (cases "Kind s") auto
  have kA: "?A s = (Inr v, s') \<Longrightarrow> \<exists>z s1. Kind s = (Inr (List, z), s1)" for s v s'
    by (auto simp: decodeListSlice_def Stream_List_def sm_bind_Inr split: if_splits)
  have kB: "?B s = (Inr v, s') \<Longrightarrow> \<exists>k z s1. k \<noteq> List \<and> Kind s = (Inr (k, z), s1)" for s v s'
  proof -
    assume "?B s = (Inr v, s')"
    then obtain b where b: "Bytes s = (Inr b, s')" by (auto simp: sm_bind_Inr)
    then obtain k z s1 where k: "Kind s = (Inr (k, z), s1)" by (auto simp: Bytes_def sm_bind_Inr)
    with b have "k \<noteq> List" by (auto simp: Bytes_def sm_bind_Inr)
    with k show "\<exists>k z s1. k \<noteq> List \<and> Kind s = (Inr (k, z), s1)" by blast
  qed
  have kD: "?D s = (Inr v, s') \<Longrightarrow> \<exists>k z s1. Kind s = (Inr (k, z), s1)" for s v s'
    by (auto simp: sm_bind_Inr)
  have iff: "?D s = (Inr v, s') \<longleftrightarrow> ?A s = (Inr v, s') \<or> ?B s = (Inr v, s')" for s v s'
  proof
    assume d: "?D s = (Inr v, s')"
    then obtain k z s1 where "Kind s = (Inr (k, z), s1)" using kD by blast
    from D[OF this] d show "?A s = (Inr v, s') \<or> ?B s = (Inr v, s')" by (simp split: if_splits)
  next
    assume "?A s = (Inr v, s') \<or> ?B s = (Inr v, s')"
    then show "?D s = (Inr v, s')"
    proof
      assume a: "?A s = (Inr v, s')"
      then obtain z s1 where "Kind s = (Inr (List, z), s1)" using kA by blast
      from D[OF this] a show ?thesis by simp
    next
      assume b: "?B s = (Inr v, s')"
      then obtain k z s1 where "k \<noteq> List" "Kind s = (Inr (k, z), s1)" using kB by blast
      from D[OF this(2)] this(1) b show ?thesis by simp
    qed
  qed
  have vr: "value_reader M ?D (\<lambda>v e. (\<exists>vs. (\<exists>es. list_all2 encodes vs es \<and> e = rlp_list (concat es)) \<and>
      v = iface_list vs) \<or> (\<exists>b. e = rlp_str b \<and> v = iface_bytes b))"
    by (rule value_reader_or[OF elem_decoder.axioms(1)[OF A] elem_decoder.axioms(1)[OF B] iff])
  have eol: "eol_ok (StreamErr EOL) (plain Kind)" by (rule eol_ok_wrapped(2)[OF eol_ok_Kind])
  have err: "listLimit s = Some 0 \<and> s' = s \<and> e = StreamErr EOL"
    if s: "s_kind s = None" "length (s_input s) < M" and m: "?D s = (Inl e, s')" "e = StreamErr EOL \<or> e = OutOfFuel"
    for s s' e
  proof (cases "fst (Kind s)")
    case (Inl d)
    then have "plain Kind s = (Inl e, s')" using m(1) by (cases "Kind s") (auto simp: sm_bind_Inl plain_def sm_wrap_def)
    then show ?thesis using eol s(1) m(2) by (auto simp: eol_ok_def)
  next
    case (Inr p)
    then have "?A s = (Inl e, s') \<or> ?B s = (Inl e, s')" using Da[OF Inr] m(1) by auto
    then have "listLimit s = Some 0"
      using m(2) s elem_decoder.eol_only[OF A s] elem_decoder.eol_only[OF B s]
        elem_decoder.fueled[OF A s] elem_decoder.fueled[OF B s] by auto
    then show ?thesis using Inr Kind_EOL[OF s(1), of s] by simp
  qed
  have "?D s = (Inl (StreamErr EOL), s)" if "s_kind s = None" "listLimit s = Some 0" for s
    using eol that by (simp add: eol_ok_def sm_bind_Inl)
  moreover have "peeks s ?D" for s by (intro peeks_bind peeks_wrapped peeks_ops)
  moreover have "?D s \<noteq> (Inl OutOfFuel, s')" if "s_kind s = None" "length (s_input s) < M" for s s'
    using err[OF that, of OutOfFuel s'] by auto
  ultimately show ?thesis using vr err by (auto simp: elem_decoder_def elem_decoder_axioms_def)
qed

end

lemma iface_typed_raw: "iface_typed v e \<Longrightarrow> raw_value e"
  using iface_typed_cases[of v e] by auto

lemma decodeIface_ok: "n \<le> 2 ^ 63 \<Longrightarrow> elem_decoder n (decodeIface n) iface_typed"
proof (induction n)
  case 0
  show ?case by unfold_locales (auto intro: iface_typed_raw)
next
  case (Suc n)
  then have "elem_decoder n (decodeIface n) iface_typed" by simp
  note step = elem_decoder.iface_step[OF this order.refl Suc.prems]
  have "iface_typed = (\<lambda>v e. (\<exists>vs. (\<exists>es. list_all2 iface_typed vs es \<and> e = rlp_list (concat es)) \<and>
      v = iface_list vs) \<or> (\<exists>b. e = rlp_str b \<and> v = iface_bytes b))"
    by (intro ext) (rule iface_typed_cases)
  with step show ?case unfolding decodeIface.simps by (rule back_subst[OF _ sym])
qed

text \<open>With enough fuel, more makes no difference.\<close>

lemma ifaceValue_cong:
  assumes "decodeListSlice d1 s = decodeListSlice d2 s" and "Kind s = (Inr p, s1)"
  shows "ifaceValue d1 p s1 = ifaceValue d2 p s1"
proof -
  have "decodeListSlice d s1 = decodeListSlice d s" for d
    using list_frame_peeks[of s] assms(2) unfolding decodeListSlice_def peeks_def by fastforce
  then show ?thesis using assms(1) by (simp add: ifaceValue_def sm_bind_def)
qed

lemma decodeIface_agree:
  "n \<le> m \<Longrightarrow> m \<le> 2 ^ 63 \<Longrightarrow> s_kind s = None \<Longrightarrow> length (s_input s) < n \<Longrightarrow> decodeIface m s = decodeIface n s"
proof (induction n arbitrary: m s)
  case (Suc n)
  then obtain k where m: "m = Suc k" "n \<le> k" "k \<le> 2 ^ 63" by (cases m) auto
  have len: "length (s_input s) < 2 ^ 63" using Suc.prems by simp
  have "decodeListSlice (decodeIface k) s = decodeListSlice (decodeIface n) s"
  proof (rule elem_decoder.decodeListSlice_cong[OF decodeIface_ok])
    show "n \<le> 2 ^ 63" using m by simp
    show "\<And>t. s_kind t = None \<Longrightarrow> length (s_input t) < n \<Longrightarrow> decodeIface k t = decodeIface n t"
      by (rule Suc.IH[OF m(2,3)])
    show "length (s_input t) < n" if "Stream_List s = (Inr sz, t)" for sz t
      using List_entered(3)[OF that Suc.prems(3) len] Suc.prems(4) by simp
  qed (use Suc.prems len in auto)
  then have "ifaceValue (decodeIface k) p s1 = ifaceValue (decodeIface n) p s1" if "Kind s = (Inr p, s1)" for p s1
    using ifaceValue_cong that by blast
  then show ?case using m(1) by (auto simp: sm_bind_def plain_def sm_wrap_def split: prod.splits sum.splits)
qed simp

lemma List_input: "Stream_List s = (Inr sz, t) \<Longrightarrow> Kind s = (Inr p, s1) \<Longrightarrow> s_input t = s_input s1"
  by (cases p) (auto simp: Stream_List_def sm_bind_Inr Let_def set_limit_def split: if_splits option.splits)

lemma Kind_takes_header:
  assumes "Kind s = (Inr p, s1)" and "s_kind s = None" and "length (s_input s) < 2 ^ 63"
  shows "length (s_input s1) < length (s_input s)"
proof -
  obtain k sz where p: "p = (k, sz)" by (cases p)
  obtain h where h: "ahead k sz h s s1" using Kind_sound[of s k sz s1] assms p by auto
  have "h \<noteq> []" using ahead_header[OF h] by (cases k) auto
  then show ?thesis using h by (simp add: ahead_def)
qed

lemma decodeInterface_Iface:
  assumes "s_kind s = None" and "length (s_input s) < 2 ^ 63"
  shows "decodeInterface True s = decodeIface (2 ^ 63) s"
proof -
  obtain m where m: "(2 :: nat) ^ 63 = Suc m" by (metis Suc_pred zero_less_numeral zero_less_power)
  have "ifaceValue (decodeIface m) p s1 = ifaceValue (decodeIface (Suc (length (s_input s1)))) p s1"
    if k: "Kind s = (Inr p, s1)" for p s1
  proof (rule ifaceValue_cong[OF _ k])
    let ?n = "Suc (length (s_input s1))"
    have "?n \<le> length (s_input s)" using Kind_takes_header[OF k assms] by simp
    then have n: "?n \<le> m" using assms(2) m by simp
    show "decodeListSlice (decodeIface m) s = decodeListSlice (decodeIface ?n) s"
    proof (rule elem_decoder.decodeListSlice_cong[OF decodeIface_ok])
      show "?n \<le> 2 ^ 63" using n m by simp
      show "\<And>t. s_kind t = None \<Longrightarrow> length (s_input t) < ?n \<Longrightarrow> decodeIface m t = decodeIface ?n t"
        by (rule decodeIface_agree[OF n]) (use m in auto)
      show "length (s_input t) < ?n" if "Stream_List s = (Inr sz, t)" for sz t
        using List_input[OF that k] by simp
    qed (use assms in auto)
  qed
  then show ?thesis
    unfolding m by (auto simp: decodeInterface_def sm_bind_def plain_def sm_wrap_def split: prod.splits sum.splits)
qed

lemma elem_decoder_cong:
  assumes "elem_decoder N dec R" and "\<And>s. s_kind s = None \<Longrightarrow> length (s_input s) < N \<Longrightarrow> dec' s = dec s"
    and "\<And>s. length (s_input s) < N \<Longrightarrow> peeks s dec'"
  shows "elem_decoder N dec' R"
proof -
  have "value_reader N dec R" by (rule elem_decoder.axioms(1)[OF assms(1)])
  then have "value_reader N dec' R" using assms(2) unfolding value_reader_def by metis
  then show ?thesis
    using assms elem_decoder.eol[OF assms(1)] elem_decoder.eol_only[OF assms(1)]
      elem_decoder.one_value[OF assms(1)] elem_decoder.fueled[OF assms(1)]
    by (simp add: elem_decoder_def elem_decoder_axioms_def)
qed

lemma decodeInterface_ok: "elem_decoder (2 ^ 63) (decodeInterface True) iface_typed"
proof (rule elem_decoder_cong[OF decodeIface_ok[OF order.refl] decodeInterface_Iface])
  fix s show "peeks s (decodeInterface True)"
    by (simp add: decodeInterface_def peeks_bind peeks_wrapped)
qed

interpretation dec_interface: elem_decoder "2 ^ 63" "decodeInterface True" iface_typed
  by (rule decodeInterface_ok)

end
