(* ===== verification/Rlp_Struct_Decode.thy ===== *)
theory Rlp_Struct_Decode
  imports Rlp_Decode_Types
begin

section \<open>Struct fields and the decoder of a struct\<close>

text \<open>
  What \<open>ProcessFields\<close> guarantees of the fields it returns, and the contract of the decoder of
  a struct: the fields in order, where a tail of optional fields may be missing and a field
  with the tag \<open>tail\<close> takes all elements that are left.
\<close>

subsection \<open>The fields that are encoded\<close>

definition tags_ok :: "Tags \<Rightarrow> bool" where
  "tags_ok ts \<longleftrightarrow> NilKind ts \<noteq> Some Byte \<and> \<not> (Tail ts \<and> Optional ts)"

lemma no_tags_simps [simp]:
  "tags_ok no_tags" "\<not> Tail no_tags" "\<not> NilOK no_tags" "\<not> Optional no_tags" "\<not> Ignored no_tags"
  by (simp_all add: tags_ok_def no_tags_def)

lemma DefaultNilValue_not_Byte: "DefaultNilValue t \<noteq> Byte"
  by (cases t) auto

lemma typeNilKind_not_Byte: "tags_ok ts \<Longrightarrow> typeNilKind t ts \<noteq> Byte"
  using DefaultNilValue_not_Byte[of t] by (auto simp: typeNilKind_def tags_ok_def split: option.splits)

lemma parseTag_ok:
  assumes "parseTag f i lp = Inr ts"
  shows "tags_ok ts \<and> (Tail ts \<longrightarrow> i = lp \<and> isSlice (f_type f))"
  by (rule foldE_invariant[OF assms[unfolded parseTag_def], of "\<lambda>ts. tags_ok ts \<and> (Tail ts \<longrightarrow> i = lp \<and> isSlice (f_type f))"])
    (use DefaultNilValue_not_Byte in \<open>auto simp: parseTagPart_def Let_def tags_ok_def no_tags_def
      simp del: DefaultNilValue.simps split: if_splits\<close>)

lemma lastPublicField_upper:
  assumes "i < length fs" and "f_exported (fs ! i)"
  shows "i \<le> lastPublicField fs"
proof -
  have "i < n \<Longrightarrow> i \<le> foldl (\<lambda>last i. if f_exported (fs ! i) then i else last) 0 [0..<n]" for n
    using assms(2) by (induction n) (auto simp: less_Suc_eq)
  then show ?thesis using assms(1) by (simp add: lastPublicField_def)
qed

lemma gatherFields_prefix:
  assumes "foldE (\<lambda>acc i. if \<not> f_exported (fs ! i) then Inr acc
     else (case parseTag (fs ! i) i lp of Inl e \<Rightarrow> Inl e
       | Inr ts \<Rightarrow> Inr (if Ignored ts then acc else acc @ [(i, ts)]))) [] [0..<n] = Inr ps"
  shows "(\<forall>(i, ts) \<in> set ps. i < n \<and> f_exported (fs ! i) \<and> parseTag (fs ! i) i lp = Inr ts) \<and>
    sorted_wrt (<) (map fst ps)"
  using assms
proof (induction n arbitrary: ps)
  case (Suc n)
  then obtain qs where qs: "foldE (\<lambda>acc i. if \<not> f_exported (fs ! i) then Inr acc
     else (case parseTag (fs ! i) i lp of Inl e \<Rightarrow> Inl e
       | Inr ts \<Rightarrow> Inr (if Ignored ts then acc else acc @ [(i, ts)]))) [] [0..<n] = Inr qs"
    and ps: "ps = qs \<or> (\<exists>ts. f_exported (fs ! n) \<and> parseTag (fs ! n) n lp = Inr ts \<and> ps = qs @ [(n, ts)])"
    by (auto simp: foldE_append split: sum.splits if_splits)
  from Suc.IH[OF qs] have q: "\<forall>(i, ts) \<in> set qs. i < n \<and> f_exported (fs ! i) \<and> parseTag (fs ! i) i lp = Inr ts"
    "sorted_wrt (<) (map fst qs)" by auto
  from ps show ?case
    by (elim disjE exE conjE) (use q in \<open>auto simp: sorted_wrt_append less_SucI\<close>)
qed simp

lemma ProcessFields_ok:
  assumes "ProcessFields fs = Inr ps"
  shows "\<And>i ts. (i, ts) \<in> set ps \<Longrightarrow> i < length fs \<and> tags_ok ts \<and> (Tail ts \<longrightarrow> isSlice (f_type (fs ! i)))"
    and "sorted_wrt (<) (map fst ps)"
    and "\<And>xs i ts ys. ps = xs @ (i, ts) # ys \<Longrightarrow> Tail ts \<Longrightarrow> ys = []"
proof -
  have g: "gatherFields fs = Inr ps" using assms by (auto simp: ProcessFields_def split: sum.splits)
  note p = gatherFields_prefix[OF g[unfolded gatherFields_def]]
  then have p1: "i < length fs \<and> f_exported (fs ! i) \<and> parseTag (fs ! i) i (lastPublicField fs) = Inr ts"
    if "(i, ts) \<in> set ps" for i ts using that by auto
  show "i < length fs \<and> tags_ok ts \<and> (Tail ts \<longrightarrow> isSlice (f_type (fs ! i)))" if "(i, ts) \<in> set ps" for i ts
    using p1[OF that] parseTag_ok by blast
  show s: "sorted_wrt (<) (map fst ps)" using p by simp
  show "ys = []" if ps: "ps = xs @ (i, ts) # ys" and "Tail ts" for xs i ts ys
  proof (rule ccontr)
    assume "ys \<noteq> []"
    then obtain j us zs where ys: "ys = (j, us) # zs" by (cases ys) auto
    have "i = lastPublicField fs" using p1[of i ts] ps parseTag_ok \<open>Tail ts\<close> by auto
    moreover have "j \<le> lastPublicField fs" using p1[of j us] ps ys lastPublicField_upper by auto
    moreover have "i < j" using s ps ys by (auto simp: sorted_wrt_append)
    ultimately show False by simp
  qed
qed

lemma ProcessFields_exported: "ProcessFields fs = Inr ps \<Longrightarrow> (i, ts) \<in> set ps \<Longrightarrow> f_exported (fs ! i)"
  using gatherFields_prefix[of fs "lastPublicField fs" "length fs" ps]
  by (auto simp: ProcessFields_def gatherFields_def split: sum.splits)

text \<open>From the first optional field on, all fields are optional, or the tail.\<close>

definition may_stop :: "nat \<times> Tags \<Rightarrow> bool" where
  "may_stop p \<longleftrightarrow> Optional (snd p) \<or> Tail (snd p)"

lemma checkOptional_sorted:
  "foldE (checkOptional fs) fo ps = Inr r \<Longrightarrow>
    sorted_wrt (\<lambda>p q. may_stop p \<longrightarrow> may_stop q) ps \<and> (fo \<noteq> None \<longrightarrow> (\<forall>p \<in> set ps. may_stop p))"
proof (induction ps arbitrary: fo)
  case (Cons p ps)
  obtain fo' where "checkOptional fs fo p = Inr fo'" and r: "foldE (checkOptional fs) fo' ps = Inr r"
    using Cons.prems by (auto split: sum.splits)
  then have "(fo \<noteq> None \<longrightarrow> may_stop p) \<and> (fo' \<noteq> None \<longleftrightarrow> fo \<noteq> None \<or> may_stop p)"
    by (auto simp: checkOptional_def may_stop_def split: prod.splits option.splits if_splits)
  then show ?case using Cons.IH[OF r] by auto
qed simp

lemma ProcessFields_optional: "ProcessFields fs = Inr ps \<Longrightarrow> sorted_wrt (\<lambda>p q. may_stop p \<longrightarrow> may_stop q) ps"
  using checkOptional_sorted by (auto simp: ProcessFields_def split: sum.splits)

subsection \<open>The decoder of a struct\<close>

text \<open>A decoder for the last field, which may use up the list (tag \<open>tail\<close>).\<close>

definition tail_reader :: "'a decoder_m \<Rightarrow> ('a \<Rightarrow> bytes \<Rightarrow> bool) \<Rightarrow> bool" where
  "tail_reader dec R \<longleftrightarrow>
    (\<forall>s x s'. s_kind s = None \<longrightarrow> length (s_input s) < 2 ^ 63 \<longrightarrow> dec s = (Inr x, s') \<longrightarrow>
       (\<exists>e. R x e \<and> took e s s')) \<and>
    (\<forall>s x e r. s_kind s = None \<longrightarrow> length (s_input s) < 2 ^ 63 \<longrightarrow> s_input s = e @ r \<longrightarrow> R x e \<longrightarrow>
       room (length e) s \<longrightarrow> listLimit s = Some (of_nat (length e)) \<longrightarrow> (\<exists>s'. dec s = (Inr x, s') \<and> took e s s')) \<and>
    (\<forall>s s'. s_kind s = None \<longrightarrow> length (s_input s) < 2 ^ 63 \<longrightarrow> dec s \<noteq> (Inl OutOfFuel, s') \<and>
       dec s \<noteq> (Inl (StreamErr EOL), s'))"

definition zero_rest :: "gofield list \<Rightarrow> nat list \<Rightarrow> govalue list \<Rightarrow> govalue list" where
  "zero_rest fs js vs = foldl (\<lambda>vs j. vs[j := zero_value (f_type (fs ! j))]) vs js"

lemma zeroFields_zero_rest: "zeroFields fs flds vs = zero_rest fs (map fd_index flds) vs"
  by (simp add: zeroFields_def zero_rest_def foldl_map)

text \<open>
  The body of an encoded struct: \<open>vs\<close> and \<open>vs'\<close> are the values of all fields before and
  after decoding the fields in the list.
\<close>

fun struct_body :: "gofield list \<Rightarrow> (Tags \<Rightarrow> govalue \<Rightarrow> bytes \<Rightarrow> bool) list \<Rightarrow> (nat \<times> Tags) list \<Rightarrow>
    govalue list \<Rightarrow> govalue list \<Rightarrow> bytes \<Rightarrow> bool" where
  "struct_body fs Rs [] vs vs' b \<longleftrightarrow> vs' = vs \<and> b = []"
| "struct_body fs Rs ((i, ts) # ps) vs vs' b \<longleftrightarrow>
    (\<exists>v e r. (Rs ! i) ts v e \<and> b = e @ r \<and> struct_body fs Rs ps (vs[i := v]) vs' r) \<or>
    (Optional ts \<and> b = [] \<and> vs' = zero_rest fs (i # map fst ps) vs)"

fun fields_ok :: "(Tags \<Rightarrow> govalue \<Rightarrow> bytes \<Rightarrow> bool) list \<Rightarrow> (nat \<times> Tags) list \<Rightarrow> decoder field list \<Rightarrow> bool" where
  "fields_ok Rs [] [] \<longleftrightarrow> True"
| "fields_ok Rs ((i, ts) # ps) (f # flds) \<longleftrightarrow> fd_index f = i \<and> fd_optional f = Optional ts \<and>
    (elem_decoder (2 ^ 63) (fd_info f) ((Rs ! i) ts) \<or>
     ps = [] \<and> \<not> Optional ts \<and> tail_reader (fd_info f) ((Rs ! i) ts)) \<and> fields_ok Rs ps flds"
| "fields_ok Rs _ _ \<longleftrightarrow> False"

lemma fields_ok_index: "fields_ok Rs ps flds \<Longrightarrow> map fd_index flds = map fst ps"
  by (induction Rs ps flds rule: fields_ok.induct) auto

lemma field_sound:
  assumes "elem_decoder (2 ^ 63) d R \<or> tail_reader d R" and "s_kind s = None" and "length (s_input s) < 2 ^ 63"
    and "d s = (Inr x, s')"
  shows "\<exists>e. R x e \<and> took e s s'"
  using assms value_reader.sound[OF elem_decoder.axioms(1)] unfolding tail_reader_def by blast

lemma field_fueled:
  assumes "elem_decoder (2 ^ 63) d R \<or> tail_reader d R" and "s_kind s = None" and "length (s_input s) < 2 ^ 63"
  shows "d s \<noteq> (Inl OutOfFuel, s')"
  using assms elem_decoder.fueled unfolding tail_reader_def by blast

lemma field_eol:
  assumes "elem_decoder (2 ^ 63) d R \<or> tail_reader d R" and "s_kind s = None" and "length (s_input s) < 2 ^ 63"
    and "d s = (Inl (StreamErr EOL), s')"
  shows "s' = s \<and> listLimit s = Some 0"
  using assms elem_decoder.eol_only unfolding tail_reader_def by blast

lemma decodeFields_sound:
  assumes "fields_ok Rs ps flds" and "decodeFields fs flds vs s = (Inr vs', s')"
    and "s_kind s = None" and "length (s_input s) < 2 ^ 63"
  shows "\<exists>b. struct_body fs Rs ps vs vs' b \<and> took b s s'"
  using assms
proof (induction Rs ps flds arbitrary: vs s rule: fields_ok.induct)
  case (1 Rs)
  then show ?case using took_Nil[of s] by auto
next
  case (2 Rs i ts ps f flds)
  from 2(2) have f: "fd_index f = i" "fd_optional f = Optional ts" and ok: "fields_ok Rs ps flds"
    and d: "elem_decoder (2 ^ 63) (fd_info f) ((Rs ! i) ts) \<or> tail_reader (fd_info f) ((Rs ! i) ts)" by auto
  show ?case
  proof (cases "fd_info f s")
    case (Pair r t)
    show ?thesis
    proof (cases r)
      case (Inl e)
      then have e: "e = StreamErr EOL" "Optional ts" "vs' = zeroFields fs (f # flds) vs" "s' = t"
        using 2(3) Pair f by (auto split: if_splits)
      then have "t = s" using field_eol[OF d 2(4,5)] Pair Inl by blast
      then show ?thesis
        using e took_Nil[OF 2(4)] fields_ok_index[OF ok] f(1) by (auto simp: zeroFields_zero_rest)
    next
      case (Inr v)
      obtain e where e: "(Rs ! i) ts v e" "took e s t" using field_sound[OF d 2(4,5)] Pair Inr by blast
      have "decodeFields fs flds (vs[i := v]) t = (Inr vs', s')" using 2(3) Pair Inr f by simp
      from 2(1)[OF ok this took_unarmed[OF e(2)]] obtain b where
        "struct_body fs Rs ps (vs[i := v]) vs' b" "took b t s'"
        using took_length[OF e(2)] 2(5) by auto
      then show ?thesis using e took_trans[OF e(2)] by auto
    qed
  qed
qed simp_all

lemma decodeFields_complete:
  assumes "fields_ok Rs ps flds" and "struct_body fs Rs ps vs vs' b"
    and "s_kind s = None" and "length (s_input s) < 2 ^ 63" and "s_input s = b @ r"
    and "room (length b) s" and "listLimit s = Some (of_nat (length b))"
  shows "\<exists>s'. decodeFields fs flds vs s = (Inr vs', s') \<and> took b s s'"
  using assms
proof (induction Rs ps flds arbitrary: vs s b rule: fields_ok.induct)
  case (1 Rs)
  then show ?case using took_Nil[of s] by auto
next
  case (2 Rs i ts ps f flds)
  from 2(2) have f: "fd_index f = i" "fd_optional f = Optional ts" and ok: "fields_ok Rs ps flds"
    and d: "elem_decoder (2 ^ 63) (fd_info f) ((Rs ! i) ts) \<or>
      ps = [] \<and> \<not> Optional ts \<and> tail_reader (fd_info f) ((Rs ! i) ts)" by auto
  from 2(3) consider (field) v e q where "(Rs ! i) ts v e" "b = e @ q" "struct_body fs Rs ps (vs[i := v]) vs' q"
    | (rest) "Optional ts" "b = []" "vs' = zero_rest fs (i # map fst ps) vs" by auto
  then show ?case
  proof cases
    case field
    have i: "s_input s = e @ (q @ r)" using 2(6) field(2) by simp
    have rm: "room (length e) s" using room_mono[OF 2(7)] field(2) by simp
    have "\<exists>t. fd_info f s = (Inr v, t) \<and> took e s t"
    proof (cases "elem_decoder (2 ^ 63) (fd_info f) ((Rs ! i) ts)")
      case True
      then show ?thesis
        using value_reader.complete[OF elem_decoder.axioms(1)[OF True] 2(4,5) i field(1) rm] by blast
    next
      case False
      then have "tail_reader (fd_info f) ((Rs ! i) ts)" "ps = []" using d by auto
      moreover from this have "b = e" using field(2,3) by simp
      ultimately show ?thesis using 2(4,5,8) i field(1) rm unfolding tail_reader_def by blast
    qed
    then obtain t where t: "fd_info f s = (Inr v, t)" "took e s t" by blast
    have "length (s_input t) < 2 ^ 63" "s_input t = q @ r"
      using t(2) 2(5) i by (simp_all add: took_def)
    moreover have "room (length q) t" using room_took[OF t(2)] 2(7) field(2) by simp
    moreover have "listLimit t = Some (of_nat (length q))"
      using took_listLimit[OF t(2)] 2(8) field(2) by simp
    ultimately obtain s' where "decodeFields fs flds (vs[i := v]) t = (Inr vs', s')" "took q t s'"
      using 2(1)[OF ok field(3) took_unarmed[OF t(2)]] by blast
    then show ?thesis using t f took_trans[OF t(2)] field(2) by auto
  next
    case rest
    then have "elem_decoder (2 ^ 63) (fd_info f) ((Rs ! i) ts)" using d by blast
    then have "fd_info f s = (Inl (StreamErr EOL), s)"
      using elem_decoder.eol 2(4,5,8) rest(2) by fastforce
    then show ?thesis
      using rest f took_Nil[OF 2(4)] fields_ok_index[OF ok] by (simp add: zeroFields_zero_rest)
  qed
qed simp_all

lemma decodeFields_errors:
  assumes "fields_ok Rs ps flds" and "s_kind s = None" and "length (s_input s) < 2 ^ 63"
  shows "decodeFields fs flds vs s \<noteq> (Inl OutOfFuel, s')"
  using assms
proof (induction Rs ps flds arbitrary: vs s rule: fields_ok.induct)
  case (2 Rs i ts ps f flds)
  then have ok: "fields_ok Rs ps flds"
    and d: "elem_decoder (2 ^ 63) (fd_info f) ((Rs ! i) ts) \<or> tail_reader (fd_info f) ((Rs ! i) ts)" by auto
  have "decodeFields fs flds ws t \<noteq> (Inl OutOfFuel, s')" if t: "fd_info f s = (Inr v, t)" for v t ws
  proof -
    obtain e where e: "took e s t" using field_sound[OF d 2(3,4) t] by blast
    show ?thesis by (rule 2(1)[OF ok took_unarmed[OF e]]) (use took_length[OF e] 2(4) in simp)
  qed
  then show ?case
    using field_fueled[OF d 2(3,4)] by (auto simp: addErrorContext_EOL split: prod.splits sum.splits if_splits)
qed simp_all

lemma decodeFields_not_EOL: "decodeFields fs flds vs s \<noteq> (Inl (StreamErr EOL), s')"
  by (induction flds arbitrary: vs s)
    (auto simp: addErrorContext_EOL split: prod.splits sum.splits if_splits)

lemma structDecoder_ok:
  assumes ok: "fields_ok Rs ps flds"
  shows "elem_decoder (2 ^ 63) (structDecoder fs flds) (\<lambda>v e. \<exists>vs b.
    struct_body fs Rs ps (map (\<lambda>f. zero_value (f_type f)) fs) vs b \<and> e = rlp_list b \<and> v = VStruct vs)"
proof -
  let ?z = "map (\<lambda>f. zero_value (f_type f)) fs"
  have "value_reader (2 ^ 63) (structDecoder fs flds) (\<lambda>v e. \<exists>vs b.
    struct_body fs Rs ps ?z vs b \<and> e = rlp_list b \<and> v = VStruct vs)"
    unfolding structDecoder_def
    by (rule list_frame_reader[OF order.refl]) (use decodeFields_sound[OF ok] decodeFields_complete[OF ok] in blast)+
  moreover have "eol_ok (StreamErr EOL) (structDecoder fs flds)" "peeks s (structDecoder fs flds)" for s
    unfolding structDecoder_def
    by (rule list_frame_eol, auto simp: sm_bind_Inl list_not_EOL decodeFields_not_EOL) (rule list_frame_peeks)
  moreover have "structDecoder fs flds s \<noteq> (Inl OutOfFuel, s')"
    if "s_kind s = None" "length (s_input s) < 2 ^ 63" for s s'
    unfolding structDecoder_def using that
    by (intro list_frame_fueled) (auto simp: sm_bind_Inl decodeFields_errors[OF ok])
  ultimately show ?thesis by (auto simp: elem_decoder_def elem_decoder_axioms_def eol_ok_def)
qed

subsection \<open>The values of a type and their encodings\<close>

fun typed :: "gotype \<Rightarrow> Tags \<Rightarrow> govalue \<Rightarrow> bytes \<Rightarrow> bool" where
  "typed TRawValue ts v e \<longleftrightarrow> v = VBytes (Some e) \<and> raw_value e"
| "typed TBigPtr ts v e \<longleftrightarrow> (\<exists>i. v = VBigPtr (Some (int i)) \<and> e = rlp_str (be_bytes i))"
| "typed TBigInt ts v e \<longleftrightarrow> (\<exists>i. v = VBigInt (int i) \<and> e = rlp_str (be_bytes i))"
| "typed (TPtr t) ts v e \<longleftrightarrow>
    (if NilOK ts then v = VPtr None \<and> e = empty_value (typeNilKind t ts) \<or>
       (\<exists>w. typed t no_tags w e \<and> v = VPtr (Some w) \<and> e \<noteq> empty_value String \<and> e \<noteq> empty_value List)
     else (\<exists>w. typed t no_tags w e \<and> v = VPtr (Some w)))"
| "typed (TUint bits) ts v e \<longleftrightarrow> (\<exists>i. v = VUint i \<and> length (be_bytes (unat i)) \<le> bits div 8 \<and>
     e = rlp_str (be_bytes (unat i)))"
| "typed TBool ts v e \<longleftrightarrow> (\<exists>b. v = VBool b \<and> e = rlp_str (if b then [1] else []))"
| "typed TString ts v e \<longleftrightarrow> (\<exists>b. v = VString b \<and> e = rlp_str b)"
| "typed (TSlice t) ts v e \<longleftrightarrow>
    (if isByte t then (\<exists>b. v = VBytes (Some b) \<and> e = rlp_str b)
     else (\<exists>vs es. v = VSlice (Some vs) \<and> list_all2 (typed t no_tags) vs es \<and>
       e = (if Tail ts then concat es else rlp_list (concat es))))"
| "typed (TArray n t) ts v e \<longleftrightarrow>
    (if isByte t then (\<exists>b. v = VByteArray b \<and> length b = n \<and> e = rlp_str b)
     else (\<exists>vs es. v = VArray vs \<and> length vs = n \<and> list_all2 (typed t no_tags) vs es \<and> e = rlp_list (concat es)))"
| "typed (TStruct fs) ts v e \<longleftrightarrow> (\<exists>ps vs b. ProcessFields fs = Inr ps \<and>
     struct_body fs (map (\<lambda>f. typed (f_type f)) fs) ps (map (\<lambda>f. zero_value (f_type f)) fs) vs b \<and>
     v = VStruct vs \<and> e = rlp_list b)"
| "typed (TInterface noMethods) ts v e \<longleftrightarrow> noMethods \<and> iface_typed v e"
| "typed TOther ts v e \<longleftrightarrow> False"

text \<open>Types with the word sizes Go has, and no interface with methods.\<close>

fun wf_type :: "gotype \<Rightarrow> bool" where
  "wf_type (TUint bits) \<longleftrightarrow> bits \<in> {8, 16, 32, 64}"
| "wf_type (TSlice t) \<longleftrightarrow> wf_type t"
| "wf_type (TArray n t) \<longleftrightarrow> n < 2 ^ 63 \<and> wf_type t"
| "wf_type (TPtr t) \<longleftrightarrow> wf_type t"
| "wf_type (TStruct fs) \<longleftrightarrow> (\<forall>f \<in> set fs. wf_type (f_type f))"
| "wf_type (TInterface noMethods) \<longleftrightarrow> noMethods"
| "wf_type _ \<longleftrightarrow> True"

definition takes_tail :: "gotype \<Rightarrow> Tags \<Rightarrow> bool" where
  "takes_tail t ts \<longleftrightarrow> Tail ts \<and> (\<exists>u. t = TSlice u \<and> \<not> isByte u)"

lemma structFields_ok:
  assumes "structFields fs decs = Inr flds" and "length decs = length fs" and "length Rs = length fs"
    and "\<And>i ts d. i < length fs \<Longrightarrow> tags_ok ts \<Longrightarrow> (decs ! i) ts = Inr d \<Longrightarrow>
      if takes_tail (f_type (fs ! i)) ts then tail_reader d ((Rs ! i) ts) else elem_decoder (2 ^ 63) d ((Rs ! i) ts)"
  shows "\<exists>ps. ProcessFields fs = Inr ps \<and> fields_ok Rs ps flds"
proof -
  from assms(1) obtain ps where ps: "ProcessFields fs = Inr ps" and all: "list_all2 (\<lambda>(i, ts) f.
      (decs ! i) ts = Inr (fd_info f) \<and> fd_index f = i \<and> fd_optional f = Optional ts) ps flds"
    by (rule structFields_parts)
  have "fields_ok Rs qs fl" if "ps = xs @ qs" "list_all2 (\<lambda>(i, ts) f.
      (decs ! i) ts = Inr (fd_info f) \<and> fd_index f = i \<and> fd_optional f = Optional ts) qs fl" for xs qs fl
    using that(2,1)
  proof (induction arbitrary: xs rule: list_all2_induct)
    case (Cons q qs f fl)
    obtain i ts where q: "q = (i, ts)" by (cases q)
    from Cons.hyps have f: "(decs ! i) ts = Inr (fd_info f)" "fd_index f = i" "fd_optional f = Optional ts"
      by (auto simp: q)
    have "(i, ts) \<in> set ps" using Cons.prems q by simp
    then have i: "i < length fs" "tags_ok ts" using ProcessFields_ok(1)[OF ps] by blast+
    have "elem_decoder (2 ^ 63) (fd_info f) ((Rs ! i) ts) \<or>
        qs = [] \<and> \<not> Optional ts \<and> tail_reader (fd_info f) ((Rs ! i) ts)"
    proof (cases "takes_tail (f_type (fs ! i)) ts")
      case True
      then have "Tail ts" by (simp add: takes_tail_def)
      then show ?thesis
        using assms(4)[OF i f(1)] True ProcessFields_ok(3)[OF ps, of xs i ts qs] Cons.prems q i(2)
        by (simp add: tags_ok_def)
    next
      case False
      then show ?thesis using assms(4)[OF i f(1)] by simp
    qed
    then show ?case using f Cons.IH[of "xs @ [q]"] Cons.prems by (simp add: q)
  qed simp
  from this[of "[]"] all ps show ?thesis by auto
qed

lemma sliceElems_tail:
  assumes "elem_decoder (2 ^ 63) dec R"
  shows "tail_reader (sm_bind (sliceElems dec) (\<lambda>vs. sm_ret (g vs)))
    (\<lambda>v e. \<exists>vs es. list_all2 R vs es \<and> e = concat es \<and> v = g vs)"
proof -
  have "\<exists>es. list_all2 R vs es \<and> took (concat es) s s'"
    if "sliceElems dec s = (Inr vs, s')" "s_kind s = None" "length (s_input s) < 2 ^ 63" for s vs s'
    using elem_decoder.slice_elems_sound[OF assms that(1)[unfolded sliceElems_def] that(2,3)] by blast
  moreover have "sliceElems dec s \<noteq> (Inl OutOfFuel, s')" "sliceElems dec s \<noteq> (Inl (StreamErr EOL), s')"
    if "s_kind s = None" "length (s_input s) < 2 ^ 63" for s s'
    unfolding sliceElems_def using that
    by (simp_all add: elem_decoder.slice_elems_fueled[OF assms] slice_elems_not_EOL del: decodeSliceElems.simps)
  moreover have "\<exists>s'. sliceElems dec s = (Inr vs, s') \<and> took (concat es) s s'"
    if "list_all2 R vs es" "s_input s = concat es @ r" "s_kind s = None" "length (s_input s) < 2 ^ 63"
      "room (length (concat es)) s" "listLimit s = Some (of_nat (length (concat es)))" for vs es s r
    by (rule elem_decoder.sliceElems_complete[OF assms that])
  ultimately show ?thesis
    unfolding tail_reader_def sm_bind_Inr sm_bind_Inl sm_ret_Inr
    by (intro conjI allI impI; (elim exE conjE)?; metis sm_ret_Inl)
qed

lemma elem_decoder_eq:
  "elem_decoder N d R \<Longrightarrow> (\<And>v e. R v e \<longleftrightarrow> R' v e) \<Longrightarrow> elem_decoder N d R'"
  by (erule back_subst[of "elem_decoder N d"]) blast

lemma tail_reader_eq: "tail_reader d R \<Longrightarrow> (\<And>v e. R v e \<longleftrightarrow> R' v e) \<Longrightarrow> tail_reader d R'"
  by (erule back_subst[of "tail_reader d"]) blast

lemma no_tail_case:
  assumes "elem_decoder (2 ^ 63) d R" and "dec = d" and "\<not> takes_tail t ts" and "\<And>v e. R v e \<longleftrightarrow> typed t ts v e"
  shows "if takes_tail t ts then tail_reader dec (typed t ts) else elem_decoder (2 ^ 63) dec (typed t ts)"
  using elem_decoder_eq[OF assms(1,4)] assms(2,3) by simp

lemma makeDecoder_ok:
  assumes "makeDecoder t ts = Inr dec" and "wf_type t" and "tags_ok ts"
  shows "if takes_tail t ts then tail_reader dec (typed t ts) else elem_decoder (2 ^ 63) dec (typed t ts)"
  using assms
proof (induction t ts arbitrary: dec rule: makeDecoder.induct)
  case (1 ts)
  then show ?case by (intro no_tail_case[OF decodeRawValue_ok]) (auto simp: takes_tail_def)
next
  case (2 ts)
  then show ?case by (intro no_tail_case[OF decodeBigInt_ok(1)]) (auto simp: takes_tail_def)
next
  case (3 ts)
  then show ?case by (intro no_tail_case[OF decodeBigInt_ok(2)]) (auto simp: takes_tail_def)
next
  case (4 t ts)
  then obtain d where d: "makeDecoder t no_tags = Inr d" "dec = makePtrDecoder t ts d" by (auto split: sum.splits)
  then have e: "elem_decoder (2 ^ 63) d (typed t no_tags)"
    using 4 by (auto simp: takes_tail_def)
  show ?case
  proof (cases "NilOK ts")
    case True
    show ?thesis
      by (rule no_tail_case[OF elem_decoder.nil_ptr_elem[OF e typeNilKind_not_Byte[OF 4(4), of t]]])
        (use True in \<open>auto simp: d(2) makePtrDecoder_def takes_tail_def\<close>)
  next
    case False
    show ?thesis
      by (rule no_tail_case[OF elem_decoder.simple_ptr_elem[OF e]])
        (use False in \<open>auto simp: d(2) makePtrDecoder_def takes_tail_def\<close>)
  qed
next
  case (5 bits ts)
  then have "8 \<le> bits" "bits \<le> 64" by auto
  then show ?case using 5 by (intro no_tail_case[OF decodeUint_ok]) (auto simp: takes_tail_def)
next
  case (6 ts)
  then show ?case by (intro no_tail_case[OF decodeBool_ok]) (auto simp: takes_tail_def)
next
  case (7 ts)
  then show ?case by (intro no_tail_case[OF decodeString_ok]) (auto simp: takes_tail_def)
next
  case (8 t ts)
  show ?case
  proof (cases "isByte t")
    case True
    then show ?thesis
      using 8 by (intro no_tail_case[OF decodeByteSlice_ok]) (auto simp: takes_tail_def)
  next
    case False
    then obtain d where d: "makeDecoder t no_tags = Inr d" "dec = makeSliceDecoder ts d"
      using 8(2) by (auto split: sum.splits)
    then have e: "elem_decoder (2 ^ 63) d (typed t no_tags)"
      using 8 False by (auto simp: takes_tail_def)
    show ?thesis
    proof (cases "Tail ts")
      case True
      then show ?thesis
        using False tail_reader_eq[OF sliceElems_tail[OF e, of "\<lambda>vs. VSlice (Some vs)"], of "typed (TSlice t) ts"]
        by (auto simp: d(2) makeSliceDecoder_def takes_tail_def)
    next
      case notail: False
      show ?thesis
        by (rule no_tail_case[OF elem_decoder.decodeListSlice_elem[OF e _ order.refl]])
          (use notail False in \<open>auto simp: d(2) makeSliceDecoder_def takes_tail_def\<close>)
    qed
  qed
next
  case (9 n t ts)
  show ?case
  proof (cases "isByte t")
    case True
    then show ?thesis
      using 9 by (intro no_tail_case[OF decodeByteArray_ok[of n]]) (auto simp: takes_tail_def)
  next
    case False
    then obtain d where d: "makeDecoder t no_tags = Inr d" "dec = decodeListArray n d"
      using 9(2) by (auto split: sum.splits)
    then have e: "elem_decoder (2 ^ 63) d (typed t no_tags)"
      using 9 False by (auto simp: takes_tail_def)
    show ?thesis
      by (rule no_tail_case[OF elem_decoder.decodeListArray_elem[OF e]])
        (use False in \<open>auto simp: d(2) takes_tail_def\<close>)
  qed
next
  case (10 fs ts)
  then obtain flds where fl: "structFields fs (map (\<lambda>f. makeDecoder (f_type f)) fs) = Inr flds"
    "dec = structDecoder fs flds"
    by (auto simp: makeStructDecoder_def split: sum.splits)
  have "if takes_tail (f_type (fs ! i)) us then tail_reader d ((map (\<lambda>f. typed (f_type f)) fs ! i) us)
      else elem_decoder (2 ^ 63) d ((map (\<lambda>f. typed (f_type f)) fs ! i) us)"
    if "i < length fs" "tags_ok us" "(map (\<lambda>f. makeDecoder (f_type f)) fs ! i) us = Inr d" for i us d
  proof -
    have m: "makeDecoder (f_type (fs ! i)) us = Inr d" "fs ! i \<in> set fs" "wf_type (f_type (fs ! i))"
      using that 10(3) by auto
    show ?thesis unfolding nth_map[OF that(1)] by (rule 10(1)[OF m(2) m(1) m(3) that(2)])
  qed
  from structFields_ok[OF fl(1) _ _ this] obtain ps where
    ps: "ProcessFields fs = Inr ps" "fields_ok (map (\<lambda>f. typed (f_type f)) fs) ps flds" by auto
  show ?case
    by (rule no_tail_case[OF structDecoder_ok[OF ps(2)]]) (auto simp: fl(2) ps(1) takes_tail_def)
next
  case (11 noMethods ts)
  then show ?case by (intro no_tail_case[OF decodeInterface_ok]) (auto simp: takes_tail_def)
next
  case (12 ts)
  then show ?case by simp
qed

subsection \<open>Decoding a whole input\<close>

lemma takes_tail_no_tags [simp]: "\<not> takes_tail t no_tags"
  by (simp add: takes_tail_def)

lemma makeDecoder_elem:
  assumes "makeDecoder t no_tags = Inr dec" and "wf_type t"
  shows "elem_decoder (2 ^ 63) dec (typed t no_tags)"
  using makeDecoder_ok[OF assms] by (simp only: takes_tail_no_tags no_tags_simps if_False)

lemma Stream_Decode_Inr:
  "makeDecoder t no_tags = Inr dec \<Longrightarrow> Stream_Decode t s = (Inr v, s') \<longleftrightarrow> dec s = (Inr v, s')"
  by (simp add: Stream_Decode_def)

lemma DecodeBytes_Inr: "DecodeBytes pooled b t = Inr v \<longleftrightarrow>
    (\<exists>s. Stream_Decode t (Stream_Reset b True (of_nat (length b)) pooled) = (Inr v, s) \<and> s_input s = [])"
  by (simp add: DecodeBytes_def split: prod.splits sum.splits)

lemma Stream_Reset_fresh:
  assumes "length b < 2 ^ 63"
  shows "s_kind (Stream_Reset b True (of_nat (length b)) pooled) = None"
    and "s_input (Stream_Reset b True (of_nat (length b)) pooled) = b"
    and "room (length b) (Stream_Reset b True (of_nat (length b)) pooled)"
    and "listLimit (Stream_Reset b True (of_nat (length b)) pooled) = None"
  using unat_of_nat_length[OF assms] by (auto simp: Stream_Reset_def Let_def room_def listLimit_def)

lemma DecodeBytes_iff:
  assumes "makeDecoder t no_tags = Inr dec" and "wf_type t" and "length b < 2 ^ 63"
  shows "DecodeBytes pooled b t = Inr v \<longleftrightarrow> typed t no_tags v b"
proof -
  let ?s = "Stream_Reset b True (of_nat (length b)) pooled"
  note d = elem_decoder.axioms(1)[OF makeDecoder_elem[OF assms(1,2)]]
  note fresh = Stream_Reset_fresh[OF assms(3), of pooled]
  have len: "length (s_input ?s) < 2 ^ 63" unfolding fresh(2) by (rule assms(3))
  show ?thesis
    unfolding DecodeBytes_Inr Stream_Decode_Inr[OF assms(1)]
  proof
    assume "\<exists>s. dec ?s = (Inr v, s) \<and> s_input s = []"
    then obtain s e where "typed t no_tags v e" "took e ?s s" "s_input s = []"
      using value_reader.sound[OF d fresh(1) len] by blast
    then show "typed t no_tags v b" using fresh(2) by (simp add: took_def)
  next
    assume t: "typed t no_tags v b"
    have "\<exists>s. dec ?s = (Inr v, s) \<and> took b ?s s"
      by (rule value_reader.complete[OF d fresh(1) len _ t fresh(3), of "[]"]) (simp add: fresh(2))
    then show "\<exists>s. dec ?s = (Inr v, s) \<and> s_input s = []" using fresh(2) by (auto simp: took_def)
  qed
qed

lemma DecodeBytes_fueled:
  assumes "wf_type t" and "length b < 2 ^ 63"
  shows "DecodeBytes pooled b t \<noteq> Inl OutOfFuel"
proof (cases "makeDecoder t no_tags")
  case (Inl e)
  then show ?thesis by (simp add: DecodeBytes_def Stream_Decode_def)
next
  case (Inr dec)
  let ?s = "Stream_Reset b True (of_nat (length b)) pooled"
  have "dec ?s \<noteq> (Inl OutOfFuel, s)" for s
    using elem_decoder.fueled[OF makeDecoder_elem[OF Inr assms(1)]] Stream_Reset_fresh[OF assms(2)] assms(2) by simp
  then show ?thesis
    using Inr by (auto simp: DecodeBytes_def Stream_Decode_def sm_wrap_def split: prod.splits sum.splits
      dec_error.splits list.splits if_splits)
qed

text \<open>An encoding of a type stands for one value, and is no prefix of another.\<close>

lemma typed_unique:
  assumes "makeDecoder t no_tags = Inr dec" and "wf_type t" and "length e < 2 ^ 63"
    and "typed t no_tags v e" and "typed t no_tags w e"
  shows "v = w"
  using value_reader.prefix_unique[OF elem_decoder.axioms(1)[OF makeDecoder_elem[OF assms(1,2)]] assms(4,5), of "[]" "[]"]
    assms(3) by simp

end
