(* ===== verification/Rlp_Encode_Correct.thy ===== *)
theory Rlp_Encode_Correct
  imports Rlp_Encode Rlp_Struct_Decode
begin

section \<open>Encoding what was decoded\<close>

text \<open>
  \<open>writes wr v e\<close>: on every buffer the writer succeeds for \<open>v\<close>, and what it appends renders to
  \<open>e\<close>.  The theorem \<open>makeWriter_ok\<close> says that every value the decoder of a type can produce is
  written as an encoding of that value, no longer than the one it came from and, for types
  without optional fields, the same.
\<close>

definition writes :: "writer \<Rightarrow> govalue \<Rightarrow> bytes \<Rightarrow> bool" where
  "writes wr v e \<longleftrightarrow> (\<exists>f. (\<forall>w. wr v w = Inr (f w)) \<and> emits f e)"

lemma writesI: "emits f e \<Longrightarrow> (\<And>w. wr v w = Inr (f w)) \<Longrightarrow> writes wr v e"
  by (auto simp: writes_def)

lemma writes_str: "(\<And>w. wr v w = Inr (w\<lparr>str := str w @ e\<rparr>)) \<Longrightarrow> writes wr v e"
  by (rule writesI[OF emits_str]) auto

subsection \<open>Lists\<close>

lemma writeElems_emits:
  "list_all2 (writes wr) vs es \<Longrightarrow> \<exists>f. (\<forall>w. writeElems wr vs w = Inr (f w)) \<and> emits f (concat es)"
proof (induction rule: list_all2_induct)
  case Nil
  then show ?case using emits_id by (auto simp: writeElems_def)
next
  case (Cons v vs e es)
  then obtain f g where f: "\<And>w. wr v w = Inr (f w)" "emits f e"
    and g: "\<And>w. writeElems wr vs w = Inr (g w)" "emits g (concat es)" by (auto simp: writes_def)
  have "writeElems wr (v # vs) w = Inr (g (f w))" for w using f(1) g(1) by (simp add: writeElems_def)
  then show ?case using emits_seq[OF f(2) g(2)] by auto
qed

lemma writeFields_emits:
  "list_all2 (\<lambda>f e. writes (fd_info f) (vs ! fd_index f) e) flds es \<Longrightarrow>
    \<exists>f. (\<forall>w. writeFields flds vs w = Inr (f w)) \<and> emits f (concat es)"
proof (induction rule: list_all2_induct)
  case Nil
  then show ?case using emits_id by (auto simp: writeFields_def)
next
  case (Cons d flds e es)
  then obtain f g where f: "\<And>w. fd_info d (vs ! fd_index d) w = Inr (f w)" "emits f e"
    and g: "\<And>w. writeFields flds vs w = Inr (g w)" "emits g (concat es)" by (auto simp: writes_def)
  have "writeFields (d # flds) vs w = Inr (g (f w))" for w using f(1) g(1) by (simp add: writeFields_def)
  then show ?case using emits_seq[OF f(2) g(2)] by auto
qed

lemma list_frame_emits:
  assumes "\<And>w. body w = Inr (f w)" and "emits f c" and "length c < 2 ^ 63"
  shows "emits (\<lambda>w. let (w1, i) = buf_list w in listEnd i (f w1)) (rlp_list c)"
    and "(let (w1, i) = buf_list w in case body w1 of Inl e \<Rightarrow> Inl e | Inr w2 \<Rightarrow> Inr (listEnd i w2))
      = Inr (let (w1, i) = buf_list w in listEnd i (f w1))"
proof -
  have "length c < 2 ^ 64" using assms(3) by simp
  then show "emits (\<lambda>w. let (w1, i) = buf_list w in listEnd i (f w1)) (rlp_list c)"
    by (rule emits_list[OF assms(2)])
qed (simp add: assms(1) split: prod.split)

lemma makeSliceWriter_writes:
  assumes "list_all2 (writes wr) vs es" and "elements v = Some vs" and "length (concat es) < 2 ^ 63"
  shows "writes (makeSliceWriter ts wr) v (if Tail ts then concat es else rlp_list (concat es))"
proof -
  obtain f where f: "\<And>w. writeElems wr vs w = Inr (f w)" "emits f (concat es)"
    using writeElems_emits[OF assms(1)] by blast
  note frame = list_frame_emits[of "writeElems wr vs", OF f assms(3)]
  consider "Tail ts" | "\<not> Tail ts" "vs = []" | "\<not> Tail ts" "vs \<noteq> []" by blast
  then show ?thesis
  proof cases
    case 1
    then show ?thesis using f assms(2) by (auto simp: makeSliceWriter_def intro: writesI)
  next
    case 2
    then have "es = []" using assms(1) by simp
    then show ?thesis using 2 assms(2)
      by (auto simp: makeSliceWriter_def rlp_list_def rlp_head_def intro: writes_str)
  next
    case 3
    have "writes (makeSliceWriter ts wr) v (rlp_list (concat es))"
      by (rule writesI[OF frame(1)]) (simp only: makeSliceWriter_def assms(2) option.case 3 if_False length_0_conv frame(2))
    then show ?thesis using 3 by simp
  qed
qed

subsection \<open>Basic types\<close>

lemma writeBytes_value_writes: "length b < 2 ^ 63 \<Longrightarrow> writes writeBytes_value (VBytes (Some b)) (rlp_str b)"
  by (rule writesI[OF emits_writeBytes]) auto

lemma writeString_value_writes: "length b < 2 ^ 63 \<Longrightarrow> writes writeString_value (VString b) (rlp_str b)"
  by (rule writesI[OF emits_writeBytes]) (auto simp: writeBytes_def)

lemma writeRawValue_writes: "writes writeRawValue (VBytes (Some b)) b"
  by (rule writes_str) simp

lemma writeUint_writes: "writes writeUint (VUint i) (rlp_str (be_bytes (unat i)))"
  by (rule writesI[OF emits_writeUint64]) simp

lemma writeBool_value_writes: "writes writeBool_value (VBool b) (rlp_str (if b then [1] else []))"
  by (rule writesI[OF emits_writeBool]) simp

lemma writeBigInt_writes:
  assumes "length (rlp_str (be_bytes i)) < 2 ^ 63"
  shows "writes writeBigIntPtr (VBigPtr (Some (int i))) (rlp_str (be_bytes i))"
    and "writes writeBigIntNoPtr (VBigInt (int i)) (rlp_str (be_bytes i))"
proof -
  have "length (be_bytes i) < 2 ^ 64" using length_rlp_str_ge[of "be_bytes i"] assms by simp
  from emits_writeBigInt[OF this]
  show "writes writeBigIntPtr (VBigPtr (Some (int i))) (rlp_str (be_bytes i))"
    "writes writeBigIntNoPtr (VBigInt (int i)) (rlp_str (be_bytes i))" by (auto intro: writesI)
qed

lemma makeByteArrayWriter_writes:
  assumes "length b < 2 ^ 63"
  shows "writes (makeByteArrayWriter (length b)) (VByteArray b) (rlp_str b)"
proof -
  consider "b = []" | x where "b = [x]" | "length b \<ge> 2"
    by (cases b rule: list.exhaust[case_product list.exhaust[of "tl b"]]) (auto simp: Suc_le_eq)
  then show ?thesis
  proof cases
    case 1
    then show ?thesis by (auto simp: makeByteArrayWriter_def rlp_str_def rlp_head_def intro: writes_str)
  next
    case 2
    then show ?thesis
      by (auto simp: makeByteArrayWriter_def rlp_str_def rlp_head_def byte_le_7F intro!: writes_str)
  next
    case 3
    have "emits (\<lambda>w. buf_Write b (encodeStringHeader (length b) w)) (rlp_head 0x80 0xB7 (length b) @ b)"
      using emits_encodeStringHeader emits_Write by (rule emits_seq) (use assms in simp)
    then show ?thesis
      using 3 by (auto simp: makeByteArrayWriter_def rlp_str_def buf_Write_def Let_def elim!: writesI)
  qed
qed

subsection \<open>Interfaces\<close>

lemma size_elem: "v \<in> set vs \<Longrightarrow> size v \<le> size_list size vs"
  by (induction vs) auto

lemma writeInterface_writes:
  "size (iface_of it) \<le> n \<Longrightarrow> length (rlp_enc it) < 2 ^ 63 \<Longrightarrow>
    writes (writeInterface (cachedWriter n)) (iface_of it) (rlp_enc it)"
proof (induction it arbitrary: n)
  case (RStr b)
  then obtain m where n: "n = Suc m" by (cases n) (auto simp: iface_bytes_def)
  have "length b < 2 ^ 63" using RStr(2) length_rlp_str_ge[of b] by simp
  from writeBytes_value_writes[OF this] show ?case
    by (auto simp: writes_def iface_bytes_def n isByte_def)
next
  case (RList xs)
  then obtain m where n: "n = Suc m" by (cases n) (auto simp: iface_list_def)
  have len: "length (concat (map rlp_enc xs)) < 2 ^ 63"
    using RList(3) length_rlp_list_gt[of "concat (map rlp_enc xs)"] by simp
  have "writes (writeInterface (cachedWriter m)) (iface_of x) (rlp_enc x)" if x: "x \<in> set xs" for x
  proof (rule RList.IH[OF x])
    have "size (iface_of x) \<le> size_list size (map iface_of xs)" using x by (intro size_elem) simp
    then show "size (iface_of x) \<le> m" using RList.prems(1) by (simp add: iface_list_def n)
    have "length (rlp_enc x) \<le> length (concat (map rlp_enc xs))" using x by (induction xs) auto
    then show "length (rlp_enc x) < 2 ^ 63" using len by simp
  qed
  then have "list_all2 (writes (writeInterface (cachedWriter m))) (map iface_of xs) (map rlp_enc xs)"
    by (simp add: list_all2_map1 list_all2_map2 list.rel_refl_strong)
  from makeSliceWriter_writes[OF this, of "VSlice (Some (map iface_of xs))" no_tags] len
  show ?case by (auto simp: writes_def iface_list_def n isByte_def)
qed

end
