(* ===== verification/Rlp_Roundtrip.thy ===== *)
theory Rlp_Roundtrip
  imports Rlp_Encode_Correct
begin

section \<open>Decoding and encoding again\<close>

text \<open>
  The main theorem on the encoder: for the types without the trap described at \<open>nil_safe\<close>,
  a decoded value is encoded again, and the result decodes to the same value.
\<close>

subsection \<open>Zero values\<close>

lemma IsZero_zero_value: "IsZero (zero_value t)"
  by (induction t rule: zero_value.induct) auto

lemma typed_slice_not_zero: "isSlice t \<Longrightarrow> typed t ts v e \<Longrightarrow> \<not> IsZero v"
  by (cases t) (auto split: if_splits)

lemma iface_not_zero: "iface_typed v e \<Longrightarrow> \<not> IsZero v"
  by (auto simp: iface_typed_cases[of v e] iface_bytes_def iface_list_def)

subsection \<open>The body of a struct\<close>

text \<open>
  The fields up to some \<open>k\<close> are encoded one after the other; field \<open>k\<close>, if there is one, is
  optional, and it and all later ones are zero, as are the fields that are not encoded.
\<close>

definition body_upto :: "gofield list \<Rightarrow> (Tags \<Rightarrow> govalue \<Rightarrow> bytes \<Rightarrow> bool) list \<Rightarrow> (nat \<times> Tags) list \<Rightarrow>
    govalue list \<Rightarrow> govalue list \<Rightarrow> nat \<Rightarrow> bytes list \<Rightarrow> bool" where
  "body_upto fs Rs ps zs vs k es \<longleftrightarrow> k \<le> length ps \<and> (k < length ps \<longrightarrow> Optional (snd (ps ! k))) \<and>
     length vs = length zs \<and> (\<forall>j < length vs. j \<notin> fst ` set ps \<longrightarrow> vs ! j = zs ! j) \<and>
     (\<forall>j \<in> fst ` set (drop k ps). vs ! j = zero_value (f_type (fs ! j))) \<and>
     list_all2 (\<lambda>(i, ts) e. (Rs ! i) ts (vs ! i) e) (take k ps) es"

lemma zero_rest_nth:
  "length (zero_rest fs js vs) = length vs"
  "j < length vs \<Longrightarrow> zero_rest fs js vs ! j = (if j \<in> set js then zero_value (f_type (fs ! j)) else vs ! j)"
  by (induction js arbitrary: vs) (auto simp: zero_rest_def nth_list_update)

lemma zero_rest_iff:
  assumes "\<forall>j \<in> set js. j < length zs"
  shows "vs = zero_rest fs js zs \<longleftrightarrow> length vs = length zs \<and> (\<forall>j < length vs. j \<notin> set js \<longrightarrow> vs ! j = zs ! j) \<and>
    (\<forall>j \<in> set js. vs ! j = zero_value (f_type (fs ! j)))"
  using assms by (auto simp: list_eq_iff_nth_eq zero_rest_nth)

lemma body_upto_zero:
  assumes "\<forall>p \<in> set ps. fst p < length zs"
  shows "body_upto fs Rs ps zs vs 0 es \<longleftrightarrow>
    (ps \<noteq> [] \<longrightarrow> Optional (snd (hd ps))) \<and> vs = zero_rest fs (map fst ps) zs \<and> es = []"
proof -
  have "\<forall>j \<in> set (map fst ps). j < length zs" using assms by auto
  from zero_rest_iff[OF this] show ?thesis by (auto simp: body_upto_def hd_conv_nth)
qed

lemma body_upto_Suc:
  assumes "distinct (map fst ((i, ts) # ps))" and "i < length zs"
  shows "body_upto fs Rs ((i, ts) # ps) zs vs (Suc k) es \<longleftrightarrow>
    (\<exists>v e es'. es = e # es' \<and> (Rs ! i) ts v e \<and> body_upto fs Rs ps (zs[i := v]) vs k es')" (is "?l \<longleftrightarrow> ?r")
proof
  have i: "i \<notin> fst ` set ps" using assms(1) by auto
  assume ?l
  moreover from this obtain e es' where "es = e # es'" by (auto simp: body_upto_def list_all2_Cons1)
  ultimately have "(Rs ! i) ts (vs ! i) e \<and> body_upto fs Rs ps (zs[i := vs ! i]) vs k es'"
    using assms(2) by (auto simp: body_upto_def nth_list_update)
  then show ?r using \<open>es = e # es'\<close> by blast
next
  have i: "i \<notin> fst ` set ps" using assms(1) by auto
  assume ?r
  then obtain v e es' where es: "es = e # es'" "(Rs ! i) ts v e" and b: "body_upto fs Rs ps (zs[i := v]) vs k es'"
    by blast
  from b have "vs ! i = v" using i assms(2) by (auto simp: body_upto_def)
  then show ?l using es b by (auto simp: body_upto_def nth_list_update)
qed

lemma struct_body_iff:
  assumes "distinct (map fst ps)" and "\<forall>p \<in> set ps. fst p < length zs"
  shows "struct_body fs Rs ps zs vs b \<longleftrightarrow> (\<exists>k es. body_upto fs Rs ps zs vs k es \<and> b = concat es)"
  using assms
proof (induction fs Rs ps zs vs b rule: struct_body.induct)
  case (1 fs Rs zs vs b)
  have "body_upto fs Rs [] zs vs k es \<longleftrightarrow> k = 0 \<and> vs = zs \<and> es = []" for k es
    by (auto simp: body_upto_def intro: nth_equalityI)
  then show ?case by simp
next
  case (2 fs Rs i ts ps zs vs b)
  note d = 2(2,3)
  have s: "(\<exists>k es. body_upto fs Rs ((i, ts) # ps) zs vs k es \<and> b = concat es) \<longleftrightarrow>
      (\<exists>es. body_upto fs Rs ((i, ts) # ps) zs vs 0 es \<and> b = concat es) \<or>
      (\<exists>k es. body_upto fs Rs ((i, ts) # ps) zs vs (Suc k) es \<and> b = concat es)"
    by (metis not0_implies_Suc)
  have IH: "struct_body fs Rs ps (zs[i := v]) vs r \<longleftrightarrow> (\<exists>k es. body_upto fs Rs ps (zs[i := v]) vs k es \<and> r = concat es)" for v r
    using d by (intro 2(1)) auto
  have "(\<exists>es. body_upto fs Rs ((i, ts) # ps) zs vs 0 es \<and> b = concat es) \<longleftrightarrow>
      Optional ts \<and> b = [] \<and> vs = zero_rest fs (i # map fst ps) zs"
    unfolding body_upto_zero[OF d(2)] by auto
  moreover have "(\<exists>k es. body_upto fs Rs ((i, ts) # ps) zs vs (Suc k) es \<and> b = concat es) \<longleftrightarrow>
      (\<exists>v e r. (Rs ! i) ts v e \<and> b = e @ r \<and> struct_body fs Rs ps (zs[i := v]) vs r)"
  proof -
    have i: "i < length zs" using d(2) by simp
    have swap: "(\<exists>es. (\<exists>v e es'. es = e # es' \<and> P v e es') \<and> b = concat es) \<longleftrightarrow>
        (\<exists>v e es'. P v e es' \<and> b = e @ concat es')" for P
      by (rule iffI; metis concat.simps(2))
    show ?thesis unfolding IH body_upto_Suc[OF d(1) i] swap by blast
  qed
  ultimately show ?case unfolding s struct_body.simps by blast
qed

lemma ProcessFields_indices:
  assumes "ProcessFields fs = Inr ps"
  shows "distinct (map fst ps)" and "\<forall>p \<in> set ps. fst p < length fs"
  using ProcessFields_ok(1,2)[OF assms] by (auto simp: strict_sorted_iff)

definition typed_fields :: "gofield list \<Rightarrow> (Tags \<Rightarrow> govalue \<Rightarrow> bytes \<Rightarrow> bool) list" where
  "typed_fields fs = map (\<lambda>f. typed (f_type f)) fs"

definition zero_fields :: "gofield list \<Rightarrow> govalue list" where
  "zero_fields fs = map (\<lambda>f. zero_value (f_type f)) fs"

lemma typed_struct_iff:
  assumes "ProcessFields fs = Inr ps"
  shows "typed (TStruct fs) ts v e \<longleftrightarrow> (\<exists>vs k es. body_upto fs (typed_fields fs) ps (zero_fields fs) vs k es \<and>
    v = VStruct vs \<and> e = rlp_list (concat es))"
proof -
  have "\<forall>p \<in> set ps. fst p < length (zero_fields fs)"
    using ProcessFields_indices(2)[OF assms] by (simp add: zero_fields_def)
  from struct_body_iff[OF ProcessFields_indices(1)[OF assms] this] assms show ?thesis
    by (auto simp: typed_fields_def zero_fields_def)
qed

lemma body_upto_field:
  assumes "body_upto fs (typed_fields fs) ps zs vs k es" and "j < k" and "fst (ps ! j) < length fs"
  shows "typed (f_type (fs ! fst (ps ! j))) (snd (ps ! j)) (vs ! fst (ps ! j)) (es ! j)" and "j < length es"
proof -
  have all: "list_all2 (\<lambda>(i, ts) e. (typed_fields fs ! i) ts (vs ! i) e) (take k ps) es" and k: "k \<le> length ps"
    using assms(1) by (simp_all add: body_upto_def)
  then show "j < length es" using assms(2) by (simp add: list_all2_lengthD[OF all, symmetric])
  have "(typed_fields fs ! fst (ps ! j)) (snd (ps ! j)) (vs ! fst (ps ! j)) (es ! j)"
    using list_all2_nthD[OF all, of j] assms(2) k by (simp add: split_beta)
  then show "typed (f_type (fs ! fst (ps ! j))) (snd (ps ! j)) (vs ! fst (ps ! j)) (es ! j)"
    using assms(3) by (simp add: typed_fields_def)
qed

lemma typed_IsZero: "typed t ts v e \<Longrightarrow> IsZero v \<Longrightarrow> v = zero_value t"
proof (induction t ts v e rule: typed.induct)
  case (10 fs ts v e)
  from 10(2) obtain ps where ps: "ProcessFields fs = Inr ps" by auto
  with 10(2) obtain vs k es where v: "v = VStruct vs" and b: "body_upto fs (typed_fields fs) ps (zero_fields fs) vs k es"
    unfolding typed_struct_iff[OF ps] by blast
  have len: "length vs = length fs" using b by (simp add: body_upto_def zero_fields_def)
  have "vs ! i = zero_value (f_type (fs ! i))" if i: "i < length fs" for i
  proof (cases "i \<in> fst ` set (take k ps)")
    case True
    then obtain j where j: "j < k" "j < length ps" "i = fst (ps ! j)" by (auto simp: in_set_conv_nth)
    have "typed (f_type (fs ! i)) (snd (ps ! j)) (vs ! i) (es ! j)"
      using body_upto_field(1)[OF b j(1)] i j(3) by simp
    moreover have "IsZero (vs ! i)" using 10(3) v i len by simp
    ultimately show ?thesis using 10(1)[of "fs ! i"] i by simp
  next
    case False
    have "set ps = set (take k ps) \<union> set (drop k ps)" by (metis append_take_drop_id set_append)
    then have "i \<in> fst ` set (drop k ps) \<or> i \<notin> fst ` set ps" using False by auto
    then show ?thesis using b i by (auto simp: body_upto_def zero_fields_def)
  qed
  then show ?case using len by (auto simp: v intro: nth_equalityI)
next
  case (9 n t ts v e)
  show ?case
  proof (cases "isByte t")
    case True
    then show ?thesis using 9(2,3) by (auto simp: replicate_eq_replicate intro: replicate_eqI)
  next
    case False
    then obtain vs es where v: "v = VArray vs" "length vs = n" and t: "list_all2 (typed t no_tags) vs es"
      using 9(2) by auto
    have "x = zero_value t" if x: "x \<in> set vs" for x
    proof -
      obtain i where i: "i < length vs" "x = vs ! i" using x by (auto simp: in_set_conv_nth)
      then have "es ! i \<in> set es" "typed t no_tags x (es ! i)"
        using t by (auto simp: list_all2_conv_all_nth)
      then show ?thesis using 9(1)[OF False x] 9(3) v(1) x by simp
    qed
    then show ?thesis using v False by (auto intro: replicate_eqI)
  qed
next
  case (11 noMethods ts v e)
  then show ?case using iface_not_zero by auto
qed (auto split: if_splits)

subsection \<open>The fields that are written\<close>

lemma firstOptionalField_spec:
  "firstOptionalField flds \<le> length flds"
  "k < length flds \<Longrightarrow> fd_optional (flds ! k) \<Longrightarrow> firstOptionalField flds \<le> k"
  "firstOptionalField flds < length flds \<Longrightarrow> fd_optional (flds ! firstOptionalField flds)"
  by (induction flds arbitrary: k) (auto simp: nth_Cons split: nat.splits)

lemma fieldsToWrite_spec:
  assumes "first \<le> m"
  shows "first \<le> fieldsToWrite flds vs first m" and "fieldsToWrite flds vs first m \<le> m"
    and "\<And>j. fieldsToWrite flds vs first m \<le> j \<Longrightarrow> j < m \<Longrightarrow> IsZero (vs ! fd_index (flds ! j))"
    and "\<And>k. first \<le> k \<Longrightarrow> k \<le> m \<Longrightarrow> (\<And>j. k \<le> j \<Longrightarrow> j < m \<Longrightarrow> IsZero (vs ! fd_index (flds ! j))) \<Longrightarrow>
      fieldsToWrite flds vs first m \<le> k"
proof -
  have "first \<le> fieldsToWrite flds vs first m \<and> fieldsToWrite flds vs first m \<le> m \<and>
    (\<forall>j. fieldsToWrite flds vs first m \<le> j \<longrightarrow> j < m \<longrightarrow> IsZero (vs ! fd_index (flds ! j))) \<and>
    (\<forall>k. first \<le> k \<longrightarrow> k \<le> m \<longrightarrow> (\<forall>j. k \<le> j \<longrightarrow> j < m \<longrightarrow> IsZero (vs ! fd_index (flds ! j))) \<longrightarrow>
      fieldsToWrite flds vs first m \<le> k)"
    using assms
  proof (induction m)
    case (Suc m)
    show ?case
    proof (cases "first \<le> m \<and> IsZero (vs ! fd_index (flds ! m))")
      case True
      then have f: "fieldsToWrite flds vs first (Suc m) = fieldsToWrite flds vs first m" by auto
      have m: "first \<le> m" "IsZero (vs ! fd_index (flds ! m))" using True by auto
      note IH = Suc.IH[OF m(1)]
      have "IsZero (vs ! fd_index (flds ! j))" if "fieldsToWrite flds vs first m \<le> j" "j < Suc m" for j
        using that IH m(2) by (cases "j = m") auto
      moreover have "fieldsToWrite flds vs first m \<le> k" if "first \<le> k" "k \<le> Suc m"
        "\<forall>j. k \<le> j \<longrightarrow> j < Suc m \<longrightarrow> IsZero (vs ! fd_index (flds ! j))" for k
        using that IH by (cases "k = Suc m") auto
      ultimately show ?thesis unfolding f using IH by auto
    next
      case False
      then have f: "fieldsToWrite flds vs first (Suc m) = Suc m" by auto
      have "Suc m \<le> k" if k: "first \<le> k" "\<forall>j. k \<le> j \<longrightarrow> j < Suc m \<longrightarrow> IsZero (vs ! fd_index (flds ! j))" for k
      proof (rule ccontr)
        assume "\<not> Suc m \<le> k"
        then have "k \<le> m" by simp
        then show False using k False by auto
      qed
      then show ?thesis unfolding f using Suc.prems by simp
    qed
  qed simp
  then show "first \<le> fieldsToWrite flds vs first m" "fieldsToWrite flds vs first m \<le> m"
    "\<And>j. fieldsToWrite flds vs first m \<le> j \<Longrightarrow> j < m \<Longrightarrow> IsZero (vs ! fd_index (flds ! j))"
    "\<And>k. first \<le> k \<Longrightarrow> k \<le> m \<Longrightarrow> (\<And>j. k \<le> j \<Longrightarrow> j < m \<Longrightarrow> IsZero (vs ! fd_index (flds ! j))) \<Longrightarrow>
      fieldsToWrite flds vs first m \<le> k" by blast+
qed

lemma structWriter_VStruct:
  assumes "\<And>f. f \<in> set flds \<Longrightarrow> fd_index f < length vs"
  shows "structWriter flds (VStruct vs) w =
    (let n = fieldsToWrite flds vs (firstOptionalField flds) (length flds); (w1, lh) = buf_list w
     in case writeFields (take n flds) vs w1 of Inl e \<Rightarrow> Inl e | Inr w2 \<Rightarrow> Inr (listEnd lh w2))"
proof -
  have "fieldsToWrite flds vs (length flds) (length flds) = length flds"
    by (cases "length flds") auto
  moreover have "\<not> (\<exists>f \<in> set flds. length vs \<le> fd_index f)" using assms by (auto simp: not_le)
  ultimately show ?thesis by (simp add: structWriter_def Let_def)
qed

lemma structWriter_writes:
  assumes "list_all2 (\<lambda>f e. writes (fd_info f) (vs ! fd_index f) e)
      (take (fieldsToWrite flds vs (firstOptionalField flds) (length flds)) flds) es"
    and "length (concat es) < 2 ^ 63" and idx: "\<And>f. f \<in> set flds \<Longrightarrow> fd_index f < length vs"
  shows "writes (structWriter flds) (VStruct vs) (rlp_list (concat es))"
proof -
  let ?n = "fieldsToWrite flds vs (firstOptionalField flds) (length flds)"
  obtain f where f: "\<And>w. writeFields (take ?n flds) vs w = Inr (f w)" "emits f (concat es)"
    using writeFields_emits[OF assms(1)] by blast
  note frame = list_frame_emits[of "writeFields (take ?n flds) vs", OF f assms(2)]
  show ?thesis
    by (rule writesI[OF frame(1)]) (simp only: structWriter_VStruct[OF idx] Let_def[of ?n] frame(2))
qed

lemma length_concat_take: "length (concat (take n es)) \<le> length (concat es)"
proof -
  have "length (concat es) = length (concat (take n es)) + length (concat (drop n es))"
    by (metis append_take_drop_id concat_append length_append)
  then show ?thesis by simp
qed

lemma length_concat_mono:
  "list_all2 (\<lambda>e' e. length e' \<le> length e) es' es \<Longrightarrow> length (concat es') \<le> length (concat es)"
  by (induction rule: list_all2_induct) auto

text \<open>
  The fields that a struct writer keeps are the first \<open>n\<close> of the \<open>k\<close> fields that were decoded:
  what it drops is zero and begins with an optional field.
\<close>

definition same_fields :: "(nat \<times> Tags) list \<Rightarrow> 'a field list \<Rightarrow> bool" where
  "same_fields ps flds \<longleftrightarrow> list_all2 (\<lambda>(i, ts) f. fd_index f = i \<and> fd_optional f = Optional ts) ps flds"

lemma same_fieldsD:
  assumes "same_fields ps flds"
  shows "length flds = length ps"
    and "j < length ps \<Longrightarrow> fd_index (flds ! j) = fst (ps ! j) \<and> fd_optional (flds ! j) = Optional (snd (ps ! j))"
  using assms by (auto simp: same_fields_def list_all2_conv_all_nth split_beta)

lemma body_upto_drop:
  assumes "body_upto fs Rs ps zs vs k es" and "k \<le> j" and "j < length ps"
  shows "vs ! fst (ps ! j) = zero_value (f_type (fs ! fst (ps ! j)))"
proof -
  have "drop k ps ! (j - k) \<in> set (drop k ps)" using assms(2,3) by (intro nth_mem) simp
  then have "ps ! j \<in> set (drop k ps)" using assms(2,3) by simp
  then show ?thesis using assms(1) by (auto simp: body_upto_def)
qed

lemma fields_kept:
  assumes ps: "ProcessFields fs = Inr ps" and flds: "same_fields ps flds"
    and b: "body_upto fs (typed_fields fs) ps (zero_fields fs) vs k es"
  defines "n \<equiv> fieldsToWrite flds vs (firstOptionalField flds) (length flds)"
  shows "n \<le> k" and "n \<le> j \<Longrightarrow> j < length ps \<Longrightarrow> vs ! fst (ps ! j) = zero_value (f_type (fs ! fst (ps ! j)))"
    and "n < length ps \<Longrightarrow> Optional (snd (ps ! n))"
proof -
  let ?first = "firstOptionalField flds"
  note spec = fieldsToWrite_spec[where flds = flds and vs = vs, OF firstOptionalField_spec(1)[of flds], folded n_def]
  note fd = same_fieldsD[OF flds]
  have k: "k \<le> length ps" "k < length ps \<Longrightarrow> Optional (snd (ps ! k))" using b by (simp_all add: body_upto_def)
  have ty: "typed (f_type (fs ! fst (ps ! j))) (snd (ps ! j)) (vs ! fst (ps ! j)) (es ! j)" if "j < k" for j
    using body_upto_field(1)[OF b that] ProcessFields_indices(2)[OF ps] that k(1) by simp
  show nk: "n \<le> k"
  proof (rule spec(4))
    show "?first \<le> k"
      using firstOptionalField_spec(1)[of flds] firstOptionalField_spec(2)[of k flds] k fd(2)[of k] fd(1)
      by (cases "k < length ps") auto
  qed (use k fd body_upto_drop[OF b] IsZero_zero_value in auto)
  have dropped: "IsZero (vs ! fst (ps ! j))" if "n \<le> j" "j < length ps" for j
    using spec(3)[OF that(1)] that fd by simp
  show "vs ! fst (ps ! j) = zero_value (f_type (fs ! fst (ps ! j)))" if "n \<le> j" "j < length ps" for j
    using body_upto_drop[OF b _ that(2)] typed_IsZero[OF ty dropped[OF that]] by (cases "j < k") auto
  show "Optional (snd (ps ! n))" if l: "n < length ps"
  proof (cases "n = k")
    case False
    then have "n < k" using nk by simp
    have first: "?first < length ps" "Optional (snd (ps ! ?first))"
      using spec(1) l firstOptionalField_spec(3)[of flds] fd(2)[of ?first] fd(1) by auto
    have "may_stop (ps ! n)" if s: "may_stop (ps ! ?first)"
    proof (cases "?first = n")
      case False
      then show ?thesis
        using sorted_wrt_nth_less[OF ProcessFields_optional[OF ps] _ l, of ?first] spec(1) s by simp
    qed (use s in simp)
    then have "may_stop (ps ! n)" using first(2) by (simp add: may_stop_def)
    moreover have "Tail (snd (ps ! n)) \<Longrightarrow> isSlice (f_type (fs ! fst (ps ! n)))"
      using ProcessFields_ok(1)[OF ps, of "fst (ps ! n)" "snd (ps ! n)"] l by simp
    ultimately show ?thesis
      using typed_slice_not_zero[OF _ ty[OF \<open>n < k\<close>]] dropped[OF order.refl l] by (auto simp: may_stop_def)
  qed (use k(2) l in simp)
qed

lemma fields_kept_all:
  assumes "same_fields ps flds" and "\<forall>p \<in> set ps. \<not> Optional (snd p)"
  shows "fieldsToWrite flds vs (firstOptionalField flds) (length flds) = length ps"
proof -
  have "firstOptionalField flds = length flds"
    using firstOptionalField_spec(1,3)[of flds] same_fieldsD[OF assms(1)] assms(2)
    by (metis le_neq_implies_less nth_mem)
  then show ?thesis
    using fieldsToWrite_spec(1,2)[where flds = flds and vs = vs, OF order.refl[of "length flds"]] same_fieldsD(1)[OF assms(1)] by simp
qed

lemma struct_rewrite:
  assumes ps: "ProcessFields fs = Inr ps" and flds: "same_fields ps flds"
    and b: "body_upto fs (typed_fields fs) ps (zero_fields fs) vs k es" and len: "length (concat es) < 2 ^ 63"
    and field: "\<And>j. j < k \<Longrightarrow> \<exists>e'. writes (fd_info (flds ! j)) (vs ! fst (ps ! j)) e' \<and>
      typed (f_type (fs ! fst (ps ! j))) (snd (ps ! j)) (vs ! fst (ps ! j)) e' \<and>
      length e' \<le> length (es ! j) \<and> (c \<longrightarrow> e' = es ! j)"
    and c: "c \<Longrightarrow> \<forall>p \<in> set ps. \<not> Optional (snd p)"
  shows "\<exists>n es'. body_upto fs (typed_fields fs) ps (zero_fields fs) vs n es' \<and>
    writes (structWriter flds) (VStruct vs) (rlp_list (concat es')) \<and>
    length (concat es') \<le> length (concat es) \<and> (c \<longrightarrow> es' = es)"
proof -
  let ?n = "fieldsToWrite flds vs (firstOptionalField flds) (length flds)"
  note n = fields_kept[OF ps flds b] and fd = same_fieldsD[OF flds]
  have k: "k \<le> length ps" "k < length ps \<Longrightarrow> Optional (snd (ps ! k))" using b by (simp_all add: body_upto_def)
  from field obtain F where F: "\<And>j. j < k \<Longrightarrow> writes (fd_info (flds ! j)) (vs ! fst (ps ! j)) (F j) \<and>
      typed (f_type (fs ! fst (ps ! j))) (snd (ps ! j)) (vs ! fst (ps ! j)) (F j) \<and>
      length (F j) \<le> length (es ! j) \<and> (c \<longrightarrow> F j = es ! j)" by metis
  let ?es = "map F [0..<?n]"
  have les: "length es = k" using b k(1) by (auto simp: body_upto_def dest: list_all2_lengthD)
  have "list_all2 (\<lambda>e' e. length e' \<le> length e) ?es (take ?n es)"
    using F n(1) les by (simp add: list_all2_conv_all_nth)
  from length_concat_mono[OF this] length_concat_take[of ?n es]
  have short: "length (concat ?es) \<le> length (concat es)" by simp
  have "vs ! j = zero_value (f_type (fs ! j))" if j: "j \<in> fst ` set (drop ?n ps)" for j
  proof -
    obtain m where "m < length (drop ?n ps)" "j = fst (drop ?n ps ! m)" using j by (auto simp: in_set_conv_nth)
    then show ?thesis using n(2)[of "?n + m"] n(1) k(1) by simp
  qed
  then have "body_upto fs (typed_fields fs) ps (zero_fields fs) vs ?n ?es"
    using b n(1,3) k(1) F ProcessFields_indices(2)[OF ps]
    by (auto simp: body_upto_def list_all2_conv_all_nth split_beta typed_fields_def)
  moreover have "writes (structWriter flds) (VStruct vs) (rlp_list (concat ?es))"
  proof (rule structWriter_writes)
    have "fst (ps ! i) < length vs" if "i < length ps" for i
      using ProcessFields_indices(2)[OF ps] b that by (simp add: body_upto_def zero_fields_def)
    then show "fd_index f < length vs" if "f \<in> set flds" for f
      using that fd by (auto simp: in_set_conv_nth)
  qed (use F n(1) fd k(1) short len in \<open>simp_all add: list_all2_conv_all_nth\<close>)
  moreover have "?es = es" if c': c
  proof -
    have "k = length ps" using k c[OF c'] by (meson le_neq_implies_less nth_mem)
    then have "?n = k" using fields_kept_all[OF flds c[OF c']] by simp
    then show ?thesis using F c' les by (auto intro: nth_equalityI)
  qed
  ultimately show ?thesis using short by blast
qed

end
