(* ===== verification/Rlp_Codec.thy ===== *)
theory Rlp_Codec
  imports Rlp_Roundtrip
begin

section \<open>The encoder and the decoder together\<close>

text \<open>
  \<open>rigid t\<close>: the type has no optional fields, so that a value has one encoding only.

  \<open>nil_safe t ts\<close>: a pointer field with one of the \<open>nil\<close> tags points to a rigid type.  Without
  it the codec is not faithful: a pointer to a struct that has optional fields only, all of
  them zero, is written as an empty list, which is read as a nil pointer.
\<close>

fun rigid :: "gotype \<Rightarrow> bool" where
  "rigid (TSlice t) \<longleftrightarrow> rigid t"
| "rigid (TArray n t) \<longleftrightarrow> rigid t"
| "rigid (TPtr t) \<longleftrightarrow> rigid t"
| "rigid (TStruct fs) \<longleftrightarrow> (case ProcessFields fs of Inl e \<Rightarrow> True
     | Inr ps \<Rightarrow> \<forall>p \<in> set ps. \<not> Optional (snd p) \<and> map (\<lambda>f. rigid (f_type f)) fs ! fst p)"
| "rigid _ \<longleftrightarrow> True"

fun nil_safe :: "gotype \<Rightarrow> Tags \<Rightarrow> bool" where
  "nil_safe (TSlice t) ts \<longleftrightarrow> nil_safe t no_tags"
| "nil_safe (TArray n t) ts \<longleftrightarrow> nil_safe t no_tags"
| "nil_safe (TPtr t) ts \<longleftrightarrow> (NilOK ts \<longrightarrow> rigid t) \<and> nil_safe t no_tags"
| "nil_safe (TStruct fs) ts \<longleftrightarrow> (case ProcessFields fs of Inl e \<Rightarrow> True
     | Inr ps \<Rightarrow> \<forall>p \<in> set ps. (map (\<lambda>f. nil_safe (f_type f)) fs ! fst p) (snd p))"
| "nil_safe _ ts \<longleftrightarrow> True"

definition encodes_back :: "gotype \<Rightarrow> Tags \<Rightarrow> writer \<Rightarrow> govalue \<Rightarrow> bytes \<Rightarrow> bool" where
  "encodes_back t ts wr v e \<longleftrightarrow> (\<exists>e'. writes wr v e' \<and> typed t ts v e' \<and> length e' \<le> length e \<and> (rigid t \<longrightarrow> e' = e))"

lemma encodes_backI: "writes wr v e \<Longrightarrow> typed t ts v e \<Longrightarrow> encodes_back t ts wr v e"
  by (auto simp: encodes_back_def)

lemma elems_rewrite:
  assumes "list_all2 R vs es" and "\<And>v e. v \<in> set vs \<Longrightarrow> e \<in> set es \<Longrightarrow> R v e \<Longrightarrow>
    \<exists>e'. writes wr v e' \<and> R v e' \<and> length e' \<le> length e \<and> (c \<longrightarrow> e' = e)"
  shows "\<exists>es'. list_all2 (writes wr) vs es' \<and> list_all2 R vs es' \<and> length (concat es') \<le> length (concat es) \<and>
    (c \<longrightarrow> es' = es)"
  using assms
proof (induction rule: list_all2_induct)
  case (Cons v vs e es)
  then obtain es' where es: "list_all2 (writes wr) vs es'" "list_all2 R vs es'" "length (concat es') \<le> length (concat es)"
    "c \<longrightarrow> es' = es" by (metis list.set_intros(2))
  obtain e' where "writes wr v e'" "R v e'" "length e' \<le> length e" "c \<longrightarrow> e' = e"
    using Cons.prems[of v e] Cons.hyps by auto
  then show ?case using es by (intro exI[of _ "e' # es'"]) simp
qed simp

lemma length_rlp_list_mono: "length a \<le> length b \<Longrightarrow> length (rlp_list a) \<le> length (rlp_list b)"
proof -
  assume le: "length a \<le> length b"
  have "length (be_bytes (length a)) \<le> length (be_bytes (length b))"
    using le length_be_bytes_iff[of "length b" "length (be_bytes (length b))"] by (simp add: length_be_bytes_iff)
  then show ?thesis using le by (auto simp: rlp_list_def rlp_head_def)
qed

lemma length_in_concat: "e \<in> set es \<Longrightarrow> length e \<le> length (concat es)"
  by (induction es) auto

text \<open>Slices and arrays, from the rewriting of their elements.\<close>

lemma makeSliceWriter_encodes_back:
  assumes "list_all2 (typed t no_tags) vs es" and "elements v = Some vs"
    and "\<And>v e. v \<in> set vs \<Longrightarrow> typed t no_tags v e \<Longrightarrow> length e < 2 ^ 63 \<Longrightarrow> encodes_back t no_tags wr v e"
    and "length (if Tail ts then concat es else rlp_list (concat es)) < 2 ^ 63"
  shows "\<exists>es'. list_all2 (typed t no_tags) vs es' \<and>
    writes (makeSliceWriter ts wr) v (if Tail ts then concat es' else rlp_list (concat es')) \<and>
    length (concat es') \<le> length (concat es) \<and> (rigid t \<longrightarrow> es' = es)"
proof -
  have len: "length (concat es) < 2 ^ 63"
    using assms(4) length_rlp_list_gt[of "concat es"] by (auto split: if_splits)
  have "\<exists>es'. list_all2 (writes wr) vs es' \<and> list_all2 (typed t no_tags) vs es' \<and>
      length (concat es') \<le> length (concat es) \<and> (rigid t \<longrightarrow> es' = es)"
  proof (rule elems_rewrite[OF assms(1)])
    fix v e assume "v \<in> set vs" "e \<in> set es" "typed t no_tags v e"
    moreover from this have "length e < 2 ^ 63" using length_in_concat[of e es] len by simp
    ultimately show "\<exists>e'. writes wr v e' \<and> typed t no_tags v e' \<and> length e' \<le> length e \<and> (rigid t \<longrightarrow> e' = e)"
      using assms(3) by (simp add: encodes_back_def)
  qed
  then obtain es' where es: "list_all2 (writes wr) vs es'" "list_all2 (typed t no_tags) vs es'"
    "length (concat es') \<le> length (concat es)" "rigid t \<longrightarrow> es' = es" by blast
  then show ?thesis using makeSliceWriter_writes[OF es(1) assms(2), of ts] len by auto
qed

lemma empty_value_cases: "k \<noteq> Byte \<Longrightarrow> [if k = String then 0x80 else 0xC0] = empty_value k"
  by (simp add: empty_value_def)

lemma makePtrWriter_encodes_back:
  assumes "typed (TPtr t) ts v e" and "NilOK ts \<longrightarrow> rigid t"
    and "\<And>w. v = VPtr (Some w) \<Longrightarrow> typed t no_tags w e \<Longrightarrow> encodes_back t no_tags wr w e"
  shows "encodes_back (TPtr t) ts (makePtrWriter t ts wr) v e"
proof (cases v)
  case (VPtr p)
  show ?thesis
  proof (cases p)
    case None
    then have "e = empty_value (typeNilKind t ts)" using assms(1) VPtr by (auto split: if_splits)
    then have "writes (makePtrWriter t ts wr) v e"
      using None VPtr by (auto simp: makePtrWriter_def empty_value_def intro: writes_str)
    then show ?thesis using assms(1) by (rule encodes_backI)
  next
    case (Some w)
    then have "typed t no_tags w e" using assms(1) VPtr by (auto split: if_splits)
    then obtain e' where e: "writes wr w e'" "typed t no_tags w e'" "length e' \<le> length e" "rigid t \<longrightarrow> e' = e"
      using assms(3) VPtr Some unfolding encodes_back_def by blast
    have "writes (makePtrWriter t ts wr) v e'"
      using e(1) VPtr Some by (auto simp: makePtrWriter_def writes_def)
    moreover have "typed (TPtr t) ts v e'" using assms(1,2) e VPtr Some by (auto split: if_splits)
    ultimately show ?thesis using e(3,4) by (auto simp: encodes_back_def)
  qed
qed (use assms(1) in \<open>auto split: if_splits\<close>)

lemma size_struct_field: "i < length vs \<Longrightarrow> size (vs ! i) \<le> size (VStruct vs)"
  using size_elem[of "vs ! i" vs] by simp

lemma structWriter_encodes_back:
  assumes ps: "ProcessFields fs = Inr ps" and flds: "structFields fs infos = Inr flds"
    and t: "typed (TStruct fs) ts v e" and len: "length e < 2 ^ 63"
    and field: "\<And>i us wr w f. i < length fs \<Longrightarrow> (i, us) \<in> set ps \<Longrightarrow> (infos ! i) us = Inr wr \<Longrightarrow> size w \<le> size v \<Longrightarrow>
      typed (f_type (fs ! i)) us w f \<Longrightarrow> length f < 2 ^ 63 \<Longrightarrow> encodes_back (f_type (fs ! i)) us wr w f"
  shows "encodes_back (TStruct fs) ts (structWriter flds) v e"
proof -
  obtain vs k es where b: "body_upto fs (typed_fields fs) ps (zero_fields fs) vs k es"
    and v: "v = VStruct vs" and e: "e = rlp_list (concat es)" using t unfolding typed_struct_iff[OF ps] by blast
  have lc: "length (concat es) < 2 ^ 63" using len length_rlp_list_gt[of "concat es"] e by simp
  from flds obtain qs where "ProcessFields fs = Inr qs" and "list_all2 (\<lambda>(i, ts) f.
      (infos ! i) ts = Inr (fd_info f) \<and> fd_index f = i \<and> fd_optional f = Optional ts) qs flds"
    by (rule structFields_parts)
  with ps have all: "list_all2 (\<lambda>(i, ts) f.
      (infos ! i) ts = Inr (fd_info f) \<and> fd_index f = i \<and> fd_optional f = Optional ts) ps flds" by simp
  then have same: "same_fields ps flds"
    unfolding same_fields_def by (rule list_all2_mono) auto
  have k: "k \<le> length ps" and lv: "length vs = length fs" using b by (simp_all add: body_upto_def zero_fields_def)
  let ?c = "rigid (TStruct fs)"
  have "\<exists>e'. writes (fd_info (flds ! j)) (vs ! fst (ps ! j)) e' \<and>
      typed (f_type (fs ! fst (ps ! j))) (snd (ps ! j)) (vs ! fst (ps ! j)) e' \<and>
      length e' \<le> length (es ! j) \<and> (?c \<longrightarrow> e' = es ! j)" if j: "j < k" for j
  proof -
    let ?i = "fst (ps ! j)" and ?us = "snd (ps ! j)"
    have p: "ps ! j \<in> set ps" "?i < length fs" "(infos ! ?i) ?us = Inr (fd_info (flds ! j))"
      using j k ProcessFields_indices(2)[OF ps] list_all2_nthD[OF all, of j] by (auto simp: split_beta)
    have "length (es ! j) < 2 ^ 63"
      using length_in_concat[of "es ! j" es] body_upto_field(2)[OF b j p(2)] lc by simp
    with field[OF p(2) _ p(3)] p(1,2) body_upto_field(1)[OF b j p(2)] size_struct_field[of ?i vs] lv v
    have "encodes_back (f_type (fs ! ?i)) ?us (fd_info (flds ! j)) (vs ! ?i) (es ! j)" by simp
    moreover have "?c \<longrightarrow> rigid (f_type (fs ! ?i))" using ps p(1,2) by auto
    ultimately show ?thesis by (auto simp: encodes_back_def)
  qed
  moreover have "\<forall>p \<in> set ps. \<not> Optional (snd p)" if ?c using ps that by simp
  ultimately obtain n es' where n: "body_upto fs (typed_fields fs) ps (zero_fields fs) vs n es'"
    "writes (structWriter flds) (VStruct vs) (rlp_list (concat es'))" "length (concat es') \<le> length (concat es)"
    "?c \<longrightarrow> es' = es" using struct_rewrite[OF ps same b lc, of ?c] by blast
  show ?thesis
    unfolding encodes_back_def typed_struct_iff[OF ps]
    using n length_rlp_list_mono[OF n(3)] v e by blast
qed

lemma makeWriter_ok:
  assumes "makeWriter (cachedWriter n) t ts = Inr wr" and "wf_type t" and "nil_safe t ts"
    and "typed t ts v e" and "length e < 2 ^ 63" and "size v \<le> n" and "Tail ts \<longrightarrow> isSlice t"
  shows "encodes_back t ts wr v e"
  using assms
proof (induction "cachedWriter n" t ts arbitrary: wr v e rule: makeWriter.induct)
  case (1 ts)
  then show ?case by (auto intro!: encodes_backI writeRawValue_writes)
next
  case (2 ts)
  then show ?case by (auto intro!: encodes_backI writeBigInt_writes)
next
  case (3 ts)
  then show ?case by (auto intro!: encodes_backI writeBigInt_writes)
next
  case (4 t ts)
  then obtain w where w: "makeWriter (cachedWriter n) t no_tags = Inr w" "wr = makePtrWriter t ts w"
    by (auto split: sum.splits)
  show ?case
    unfolding w(2) using 4(5) _
  proof (rule makePtrWriter_encodes_back)
    show "NilOK ts \<longrightarrow> rigid t" using 4(4) by simp
    show "encodes_back t no_tags w u e" if "v = VPtr (Some u)" "typed t no_tags u e" for u
      by (rule 4(1)[OF w(1)]) (use 4(3,4,6,7) that in auto)
  qed
next
  case (5 bits ts)
  then show ?case by (auto intro!: encodes_backI writeUint_writes)
next
  case (6 ts)
  then show ?case by (auto intro!: encodes_backI writeBool_value_writes)
next
  case (7 ts)
  then obtain b where b: "v = VString b" "e = rlp_str b" by auto
  then have "length b < 2 ^ 63" using 7 length_rlp_str_ge[of b] by simp
  from writeString_value_writes[OF this] 7 b show ?case by (auto intro!: encodes_backI)
next
  case (8 t ts)
  show ?case
  proof (cases "isByte t")
    case True
    then obtain b where b: "v = VBytes (Some b)" "e = rlp_str b" using 8(5) by auto
    then have "length b < 2 ^ 63" using 8(6) length_rlp_str_ge[of b] by simp
    from writeBytes_value_writes[OF this] 8(2,5) b True show ?thesis by (auto intro!: encodes_backI)
  next
    case False
    then obtain w where w: "makeWriter (cachedWriter n) t no_tags = Inr w" "wr = makeSliceWriter ts w"
      using 8(2) by (auto split: sum.splits)
    obtain vs es where v: "v = VSlice (Some vs)" "list_all2 (typed t no_tags) vs es"
      "e = (if Tail ts then concat es else rlp_list (concat es))" using 8(5) False by auto
    have "encodes_back t no_tags w u f" if "u \<in> set vs" "typed t no_tags u f" "length f < 2 ^ 63" for u f
      by (rule 8(1)[OF False w(1)]) (use 8(3,4,7) that size_elem[OF that(1)] v(1) in auto)
    from makeSliceWriter_encodes_back[OF v(2) _ this, of v ts] 8(6) v
    show ?thesis using w(2) False length_rlp_list_mono by (fastforce simp: encodes_back_def)
  qed
next
  case (9 m t ts)
  show ?case
  proof (cases "isByte t")
    case True
    then obtain b where b: "v = VByteArray b" "e = rlp_str b" "length b = m" using 9(5) by auto
    then have "length b < 2 ^ 63" using 9(6) length_rlp_str_ge[of b] by simp
    from makeByteArrayWriter_writes[OF this] 9(2,5) b True show ?thesis by (auto intro!: encodes_backI)
  next
    case False
    then obtain w where w: "makeWriter (cachedWriter n) t no_tags = Inr w" "wr = makeSliceWriter ts w"
      using 9(2) by (auto split: sum.splits)
    obtain vs es where v: "v = VArray vs" "length vs = m" "list_all2 (typed t no_tags) vs es"
      "e = rlp_list (concat es)" using 9(5) False by auto
    have "encodes_back t no_tags w u f" if "u \<in> set vs" "typed t no_tags u f" "length f < 2 ^ 63" for u f
      by (rule 9(1)[OF False w(1)]) (use 9(3,4,7) that size_elem[OF that(1)] v(1) in auto)
    from makeSliceWriter_encodes_back[OF v(3) _ this, of v ts] 9(6,8) v
    show ?thesis using w(2) False length_rlp_list_mono by (fastforce simp: encodes_back_def)
  qed
next
  case (10 fs ts)
  then obtain flds where flds: "structFields fs (map (\<lambda>f. makeWriter (cachedWriter n) (f_type f)) fs) = Inr flds"
    "wr = structWriter flds" by (auto simp: makeStructWriter_def split: sum.splits)
  obtain ps where ps: "ProcessFields fs = Inr ps" using 10(5) by auto
  show ?case
    unfolding flds(2)
  proof (rule structWriter_encodes_back[OF ps flds(1) 10(5,6)])
    fix i us w u f
    assume i: "i < length fs" "(i, us) \<in> set ps" "(map (\<lambda>f. makeWriter (cachedWriter n) (f_type f)) fs ! i) us = Inr w"
      and u: "size u \<le> size v" "typed (f_type (fs ! i)) us u f" "length f < 2 ^ 63"
    have "nil_safe (f_type (fs ! i)) us" using 10(4) ps i(1,2) by fastforce
    then show "encodes_back (f_type (fs ! i)) us w u f"
      using 10(1)[of "fs ! i" us w u f] 10(3,7) i u ProcessFields_ok(1)[OF ps i(2)] by simp
  qed
next
  case (11 noMethods ts)
  then obtain it where "v = iface_of it" "e = rlp_enc it" by (auto simp: iface_typed_def)
  then show ?case using 11 writeInterface_writes[of it n] by (auto intro!: encodes_backI)
next
  case (12 ts)
  then show ?case by simp
qed

subsection \<open>Types with a decoder have a writer\<close>

lemma structFields_exist:
  "\<not> isl (structFields fs infos) \<longleftrightarrow>
    (\<exists>ps. ProcessFields fs = Inr ps \<and> (\<forall>(i, ts) \<in> set ps. \<not> isl ((infos ! i) ts)))"
proof -
  have "\<not> isl (foldE (\<lambda>acc (i, ts). case (infos ! i) ts of Inl e \<Rightarrow> Inl (InField i e)
         | Inr d \<Rightarrow> Inr (acc @ [\<lparr>fd_index = i, fd_info = d, fd_optional = Optional ts\<rparr>])) acc ps) \<longleftrightarrow>
      (\<forall>(i, ts) \<in> set ps. \<not> isl ((infos ! i) ts))" for acc ps
    by (induction ps arbitrary: acc) (auto split: sum.splits)
  then show ?thesis by (simp add: structFields_def split: sum.splits)
qed

lemma makeWriter_exists: "\<not> isl (makeDecoder t ts) \<Longrightarrow> \<not> isl (makeWriter dyn t ts)"
proof (induction t ts rule: makeDecoder.induct)
  case (10 fs ts)
  have "\<not> isl (structFields fs (map (\<lambda>f. makeDecoder (f_type f)) fs))"
    using 10(2) by (auto simp: makeStructDecoder_def split: sum.splits)
  then obtain ps where ps: "ProcessFields fs = Inr ps" and
    d: "\<forall>(i, us) \<in> set ps. \<not> isl ((map (\<lambda>f. makeDecoder (f_type f)) fs ! i) us)"
    unfolding structFields_exist by blast
  have "\<not> isl ((map (\<lambda>f. makeWriter dyn (f_type f)) fs ! i) us)" if "(i, us) \<in> set ps" for i us
    using 10(1)[of "fs ! i" us] d that ProcessFields_ok(1)[OF ps that] by fastforce
  then have "\<not> isl (structFields fs (map (\<lambda>f. makeWriter dyn (f_type f)) fs))"
    using ps unfolding structFields_exist by blast
  then show ?case by (auto simp: makeStructWriter_def split: sum.splits)
qed (auto split: sum.splits if_splits)

subsection \<open>The entry points\<close>

text \<open>A value that a decoder can produce, of a type for which it is written faithfully.\<close>

definition decodable :: "gotype \<Rightarrow> govalue \<Rightarrow> bytes \<Rightarrow> bool" where
  "decodable t v e \<longleftrightarrow> \<not> isl (makeDecoder t no_tags) \<and> wf_type t \<and> nil_safe t no_tags \<and>
    typed t no_tags v e \<and> length e < 2 ^ 63"

lemma buf_encode_emits:
  assumes "decodable t v e"
  shows "\<exists>f e'. (\<forall>w. buf_encode t v w = Inr (f w)) \<and> emits f e' \<and> decodable t v e' \<and>
    length e' \<le> length e \<and> (rigid t \<longrightarrow> e' = e)"
proof -
  from assms have "\<not> isl (makeWriter (cachedWriter (size v)) t no_tags)"
    by (intro makeWriter_exists) (simp add: decodable_def)
  then obtain wr where wr: "makeWriter (cachedWriter (size v)) t no_tags = Inr wr"
    by (cases "makeWriter (cachedWriter (size v)) t no_tags") auto
  have "encodes_back t no_tags wr v e"
    by (rule makeWriter_ok[OF wr]) (use assms in \<open>simp_all add: decodable_def\<close>)
  then obtain e' f where f: "\<And>w. wr v w = Inr (f w)" "emits f e'"
    and e: "typed t no_tags v e'" "length e' \<le> length e" "rigid t \<longrightarrow> e' = e"
    unfolding encodes_back_def writes_def by blast
  have "buf_encode t v w = Inr (f w)" for w using wr f(1) by (simp add: buf_encode_def)
  moreover have "decodable t v e'" using assms e unfolding decodable_def by (blast intro: le_less_trans)
  ultimately show ?thesis using f(2) e(2,3) by blast
qed

lemma EncodeToBytes_ok:
  assumes "decodable t v e"
  shows "\<exists>e'. EncodeToBytes pooled t v = Inr e' \<and> decodable t v e' \<and> length e' \<le> length e \<and> (rigid t \<longrightarrow> e' = e)"
proof -
  obtain f e' where "\<And>w. buf_encode t v w = Inr (f w)" and e: "emits f e'" "decodable t v e'"
    "length e' \<le> length e" "rigid t \<longrightarrow> e' = e" using buf_encode_emits[OF assms] by blast
  then have "EncodeToBytes pooled t v = Inr e'" by (simp add: EncodeToBytes_def emits_makeBytes)
  then show ?thesis using e by blast
qed

lemma DecodeBytes_decodable:
  assumes "\<not> isl (makeDecoder t no_tags)" and "wf_type t" and "nil_safe t no_tags" and "length b < 2 ^ 63"
  shows "DecodeBytes pooled b t = Inr v \<longleftrightarrow> decodable t v b"
proof -
  obtain dec where "makeDecoder t no_tags = Inr dec" using assms(1) by (cases "makeDecoder t no_tags") auto
  from DecodeBytes_iff[OF this assms(2,4)] assms show ?thesis by (simp add: decodable_def)
qed

lemma decodable_DecodeBytes: "decodable t v b \<Longrightarrow> DecodeBytes pooled b t = Inr v"
  using DecodeBytes_decodable by (simp add: decodable_def)

subsection \<open>The nesting of interfaces\<close>

lemma writeElems_error:
  "writeElems wr vs w = Inl e \<Longrightarrow> \<exists>v \<in> set vs. \<exists>w. wr v w = Inl e"
  by (induction vs arbitrary: w) (auto simp: writeElems_def split: sum.splits)

lemma writeFields_error:
  "writeFields flds vs w = Inl e \<Longrightarrow> \<exists>f \<in> set flds. \<exists>w. fd_info f (vs ! fd_index f) w = Inl e"
  by (induction flds arbitrary: w) (auto simp: writeFields_def split: sum.splits)

lemma makeSliceWriter_error:
  assumes "makeSliceWriter ts wr v w = Inl e" and "e \<noteq> NotOfType"
  shows "\<exists>u w. size u \<le> size v \<and> wr u w = Inl e"
proof -
  obtain vs where vs: "elements v = Some vs" using assms by (cases "elements v") (auto simp: makeSliceWriter_def)
  then obtain u w where "u \<in> set vs" "wr u w = Inl e"
    using assms by (auto simp: makeSliceWriter_def buf_list_def Let_def split: if_splits sum.splits dest!: writeElems_error)
  moreover have "u \<in> set vs \<Longrightarrow> size u \<le> size v"
    using vs size_elem[of u vs] by (cases v rule: elements.cases) auto
  ultimately show ?thesis by blast
qed

lemma structWriter_error:
  assumes "structWriter flds v w = Inl e" and "e \<noteq> NotOfType"
  shows "\<exists>f \<in> set flds. \<exists>u w. size u \<le> size v \<and> fd_info f u w = Inl e"
proof -
  obtain vs where v: "v = VStruct vs" using assms by (cases v) (auto simp: structWriter_def)
  have idx: "fd_index f < length vs" if "f \<in> set flds" for f
    using assms v that by (auto simp: structWriter_def not_le split: if_splits)
  obtain n w1 where "writeFields (take n flds) vs w1 = Inl e"
    using assms(1) v by (auto simp: structWriter_VStruct[OF idx] Let_def split: prod.splits sum.splits)
  from writeFields_error[OF this] obtain f w2 where "f \<in> set flds" "fd_info f (vs ! fd_index f) w2 = Inl e"
    by (auto dest: in_set_takeD)
  then show ?thesis using size_struct_field[OF idx] v by blast
qed

lemma basic_writers_fueled:
  "writeRawValue v w \<noteq> Inl EncOutOfFuel" "writeUint v w \<noteq> Inl EncOutOfFuel"
  "writeBool_value v w \<noteq> Inl EncOutOfFuel" "writeBigIntPtr v w \<noteq> Inl EncOutOfFuel"
  "writeBigIntNoPtr v w \<noteq> Inl EncOutOfFuel" "writeBytes_value v w \<noteq> Inl EncOutOfFuel"
  "writeString_value v w \<noteq> Inl EncOutOfFuel" "makeByteArrayWriter m v w \<noteq> Inl EncOutOfFuel"
proof -
  show "writeBigIntPtr v w \<noteq> Inl EncOutOfFuel" by (induction v w rule: writeBigIntPtr.induct) auto
  have "writeLengthOneByteArray v w \<noteq> Inl EncOutOfFuel" by (induction v w rule: writeLengthOneByteArray.induct) auto
  then show "makeByteArrayWriter m v w \<noteq> Inl EncOutOfFuel"
    by (cases v) (auto simp: makeByteArrayWriter_def Let_def)
qed (cases v; auto)+

lemma makeWriter_fueled_step:
  assumes dyn: "\<And>t wr v w. dyn t = Inr wr \<Longrightarrow> size v < n \<Longrightarrow> wr v w \<noteq> Inl EncOutOfFuel"
  shows "makeWriter dyn t ts = Inr wr \<Longrightarrow> size v \<le> n \<Longrightarrow> wr v w \<noteq> Inl EncOutOfFuel"
proof (induction t ts arbitrary: wr v w rule: makeDecoder.induct)
  case (4 t ts)
  then obtain wr' where wr: "makeWriter dyn t no_tags = Inr wr'" "wr = makePtrWriter t ts wr'"
    by (auto split: sum.splits)
  show ?case
  proof (cases "\<exists>u. v = VPtr (Some u)")
    case True
    then show ?thesis using 4(1)[OF wr(1)] 4(3) wr(2) by (auto simp: makePtrWriter_def)
  qed (cases v; auto simp: wr(2) makePtrWriter_def not_Some_eq)
next
  case (8 t ts)
  show ?case
  proof (cases "isByte t")
    case True
    then show ?thesis using 8(2) basic_writers_fueled by auto
  next
    case False
    then obtain wr' where wr: "makeWriter dyn t no_tags = Inr wr'" "wr = makeSliceWriter ts wr'"
      using 8(2) by (auto split: sum.splits)
    show ?thesis using makeSliceWriter_error[of ts wr' v w EncOutOfFuel] 8(1)[OF False wr(1)] 8(3) wr(2) by fastforce
  qed
next
  case (9 m t ts)
  show ?case
  proof (cases "isByte t")
    case True
    then show ?thesis using 9(2) basic_writers_fueled by auto
  next
    case False
    then obtain wr' where wr: "makeWriter dyn t no_tags = Inr wr'" "wr = makeSliceWriter ts wr'"
      using 9(2) by (auto split: sum.splits)
    show ?thesis using makeSliceWriter_error[of ts wr' v w EncOutOfFuel] 9(1)[OF False wr(1)] 9(3) wr(2) by fastforce
  qed
next
  case (10 fs ts)
  then obtain flds where flds: "structFields fs (map (\<lambda>f. makeWriter dyn (f_type f)) fs) = Inr flds"
    "wr = structWriter flds" by (auto simp: makeStructWriter_def split: sum.splits)
  have field: "fd_info f u w' \<noteq> Inl EncOutOfFuel" if f: "f \<in> set flds" and u: "size u \<le> size v" for f u w'
  proof -
    from flds(1) obtain ps where ps: "ProcessFields fs = Inr ps" and all: "list_all2 (\<lambda>(i, ts) f.
      (map (\<lambda>f. makeWriter dyn (f_type f)) fs ! i) ts = Inr (fd_info f) \<and> fd_index f = i \<and> fd_optional f = Optional ts) ps flds"
      by (rule structFields_parts)
    from f obtain j where j: "j < length ps" "f = flds ! j" using list_all2_lengthD[OF all] by (auto simp: in_set_conv_nth)
    have i: "fst (ps ! j) < length fs" using ProcessFields_indices(2)[OF ps] j(1) by simp
    have "makeWriter dyn (f_type (fs ! fst (ps ! j))) (snd (ps ! j)) = Inr (fd_info f)"
      using list_all2_nthD[OF all j(1)] i j(2) by (simp add: split_beta)
    from 10(1)[OF nth_mem[OF i] this] show ?thesis using u 10(3) by simp
  qed
  show ?case using structWriter_error[of flds v w EncOutOfFuel] field flds(2) by blast
next
  case (11 noMethods ts)
  show ?case
  proof (cases "\<exists>t u. v = VInterface (Some (t, u))")
    case True
    then obtain t u where v: "v = VInterface (Some (t, u))" by blast
    then have "size u < n" using 11(2) by simp
    then show ?thesis using 11(1) v dyn[of t] by (auto split: sum.splits)
  next
    case False
    then have "writeInterface dyn v w \<noteq> Inl EncOutOfFuel"
      by (induction dyn v w rule: writeInterface.induct) auto
    then show ?thesis using 11(1) by simp
  qed
qed (use basic_writers_fueled in auto)

lemma cachedWriter_fueled: "cachedWriter n t = Inr wr \<Longrightarrow> size v < n \<Longrightarrow> wr v w \<noteq> Inl EncOutOfFuel"
proof (induction n arbitrary: t wr v w)
  case (Suc n)
  show ?case
    by (rule makeWriter_fueled_step[of "cachedWriter n" n t no_tags]) (use Suc in auto)
qed simp

lemma buf_encode_fueled: "buf_encode t v w \<noteq> Inl EncOutOfFuel"
  using cachedWriter_fueled[of "Suc (size v)" t _ v w]
  by (auto simp: buf_encode_def simp del: cachedWriter.simps split: sum.splits)

end
