(* ===== verification/Rlp_Iterator.thy ===== *)
theory Rlp_Iterator
  imports Rlp_Raw
begin

section \<open>The list iterator (rlp/iterator.go)\<close>

text \<open>
  An iterator over the items of an encoded list.  \<open>Next\<close> is the one caller of \<open>readKind\<close> that
  goes on after an error: the sizes are zero then, so that it stays where it is.
\<close>

record listIterator =
  it_data :: bytes
  it_next :: bytes
  it_err :: "rlp_error option"

definition NewListIterator :: "bytes \<Rightarrow> rlp_error + listIterator" where
  "NewListIterator data = (case readKind data of Inl e \<Rightarrow> Inl e
     | Inr (k, t, c) \<Rightarrow>
         if k \<noteq> List then Inl ErrExpectedList
         else Inr \<lparr>it_data = subslice (unat t) (unat (t + c)) data, it_next = [], it_err = None\<rparr>)"

definition it_Next :: "listIterator \<Rightarrow> bool \<times> listIterator" where
  "it_Next it =
    (if length (it_data it) = 0 then (False, it)
     else
       let (t, c, err) = (case readKind (it_data it) of Inl e \<Rightarrow> (0, 0, Some e) | Inr (k, t, c) \<Rightarrow> (t, c, None))
       in (True, it\<lparr>it_next := take (unat (t + c)) (it_data it), it_data := drop (unat (t + c)) (it_data it),
            it_err := err\<rparr>))"

definition it_Value :: "listIterator \<Rightarrow> bytes" where
  "it_Value it = it_next it"

definition it_Err :: "listIterator \<Rightarrow> rlp_error option" where
  "it_Err it = it_err it"

text \<open>A client: \<open>for it.Next() { ... it.Value() }\<close>, stopped after \<open>n\<close> rounds.\<close>

fun it_values :: "nat \<Rightarrow> listIterator \<Rightarrow> bytes list \<times> listIterator" where
  "it_values 0 it = ([], it)"
| "it_values (Suc n) it = (case it_Next it of (False, it') \<Rightarrow> ([], it')
     | (True, it') \<Rightarrow> (case it_values n it' of (vs, it'') \<Rightarrow> (it_Value it' # vs, it'')))"

lemma NewListIterator_SplitList:
  assumes "length b < 2 ^ 64"
  shows "NewListIterator b = (case SplitList b of Inl e \<Rightarrow> Inl e
    | Inr (c, rest) \<Rightarrow> Inr \<lparr>it_data = c, it_next = [], it_err = None\<rparr>)"
  using readKind_bounds[OF assms]
  by (auto simp: NewListIterator_def SplitList_def Split_def Let_def split: sum.splits prod.splits)

lemma it_Next_item:
  assumes "length (rlp_enc x @ rest) < 2 ^ 64" and "it_data it = rlp_enc x @ rest"
  shows "it_Next it = (True, it\<lparr>it_next := rlp_enc x, it_data := rest, it_err := None\<rparr>)"
proof -
  obtain ts cs where r: "readKind (rlp_enc x @ rest) = Inr (item_kind x, ts, cs)"
    and n: "unat ts + unat cs = length (rlp_enc x)" using readKind_rlp_enc[OF assms(1)] by blast
  have "unat (ts + cs) = length (rlp_enc x)" using readKind_bounds[OF assms(1) r] n by simp
  then show ?thesis using r assms(2) by (simp add: it_Next_def)
qed

lemma it_values_items:
  assumes "length (concat (map rlp_enc xs)) < 2 ^ 64" and "it_data it = concat (map rlp_enc xs)"
    and "length xs < n"
  shows "fst (it_values n it) = map rlp_enc xs \<and> it_data (snd (it_values n it)) = [] \<and>
    it_Err (snd (it_values n it)) = (if xs = [] then it_Err it else None)"
  using assms
proof (induction xs arbitrary: n it)
  case Nil
  then show ?case by (cases n) (auto simp: it_Next_def)
next
  case (Cons x xs)
  then obtain m where n: "n = Suc m" by (cases n) auto
  have nx: "it_Next it = (True, it\<lparr>it_next := rlp_enc x, it_data := concat (map rlp_enc xs), it_err := None\<rparr>)"
    by (rule it_Next_item) (use Cons.prems in auto)
  have "length (concat (map rlp_enc xs)) < 2 ^ 64" "length xs < m" using Cons.prems n by auto
  from Cons.IH[OF this(1) _ this(2), of "it\<lparr>it_next := rlp_enc x, it_data := concat (map rlp_enc xs), it_err := None\<rparr>"]
  show ?case by (simp add: n nx it_Value_def it_Err_def split_beta)
qed

text \<open>Once an item is malformed, \<open>Next\<close> says for ever that there is another one.\<close>

lemma it_Next_stuck:
  assumes "readKind (it_data it) = Inl e" and "it_data it \<noteq> []"
  shows "it_Next it = (True, it\<lparr>it_next := [], it_err := Some e\<rparr>)"
  using assms by (simp add: it_Next_def)

lemma it_values_stuck:
  assumes "readKind (it_data it) = Inl e" and "it_data it \<noteq> []"
  shows "fst (it_values n it) = replicate n []"
  using assms
proof (induction n arbitrary: it)
  case (Suc n)
  have "fst (it_values n (it\<lparr>it_next := [], it_err := Some e\<rparr>)) = replicate n []"
    by (rule Suc.IH) (use Suc.prems in auto)
  then show ?case by (simp add: it_Next_stuck[OF Suc.prems] it_Value_def split_beta)
qed simp

end
