(* ===== verification/Props_Codec.thy ===== *)
theory Props_Codec
  imports Rlp_Codec Rlp_Iterator
begin

section \<open>Properties of the stream and of the typed codec\<close>

text \<open>
  The properties of the decoding stream and of the encoders and decoders of Go types, each with
  a concrete instance where it has hypotheses.
\<close>

subsection \<open>The stream\<close>

text \<open>The stream and the raw functions accept the same strings: \<open>Bytes\<close> on a fresh stream
  succeeds with a content exactly when \<open>SplitString\<close> finds that content at the start of the
  input, and it leaves the rest that \<open>SplitString\<close> returns to be read.\<close>

theorem Bytes_SplitString:
  assumes "length b < 2 ^ 63"
  shows "SplitString b = Inr (c, rest) \<longleftrightarrow>
    (\<exists>s. Bytes (NewStream b True 0) = (Inr c, s) \<and> s_input s = rest)"
proof -
  let ?s = "NewStream b True 0"
  have fresh: "s_kind ?s = None" "s_input ?s = b" "room (length b) ?s"
    using unat_of_nat_length[OF assms]
    by (auto simp: NewStream_def Stream_Reset_def Let_def room_def listLimit_def)
  have len: "length (s_input ?s) < 2 ^ 63" unfolding fresh(2) by (rule assms)
  have "SplitString b = Inr (c, rest) \<longleftrightarrow> b = rlp_str c @ rest"
    using assms by (intro SplitString_iff) simp
  also have "\<dots> \<longleftrightarrow> (\<exists>s. Bytes ?s = (Inr c, s) \<and> s_input s = rest)"
  proof
    assume b: "b = rlp_str c @ rest"
    then have "room (length (rlp_str c)) ?s" using room_mono[OF fresh(3)] by simp
    then show "\<exists>s. Bytes ?s = (Inr c, s) \<and> s_input s = rest"
      using stream_Bytes.complete[OF fresh(1) len, of "rlp_str c" rest c] b fresh(2) by (auto simp: took_def)
  next
    assume "\<exists>s. Bytes ?s = (Inr c, s) \<and> s_input s = rest"
    then show "b = rlp_str c @ rest"
      using stream_Bytes.sound[OF fresh(1) len] fresh(2) by (fastforce simp: took_def)
  qed
  finally show ?thesis .
qed

theorem Bytes_SplitString_witness:
  "\<exists>s. Bytes (NewStream [0x82, 0x64, 0x6F, 0x01] True 0) = (Inr [0x64, 0x6F], s) \<and> s_input s = [0x01]"
  using Bytes_SplitString[of "[0x82, 0x64, 0x6F, 0x01]" "[0x64, 0x6F]" "[0x01]"]
  by (simp add: SplitString_def Split_def readKind_def Let_def subslice_def)


subsection \<open>Typed decoding\<close>

text \<open>C26: \<open>DecodeBytes\<close> accepts exactly the encodings of the type: for every type that has a
  decoder it returns \<open>v\<close> if and only if the input is an encoding of \<open>v\<close> as a value of that
  type, whatever stream the pool hands out; every other input is refused.\<close>

theorem DecodeBytes_exact:
  assumes "\<not> isl (makeDecoder t no_tags)" and "wf_type t" and "length b < 2 ^ 63"
  shows "DecodeBytes pooled b t = Inr v \<longleftrightarrow> typed t no_tags v b"
proof -
  from assms(1) obtain dec where "makeDecoder t no_tags = Inr dec" by (cases "makeDecoder t no_tags") auto
  then show ?thesis using assms(2,3) by (rule DecodeBytes_iff)
qed

theorem DecodeBytes_exact_witness:
  "typed (TStruct [Field ''A'' True (TUint 64) '''', Field ''B'' True (TPtr TString) ''nil,optional''])
     no_tags (VStruct [VUint 5, VPtr None]) [0xC1, 0x05]"
proof -
  let ?t = "TStruct [Field ''A'' True (TUint 64) '''', Field ''B'' True (TPtr TString) ''nil,optional'']"
  have d: "\<not> isl (makeDecoder ?t no_tags)" by code_simp
  have v: "DecodeBytes zero_stream [0xC1, 0x05] ?t = Inr (VStruct [VUint 5, VPtr None])" by code_simp
  show ?thesis by (rule DecodeBytes_exact[OF d, THEN iffD1, OF _ _ v]) simp_all
qed

text \<open>C27: Decoding returns: on every input the loops over elements and the recursion of
  \<open>decodeInterface\<close> end within as many rounds as there are bytes.\<close>

theorem DecodeBytes_returns:
  assumes "wf_type t" and "length b < 2 ^ 63"
  shows "DecodeBytes pooled b t \<noteq> Inl OutOfFuel"
  using assms by (rule DecodeBytes_fueled)

theorem DecodeBytes_returns_witness:
  "DecodeBytes zero_stream [0xC2, 0xC1, 0x80] (TSlice (TSlice (TInterface True))) \<noteq> Inl OutOfFuel"
  by (rule DecodeBytes_returns) simp_all

text \<open>C28: An empty interface takes any single item and nothing else: decoding into one succeeds
  exactly on the encoding of an item, strings as byte slices and lists as slices of
  interfaces.\<close>

theorem DecodeBytes_interface:
  assumes "length b < 2 ^ 63"
  shows "DecodeBytes pooled b (TInterface True) = Inr v \<longleftrightarrow> (\<exists>it. v = iface_of it \<and> b = rlp_enc it)"
proof -
  have "DecodeBytes pooled b (TInterface True) = Inr v \<longleftrightarrow> typed (TInterface True) no_tags v b"
    using assms by (intro DecodeBytes_iff) simp_all
  then show ?thesis by (simp add: iface_typed_def)
qed

theorem DecodeBytes_interface_witness:
  "DecodeBytes zero_stream [0xC2, 0xC0, 0x05] (TInterface True) =
     Inr (iface_list [iface_list [], iface_bytes [5]])"
  by (rule DecodeBytes_interface[THEN iffD2], simp)
    (rule exI[of _ "RList [RList [], RStr [5]]"], simp add: rlp_list_def rlp_str_def rlp_head_def)

text \<open>C29: The fields that \<open>ProcessFields\<close> selects from a struct are exported fields of it in
  their order, no mandatory field follows an optional one, and only the last of them is a
  tail, which then is a slice and not optional.\<close>

theorem ProcessFields_selects:
  assumes "ProcessFields fs = Inr ps"
  shows "sorted_wrt (<) (map fst ps) \<and> (\<forall>(i, ts) \<in> set ps. i < length fs \<and> f_exported (fs ! i)) \<and>
    sorted_wrt (\<lambda>p q. may_stop p \<longrightarrow> may_stop q) ps \<and>
    (\<forall>(i, ts) \<in> set ps. Tail ts \<longrightarrow> \<not> Optional ts \<and> isSlice (f_type (fs ! i)) \<and> (i, ts) = last ps)"
proof -
  have "(i, ts) = last ps" if i: "(i, ts) \<in> set ps" and t: "Tail ts" for i ts
  proof -
    obtain xs ys where ps: "ps = xs @ (i, ts) # ys" using split_list[OF i] by blast
    with ProcessFields_ok(3)[OF assms this t] show ?thesis by simp
  qed
  then show ?thesis
    using ProcessFields_ok(1,2)[OF assms] ProcessFields_exported[OF assms] ProcessFields_optional[OF assms]
    by (auto simp: tags_ok_def)
qed

theorem ProcessFields_selects_witness:
  "ProcessFields [Field ''A'' True TBool ''optional'', Field ''b'' False TBool '''',
      Field ''C'' True (TSlice TBool) ''tail''] =
     Inr [(0, no_tags\<lparr>Optional := True\<rparr>), (2, no_tags\<lparr>Tail := True\<rparr>)] \<and>
   isSlice (TSlice TBool) \<and> \<not> Optional (no_tags\<lparr>Tail := True\<rparr>)"
proof -
  let ?fs = "[Field ''A'' True TBool ''optional'', Field ''b'' False TBool '''',
    Field ''C'' True (TSlice TBool) ''tail'']"
  have p: "ProcessFields ?fs = Inr [(0, no_tags\<lparr>Optional := True\<rparr>), (2, no_tags\<lparr>Tail := True\<rparr>)]" by code_simp
  from ProcessFields_selects[OF p] p show ?thesis by simp
qed

subsection \<open>Encoding\<close>

text \<open>C32: Decoding, encoding and decoding again gives the same value: a value that was decoded
  is encoded without an error, into no more bytes than it came from, and these bytes decode
  to it.  If the type has no optional fields the bytes are the same.  The type must not have a
  \<open>nil\<close> pointer to a struct with optional fields (\<open>nil_safe\<close>).\<close>

theorem encode_decoded:
  assumes "\<not> isl (makeDecoder t no_tags)" and "wf_type t" and "nil_safe t no_tags" and "length b < 2 ^ 63"
    and "DecodeBytes pooled b t = Inr v"
  shows "\<exists>b'. EncodeToBytes buf t v = Inr b' \<and> DecodeBytes pooled' b' t = Inr v \<and>
    length b' \<le> length b \<and> (rigid t \<longrightarrow> b' = b)"
proof -
  have "decodable t v b" using DecodeBytes_decodable[OF assms(1-4)] assms(5) by blast
  then show ?thesis using EncodeToBytes_ok decodable_DecodeBytes by blast
qed

theorem encode_decoded_witness:
  "\<exists>b'. EncodeToBytes empty_buf (TStruct [Field ''A'' True (TUint 64) '''', Field ''B'' True TString ''optional''])
      (VStruct [VUint 5, VString []]) = Inr b' \<and> length b' \<le> 3"
proof -
  let ?t = "TStruct [Field ''A'' True (TUint 64) '''', Field ''B'' True TString ''optional'']"
  have t: "\<not> isl (makeDecoder ?t no_tags)" "nil_safe ?t no_tags" by code_simp+
  have d: "DecodeBytes zero_stream [0xC2, 0x05, 0x80] ?t = Inr (VStruct [VUint 5, VString []])" by code_simp
  show ?thesis using encode_decoded[OF t(1) _ t(2) _ d, of empty_buf zero_stream] by auto
qed

text \<open>
  What \<open>nil_safe\<close> excludes: a pointer to a struct whose optional fields are all zero is written
  as an empty list, and that is read back as a nil pointer.
\<close>

lemma nil_pointer_trap:
  defines "t \<equiv> TStruct [Field ''P'' True (TPtr (TStruct [Field ''A'' True (TUint 64) ''optional''])) ''nil'']"
  shows "DecodeBytes zero_stream [0xC2, 0xC1, 0x80] t = Inr (VStruct [VPtr (Some (VStruct [VUint 0]))]) \<and>
    EncodeToBytes empty_buf t (VStruct [VPtr (Some (VStruct [VUint 0]))]) = Inr [0xC1, 0xC0] \<and>
    DecodeBytes zero_stream [0xC1, 0xC0] t = Inr (VStruct [VPtr None])"
  unfolding t_def by code_simp

text \<open>Encoding returns: the writers of interfaces, which look up the writer of the dynamic
  type, are nested no deeper than the value.\<close>

theorem EncodeToBytes_returns: "EncodeToBytes buf t v \<noteq> Inl EncOutOfFuel"
  using buf_encode_fueled[of t v "buf_reset buf"]
  by (auto simp: EncodeToBytes_def split: sum.splits option.splits)



text \<open>C36: A reader from \<open>EncodeToReader\<close> is a refinement of the list of bytes it has still to
  deliver: \<open>Read\<close> returns the next bytes up to the size of the buffer it is given, the reader
  then stands for the rest, and \<open>io.EOF\<close> is returned exactly when nothing is left.\<close>

theorem encReader_Read_refines:
  assumes "reader_ok r"
  shows "\<exists>r'. encReader_Read cap r = Some (take cap (unread r), length (unread r) \<le> cap, r') \<and>
    reader_ok r' \<and> unread r' = drop cap (unread r)"
  using assms by (rule encReader_Read_unread)

theorem encReader_Read_refines_witness:
  "\<exists>r'. encReader_Read 2 (new_encReader (writeBytes [0x64, 0x6F] empty_buf)) = Some ([0x82, 0x64], False, r')"
proof -
  let ?r = "new_encReader (writeBytes [0x64, 0x6F] empty_buf)"
  have "reader_ok ?r \<and> unread ?r = rlp_str [0x64, 0x6F]"
    by (rule new_encReader_unread) (rule emits_writeBytes, simp)
  then show ?thesis
    using encReader_Read_refines[of ?r 2] by (auto simp: rlp_str_def rlp_head_def)
qed

subsection \<open>The list iterator\<close>

text \<open>C37: Iterating over an encoded list yields its items one after the other, each in its
  encoding, and then ends without an error.\<close>

theorem iterator_items:
  assumes "length (rlp_list (concat (map rlp_enc xs))) < 2 ^ 64"
  shows "case NewListIterator (rlp_list (concat (map rlp_enc xs))) of Inl e \<Rightarrow> False
    | Inr it \<Rightarrow> fst (it_values (Suc (length xs)) it) = map rlp_enc xs \<and>
        it_Err (snd (it_values (Suc (length xs)) it)) = None"
proof -
  let ?it = "\<lparr>it_data = concat (map rlp_enc xs), it_next = [], it_err = None\<rparr>"
  have "SplitList (rlp_list (concat (map rlp_enc xs))) = Inr (concat (map rlp_enc xs), [])"
    using assms by (simp add: SplitList_iff)
  then have "NewListIterator (rlp_list (concat (map rlp_enc xs))) = Inr ?it"
    using NewListIterator_SplitList[OF assms] by simp
  moreover have "length (concat (map rlp_enc xs)) < 2 ^ 64"
    using assms length_rlp_list_gt[of "concat (map rlp_enc xs)"] by simp
  ultimately show ?thesis
    using it_values_items[of xs ?it "Suc (length xs)"] by (simp add: it_Err_def del: it_values.simps)
qed

theorem iterator_items_witness:
  "case NewListIterator [0xC3, 0x01, 0xC1, 0x02] of Inl e \<Rightarrow> False
    | Inr it \<Rightarrow> fst (it_values 3 it) = [[0x01], [0xC1, 0x02]]"
  using iterator_items[of "[RStr [0x01], RList [RStr [0x02]]]"]
  by (simp add: rlp_str_def rlp_list_def rlp_head_def numeral_3_eq_3 del: it_values.simps split: sum.splits)

end
