(* ===== verification/Rlp_Handles.thy ===== *)
theory Rlp_Handles
  imports Rlp_Big Rlp_Output
begin

section \<open>Encoder buffers as handles (the \<open>EncoderBuffer\<close> of rlp/encbuffer.go)\<close>

text \<open>
  An \<open>EncoderBuffer\<close> is a handle of an \<open>encBuffer\<close>.  A handle that is made for an ordinary
  writer owns a buffer from the pool and gives it back when it is flushed.  A handle that is
  made for another handle, as in an \<open>EncodeRLP\<close> method that is called by the encoder, is derived:
  it appends to the buffer of the other one and owns nothing.

  Buffers are shared between handles, so they live in a store: \<open>ew_bufs ! a\<close> is the buffer
  with address \<open>a\<close>, the pool holds addresses, and \<open>ew_sinks\<close> are the states of the writers that
  are no encoder buffers.  \<open>None\<close> is a panic.  A pointer to a handle that is used as a writer
  is modelled by the handle it points to when \<open>Reset\<close> is called.
\<close>

subsection \<open>State\<close>

datatype EncoderBuffer =
    EncoderBuffer (eb_buf: "nat option") (eb_dst: "io_dst option") (ownBuffer: bool)
and io_dst = ToBuf nat | ToHandle EncoderBuffer | ToSink nat

record 's enc_world =
  ew_bufs :: "encbuf list"
  ew_pool :: "nat list"
  ew_sinks :: "'s list"

definition zero_handle :: EncoderBuffer where
  "zero_handle = EncoderBuffer None None False"

fun encBufferFromWriter :: "io_dst \<Rightarrow> nat option" where
  "encBufferFromWriter (ToHandle w) = eb_buf w"
| "encBufferFromWriter (ToBuf a) = Some a"
| "encBufferFromWriter (ToSink i) = None"

text \<open>
  \<open>sync.Pool\<close> hands out one of its buffers, or a new one; \<open>pick\<close> stands for its choice.
\<close>

definition pool_Get :: "nat \<Rightarrow> 's enc_world \<Rightarrow> nat \<times> 's enc_world" where
  "pool_Get pick w = (if pick < length (ew_pool w)
     then (ew_pool w ! pick, w\<lparr>ew_pool := take pick (ew_pool w) @ drop (Suc pick) (ew_pool w)\<rparr>)
     else (length (ew_bufs w), w\<lparr>ew_bufs := ew_bufs w @ [empty_buf]\<rparr>))"

definition upd_buf :: "nat \<Rightarrow> (encbuf \<Rightarrow> encbuf) \<Rightarrow> 's enc_world \<Rightarrow> 's enc_world" where
  "upd_buf a f w = w\<lparr>ew_bufs := (ew_bufs w)[a := f (ew_bufs w ! a)]\<rparr>"

subsection \<open>Making, resetting and flushing a handle\<close>

definition eb_Reset :: "nat \<Rightarrow> io_dst option \<Rightarrow> EncoderBuffer \<Rightarrow> 's enc_world \<Rightarrow> (EncoderBuffer \<times> 's enc_world) option" where
  "eb_Reset pick dst h w =
    (if eb_buf h \<noteq> None \<and> \<not> ownBuffer h then None
     else (case Option.bind dst encBufferFromWriter of
         Some outer \<Rightarrow> Some (EncoderBuffer (Some outer) None False, w)
       | None \<Rightarrow> (case eb_buf h of
           None \<Rightarrow> (let (a, w') = pool_Get pick w in Some (EncoderBuffer (Some a) dst True, upd_buf a buf_reset w'))
         | Some a \<Rightarrow> Some (EncoderBuffer (Some a) dst (ownBuffer h), upd_buf a buf_reset w))))"

definition NewEncoderBuffer :: "nat \<Rightarrow> io_dst option \<Rightarrow> 's enc_world \<Rightarrow> (EncoderBuffer \<times> 's enc_world) option" where
  "NewEncoderBuffer pick dst w = eb_Reset pick dst zero_handle w"

text \<open>
  The write of \<open>Flush\<close>, from the buffer with address \<open>a\<close>.  A zero handle as destination has no
  buffer to write to, so the first write panics.
\<close>

definition flush_to :: "('s, 'e) io_write \<Rightarrow> io_dst \<Rightarrow> nat \<Rightarrow> 's enc_world \<Rightarrow> ('e option \<times> 's enc_world) option" where
  "flush_to wr dst a w = (case dst of
     ToSink i \<Rightarrow> map_option (\<lambda>(err, st). (err, w\<lparr>ew_sinks := (ew_sinks w)[i := st]\<rparr>))
       (writeTo wr (ew_bufs w ! a) (ew_sinks w ! i))
   | _ \<Rightarrow> (case encBufferFromWriter dst of
       Some b \<Rightarrow> map_option (\<lambda>(err, buf). (None, upd_buf b (\<lambda>_. buf) w))
         (writeTo encbuf_Write (ew_bufs w ! a) (ew_bufs w ! b))
     | None \<Rightarrow> if str (ew_bufs w ! a) = [] \<and> lheads (ew_bufs w ! a) = [] then Some (None, w) else None))"

definition eb_Flush :: "('s, 'e) io_write \<Rightarrow> EncoderBuffer \<Rightarrow> 's enc_world \<Rightarrow> ('e option \<times> EncoderBuffer \<times> 's enc_world) option" where
  "eb_Flush wr h w =
    (case (case eb_dst h of None \<Rightarrow> Some (None, w)
       | Some dst \<Rightarrow> (case eb_buf h of None \<Rightarrow> None | Some a \<Rightarrow> flush_to wr dst a w)) of
       None \<Rightarrow> None
     | Some (err, w1) \<Rightarrow>
         (let w2 = (case eb_buf h of
              Some a \<Rightarrow> if ownBuffer h then w1\<lparr>ew_pool := a # ew_pool w1\<rparr> else w1
            | None \<Rightarrow> w1)
          in Some (err, zero_handle, w2)))"

subsection \<open>Writing through a handle\<close>

definition on_buf :: "EncoderBuffer \<Rightarrow> (encbuf \<Rightarrow> encbuf) \<Rightarrow> 's enc_world \<Rightarrow> 's enc_world option" where
  "on_buf h f w = map_option (\<lambda>a. upd_buf a f w) (eb_buf h)"

definition eb_ToBytes :: "EncoderBuffer \<Rightarrow> 's enc_world \<Rightarrow> bytes option" where
  "eb_ToBytes h w = Option.bind (eb_buf h) (\<lambda>a. makeBytes (ew_bufs w ! a))"

definition eb_AppendToBytes :: "EncoderBuffer \<Rightarrow> bytes \<Rightarrow> 's enc_world \<Rightarrow> bytes option" where
  "eb_AppendToBytes h dst w = Option.bind (eb_buf h) (\<lambda>a. AppendToBytes (ew_bufs w ! a) dst)"

definition eb_Write :: "EncoderBuffer \<Rightarrow> bytes \<Rightarrow> 's enc_world \<Rightarrow> 's enc_world option" where
  "eb_Write h b = on_buf h (buf_Write b)"

definition eb_WriteBool :: "EncoderBuffer \<Rightarrow> bool \<Rightarrow> 's enc_world \<Rightarrow> 's enc_world option" where
  "eb_WriteBool h b = on_buf h (writeBool b)"

definition eb_WriteUint64 :: "EncoderBuffer \<Rightarrow> uint64 \<Rightarrow> 's enc_world \<Rightarrow> 's enc_world option" where
  "eb_WriteUint64 h i = on_buf h (writeUint64 i)"

text \<open>\<open>BitLen\<close>, \<open>Uint64\<close> and \<open>Bits\<close> ignore the sign.\<close>

definition eb_WriteBigInt :: "EncoderBuffer \<Rightarrow> int \<Rightarrow> 's enc_world \<Rightarrow> 's enc_world option" where
  "eb_WriteBigInt h i = on_buf h (writeBigInt (nat \<bar>i\<bar>))"

definition eb_WriteBytes :: "EncoderBuffer \<Rightarrow> bytes \<Rightarrow> 's enc_world \<Rightarrow> 's enc_world option" where
  "eb_WriteBytes h b = on_buf h (writeBytes b)"

definition eb_WriteString :: "EncoderBuffer \<Rightarrow> bytes \<Rightarrow> 's enc_world \<Rightarrow> 's enc_world option" where
  "eb_WriteString h s = on_buf h (writeBytes s)"

definition eb_List :: "EncoderBuffer \<Rightarrow> 's enc_world \<Rightarrow> (nat \<times> 's enc_world) option" where
  "eb_List h w = map_option (\<lambda>a. case buf_list (ew_bufs w ! a) of (buf, i) \<Rightarrow> (i, upd_buf a (\<lambda>_. buf) w)) (eb_buf h)"

definition eb_ListEnd :: "EncoderBuffer \<Rightarrow> nat \<Rightarrow> 's enc_world \<Rightarrow> 's enc_world option" where
  "eb_ListEnd h index w = (case eb_buf h of None \<Rightarrow> None
     | Some a \<Rightarrow> if index < length (lheads (ew_bufs w ! a)) then Some (upd_buf a (listEnd index) w) else None)"

subsection \<open>What a session writes\<close>

text \<open>
  A client writes items; a list is opened, its items are written, and it is closed with the
  index that \<open>List\<close> returned.
\<close>

datatype enc_item = ItemBool bool | ItemUint uint64 | ItemBig int | ItemBytes bytes | ItemText bytes | ItemRaw bytes | ItemList "enc_item list"

fun eb_item :: "EncoderBuffer \<Rightarrow> enc_item \<Rightarrow> 's enc_world \<Rightarrow> 's enc_world option"
  and eb_items :: "EncoderBuffer \<Rightarrow> enc_item list \<Rightarrow> 's enc_world \<Rightarrow> 's enc_world option" where
  "eb_item h (ItemBool b) w = eb_WriteBool h b w"
| "eb_item h (ItemUint i) w = eb_WriteUint64 h i w"
| "eb_item h (ItemBig i) w = eb_WriteBigInt h i w"
| "eb_item h (ItemBytes b) w = eb_WriteBytes h b w"
| "eb_item h (ItemText s) w = eb_WriteString h s w"
| "eb_item h (ItemRaw b) w = eb_Write h b w"
| "eb_item h (ItemList xs) w = Option.bind (eb_List h w) (\<lambda>(i, w1).
     Option.bind (eb_items h xs w1) (\<lambda>w2. eb_ListEnd h i w2))"
| "eb_items h [] w = Some w"
| "eb_items h (x # xs) w = Option.bind (eb_item h x w) (eb_items h xs)"

fun item_bytes :: "enc_item \<Rightarrow> bytes" and items_bytes :: "enc_item list \<Rightarrow> bytes" where
  "item_bytes (ItemBool b) = rlp_str (if b then [1] else [])"
| "item_bytes (ItemUint i) = rlp_str (be_bytes (unat i))"
| "item_bytes (ItemBig i) = rlp_str (be_bytes (nat \<bar>i\<bar>))"
| "item_bytes (ItemBytes b) = rlp_str b"
| "item_bytes (ItemText s) = rlp_str s"
| "item_bytes (ItemRaw b) = b"
| "item_bytes (ItemList xs) = rlp_list (items_bytes xs)"
| "items_bytes [] = []"
| "items_bytes (x # xs) = item_bytes x @ items_bytes xs"

lemma upd_buf_upd_buf [simp]:
  "a < length (ew_bufs w) \<Longrightarrow> upd_buf a g (upd_buf a f w) = upd_buf a (\<lambda>b. g (f b)) w"
  by (simp add: upd_buf_def)

lemma upd_buf_simps [simp]:
  "length (ew_bufs (upd_buf a f w)) = length (ew_bufs w)"
  "a < length (ew_bufs w) \<Longrightarrow> ew_bufs (upd_buf a f w) ! a = f (ew_bufs w ! a)"
  "a \<noteq> b \<Longrightarrow> ew_bufs (upd_buf a f w) ! b = ew_bufs w ! b"
  "ew_pool (upd_buf a f w) = ew_pool w" "ew_sinks (upd_buf a f w) = ew_sinks w"
  by (simp_all add: upd_buf_def)

text \<open>Writing through a handle is writing to its buffer.\<close>

definition buffered :: "EncoderBuffer \<Rightarrow> nat \<Rightarrow> ('s enc_world \<Rightarrow> 's enc_world option) \<Rightarrow> bytes \<Rightarrow> bool" where
  "buffered h a m out \<longleftrightarrow> (\<exists>f. emits f out \<and> (\<forall>w. a < length (ew_bufs w) \<longrightarrow> m w = Some (upd_buf a f w)))"

lemma buffered_on_buf: "eb_buf h = Some a \<Longrightarrow> emits f out \<Longrightarrow> buffered h a (on_buf h f) out"
  unfolding buffered_def on_buf_def by auto

lemma emits_more_heads: "emits f out \<Longrightarrow> length (lheads w) \<le> length (lheads (f w))"
  by (auto simp: emits_def)

lemma length_rlp_str_less: "length (rlp_str b) < 2 ^ 64 \<Longrightarrow> length b < 2 ^ 64"
  using length_rlp_str_ge[of b] by linarith

lemma eb_list_buffered:
  assumes h: "eb_buf h = Some a" and len: "length out < 2 ^ 64" and m: "buffered h a m out"
  shows "buffered h a (\<lambda>w. Option.bind (eb_List h w) (\<lambda>(i, w1). Option.bind (m w1) (\<lambda>w2. eb_ListEnd h i w2)))
    (rlp_list out)"
proof -
  from m obtain f where f: "emits f out" "\<And>w. a < length (ew_bufs w) \<Longrightarrow> m w = Some (upd_buf a f w)"
    by (auto simp: buffered_def)
  let ?g = "\<lambda>b. let (b', i) = buf_list b in listEnd i (f b')"
  have "length (lheads b) < length (lheads (f (fst (buf_list b))))" for b
    using emits_more_heads[OF f(1), of "fst (buf_list b)"] by (simp add: buf_list_def)
  then have "Option.bind (eb_List h w) (\<lambda>(i, w1). Option.bind (m w1) (\<lambda>w2. eb_ListEnd h i w2)) =
      Some (upd_buf a ?g w)" if "a < length (ew_bufs w)" for w
    using that h by (simp add: eb_List_def eb_ListEnd_def f(2) buf_list_def upd_buf_def)
  then show ?thesis using emits_list[OF f(1) len] unfolding buffered_def by blast
qed

lemma eb_item_on_buf:
  "eb_item h (ItemBool b) = on_buf h (writeBool b)" "eb_item h (ItemUint i) = on_buf h (writeUint64 i)"
  "eb_item h (ItemBig z) = on_buf h (writeBigInt (nat \<bar>z\<bar>))" "eb_item h (ItemBytes bs) = on_buf h (writeBytes bs)"
  "eb_item h (ItemText bs) = on_buf h (writeBytes bs)" "eb_item h (ItemRaw bs) = on_buf h (buf_Write bs)"
  by (simp_all add: fun_eq_iff eb_WriteBool_def eb_WriteUint64_def eb_WriteBigInt_def eb_WriteBytes_def
      eb_WriteString_def eb_Write_def)

lemma eb_items_buffered:
  assumes h: "eb_buf h = Some a"
  shows "length (item_bytes x) < 2 ^ 64 \<Longrightarrow> buffered h a (eb_item h x :: 's enc_world \<Rightarrow> _) (item_bytes x)"
    and "length (items_bytes xs) < 2 ^ 64 \<Longrightarrow> buffered h a (eb_items h xs :: 's enc_world \<Rightarrow> _) (items_bytes xs)"
proof (induction x and xs rule: item_bytes_items_bytes.induct)
  case (7 xs)
  have len: "length (items_bytes xs) < 2 ^ 64"
    using 7(2) length_rlp_list_gt[of "items_bytes xs"] unfolding item_bytes.simps by linarith
  have "(eb_item h (ItemList xs) :: 's enc_world \<Rightarrow> _) = (\<lambda>w. Option.bind (eb_List h w) (\<lambda>(i, w1).
      Option.bind (eb_items h xs w1) (\<lambda>w2. eb_ListEnd h i w2)))" by (simp add: fun_eq_iff)
  then show ?case using eb_list_buffered[OF h len 7(1)[OF len]] by simp
next
  case 8
  show ?case unfolding buffered_def by (rule exI[of _ "\<lambda>b. b"]) (auto simp: upd_buf_def)
next
  case (9 x xs)
  have "length (item_bytes x) < 2 ^ 64" "length (items_bytes xs) < 2 ^ 64"
    using 9(3) by simp_all
  from 9(1)[OF this(1)] 9(2)[OF this(2)] obtain f g where f: "emits f (item_bytes x)" "emits g (items_bytes xs)"
    and "\<And>w :: 's enc_world. a < length (ew_bufs w) \<Longrightarrow> eb_item h x w = Some (upd_buf a f w)"
      "\<And>w :: 's enc_world. a < length (ew_bufs w) \<Longrightarrow> eb_items h xs w = Some (upd_buf a g w)"
    by (auto simp: buffered_def)
  then show ?case
    using emits_seq[OF f] unfolding buffered_def by (intro exI[of _ "\<lambda>b. g (f b)"]) simp
qed (unfold eb_item_on_buf item_bytes.simps, (rule buffered_on_buf[OF h],
    (rule emits_writeBool emits_writeUint64 emits_Write |
     (rule emits_writeBigInt[OF length_rlp_str_less] emits_writeBytes[OF length_rlp_str_less], assumption)))+)

subsection \<open>Ownership\<close>

text \<open>The handle in variable \<open>i\<close> owns the buffer with address \<open>a\<close>.\<close>

definition owns :: "EncoderBuffer list \<Rightarrow> nat \<Rightarrow> nat \<Rightarrow> bool" where
  "owns hs i a \<longleftrightarrow> i < length hs \<and> ownBuffer (hs ! i) \<and> eb_buf (hs ! i) = Some a"

definition exclusive :: "nat list \<Rightarrow> EncoderBuffer list \<Rightarrow> bool" where
  "exclusive pool hs \<longleftrightarrow> distinct pool \<and> (\<forall>i a. owns hs i a \<longrightarrow> a \<notin> set pool) \<and>
     (\<forall>i j a. owns hs i a \<longrightarrow> owns hs j a \<longrightarrow> i = j)"

text \<open>
  What holds of a handle at any time: only an owner remembers a destination, which is a writer
  outside or a zero handle, and a handle without a buffer is zero.
\<close>

definition handle_ok :: "nat \<Rightarrow> nat \<Rightarrow> EncoderBuffer \<Rightarrow> bool" where
  "handle_ok nb ns h \<longleftrightarrow> (case eb_buf h of None \<Rightarrow> h = zero_handle
     | Some a \<Rightarrow> a < nb \<and> (\<not> ownBuffer h \<longrightarrow> eb_dst h = None)) \<and>
     (case eb_dst h of Some (ToSink i) \<Rightarrow> i < ns | Some (ToBuf a) \<Rightarrow> False | Some (ToHandle g) \<Rightarrow> eb_buf g = None
      | None \<Rightarrow> True)"

definition handles_ok :: "EncoderBuffer list \<times> 's enc_world \<Rightarrow> bool" where
  "handles_ok s \<longleftrightarrow> (case s of (hs, w) \<Rightarrow>
     exclusive (ew_pool w) hs \<and> set (ew_pool w) \<subseteq> {..<length (ew_bufs w)} \<and>
     (\<forall>h \<in> set hs. handle_ok (length (ew_bufs w)) (length (ew_sinks w)) h))"

text \<open>
  A program with variables that hold handles; the label is the variable that a step is about.
  A writer is one of the outside, or the handle in a variable.
\<close>

definition dst_ok :: "EncoderBuffer list \<Rightarrow> 's enc_world \<Rightarrow> io_dst option \<Rightarrow> bool" where
  "dst_ok hs w dst \<longleftrightarrow> (case dst of None \<Rightarrow> True | Some (ToSink k) \<Rightarrow> k < length (ew_sinks w)
     | Some (ToHandle g) \<Rightarrow> g \<in> set hs | Some (ToBuf a) \<Rightarrow> False)"

inductive handle_step :: "('s, 'e) io_write \<Rightarrow> nat \<Rightarrow> EncoderBuffer list \<times> 's enc_world \<Rightarrow>
    EncoderBuffer list \<times> 's enc_world \<Rightarrow> bool" for wr where
  declare_handle: "handle_step wr (length hs) (hs, w) (hs @ [zero_handle], w)"
| reset_handle: "i < length hs \<Longrightarrow> dst_ok hs w dst \<Longrightarrow> eb_Reset pick dst (hs ! i) w = Some (h, w') \<Longrightarrow>
    handle_step wr i (hs, w) (hs[i := h], w')"
| flush_handle: "i < length hs \<Longrightarrow> eb_Flush wr (hs ! i) w = Some (err, h, w') \<Longrightarrow>
    handle_step wr i (hs, w) (hs[i := h], w')"
| write_handle: "i < length hs \<Longrightarrow> eb_item (hs ! i) x w = Some w' \<Longrightarrow> handle_step wr i (hs, w) (hs, w')"

inductive_cases handle_step_cases [consumes 1, case_names declare_handle reset_handle flush_handle write_handle]:
  "handle_step wr i (hs, w) (hs', w')"

inductive handles_reachable :: "('s, 'e) io_write \<Rightarrow> EncoderBuffer list \<times> 's enc_world \<Rightarrow> bool" for wr where
  no_handles: "handles_reachable wr ([], \<lparr>ew_bufs = [], ew_pool = [], ew_sinks = sinks\<rparr>)"
| next_handles: "handles_reachable wr s \<Longrightarrow> handle_step wr i s s' \<Longrightarrow> handles_reachable wr s'"

text \<open>A write changes one buffer.\<close>

lemma bind_Some_iff: "Option.bind x f = Some y \<longleftrightarrow> (\<exists>z. x = Some z \<and> f z = Some y)"
  by (cases x) auto

definition only_buf :: "nat \<Rightarrow> 's enc_world \<Rightarrow> 's enc_world \<Rightarrow> bool" where
  "only_buf a w w' \<longleftrightarrow> (\<exists>buf. w' = upd_buf a (\<lambda>_. buf) w)"

lemma only_buf_refl: "only_buf a w w"
  by (auto simp: only_buf_def upd_buf_def intro: exI[of _ "ew_bufs w ! a"])

lemma only_buf_upd: "only_buf a w (upd_buf a f w)"
  by (auto simp: only_buf_def upd_buf_def)

lemma only_buf_trans: "only_buf a w w' \<Longrightarrow> only_buf a w' w'' \<Longrightarrow> only_buf a w w''"
  by (auto simp: only_buf_def upd_buf_def)

lemma on_buf_only: "on_buf h f w = Some w' \<Longrightarrow> eb_buf h = Some a \<Longrightarrow> only_buf a w w'"
  by (auto simp: on_buf_def only_buf_upd)

lemma eb_items_only:
  shows "eb_item h x (w :: 's enc_world) = Some w' \<Longrightarrow> eb_buf h = Some a \<Longrightarrow> only_buf a w w'"
    and "eb_items h xs (w :: 's enc_world) = Some w' \<Longrightarrow> eb_buf h = Some a \<Longrightarrow> only_buf a w w'"
proof (induction x and xs arbitrary: w w' and w w' rule: item_bytes_items_bytes.induct)
  case (7 xs)
  then obtain w1 w2 i where "eb_List h w = Some (i, w1)" "eb_items h xs w1 = Some w2" "eb_ListEnd h i w2 = Some w'"
    by (auto simp: bind_Some_iff)
  then have "only_buf a w w1" "only_buf a w1 w2" "only_buf a w2 w'"
    using 7 by (auto simp: eb_List_def eb_ListEnd_def only_buf_upd split: prod.splits if_splits)
  then show ?case by (blast intro: only_buf_trans)
next
  case (9 x xs)
  then show ?case by (auto simp: bind_Some_iff) (blast intro: only_buf_trans)
qed (auto simp: eb_item_on_buf only_buf_refl simp del: eb_item.simps(1-6) dest: on_buf_only)

lemma eb_item_only:
  assumes "eb_item h x w = Some w'"
  shows "\<exists>a. eb_buf h = Some a \<and> only_buf a w w'"
proof -
  have "\<exists>a. eb_buf h = Some a"
    using assms by (cases x) (auto simp: eb_item_on_buf on_buf_def eb_List_def bind_Some_iff simp del: eb_item.simps(1-6))
  then show ?thesis using eb_items_only(1)[OF assms] by blast
qed

lemma only_buf_simps:
  assumes "only_buf a w w'"
  shows "length (ew_bufs w') = length (ew_bufs w)" "ew_pool w' = ew_pool w" "ew_sinks w' = ew_sinks w"
    and "b \<noteq> a \<Longrightarrow> ew_bufs w' ! b = ew_bufs w ! b"
  using assms by (auto simp: only_buf_def)

text \<open>Fresh buffers.\<close>

lemma pool_Get_fresh:
  assumes "pool_Get pick w = (a, w')" and "set (ew_pool w) \<subseteq> {..<length (ew_bufs w)}" and "distinct (ew_pool w)"
  shows "a < length (ew_bufs w')" "length (ew_bufs w) \<le> length (ew_bufs w')" "ew_sinks w' = ew_sinks w"
    and "distinct (a # ew_pool w')" "set (ew_pool w') \<subseteq> set (ew_pool w)"
    and "a \<in> set (ew_pool w) \<or> a = length (ew_bufs w)"
    and "b < length (ew_bufs w) \<Longrightarrow> ew_bufs w' ! b = ew_bufs w ! b"
proof -
  have p: "ew_pool w = take pick (ew_pool w) @ ew_pool w ! pick # drop (Suc pick) (ew_pool w)"
    if "pick < length (ew_pool w)" using that by (rule id_take_nth_drop)
  show "a < length (ew_bufs w')" "length (ew_bufs w) \<le> length (ew_bufs w')" "ew_sinks w' = ew_sinks w"
      "a \<in> set (ew_pool w) \<or> a = length (ew_bufs w)" "b < length (ew_bufs w) \<Longrightarrow> ew_bufs w' ! b = ew_bufs w ! b"
    using assms nth_mem[of pick "ew_pool w"]
    by (auto simp: pool_Get_def nth_append subset_iff split: if_splits)
  show "set (ew_pool w') \<subseteq> set (ew_pool w)"
    using assms(1) by (auto simp: pool_Get_def split: if_splits dest: in_set_takeD in_set_dropD)
  show "distinct (a # ew_pool w')"
  proof (cases "pick < length (ew_pool w)")
    case True
    then have "a = ew_pool w ! pick" "ew_pool w' = take pick (ew_pool w) @ drop (Suc pick) (ew_pool w)"
      using assms(1) by (auto simp: pool_Get_def)
    moreover have "distinct (take pick (ew_pool w) @ ew_pool w ! pick # drop (Suc pick) (ew_pool w))"
      using assms(3) p[OF True] by simp
    ultimately show ?thesis by auto
  next
    case False
    then show ?thesis using assms by (auto simp: pool_Get_def)
  qed
qed

lemma NewEncoderBuffer_sink:
  assumes "set (ew_pool w) \<subseteq> {..<length (ew_bufs w)}" and "distinct (ew_pool w)"
  shows "\<exists>a w'. NewEncoderBuffer pick (Some (ToSink k)) w = Some (EncoderBuffer (Some a) (Some (ToSink k)) True, w') \<and>
    a < length (ew_bufs w') \<and> ew_bufs w' ! a = empty_buf \<and> ew_sinks w' = ew_sinks w"
proof -
  obtain a w1 where p: "pool_Get pick w = (a, w1)" by (cases "pool_Get pick w")
  show ?thesis
    using pool_Get_fresh(1,3)[OF p assms]
    by (auto simp: NewEncoderBuffer_def eb_Reset_def zero_handle_def p buf_reset_empty)
qed

context io_writer
begin

lemma eb_Flush_sink:
  assumes "ew_bufs w ! a = f empty_buf" and "emits f out" and "k < length (ew_sinks w)"
  obtains err w' n where "eb_Flush wr (EncoderBuffer (Some a) (Some (ToSink k)) True) w = Some (err, zero_handle, w')"
    and "written (ew_sinks w' ! k) = written (ew_sinks w ! k) @ take n out" and "err = None \<longrightarrow> length out \<le> n"
proof -
  obtain err st' n where d: "writeTo wr (f empty_buf) (ew_sinks w ! k) = Some (err, st')"
    "written st' = written (ew_sinks w ! k) @ take n out" "err = None \<longrightarrow> length out \<le> n"
    using writeTo_delivers[OF assms(2), of "ew_sinks w ! k"] unfolding delivers_def by blast
  show thesis
    using assms(1,3) d
    by (intro that[of err "w\<lparr>ew_sinks := (ew_sinks w)[k := st'], ew_pool := a # ew_pool w\<rparr>" n])
      (simp_all add: eb_Flush_def flush_to_def)
qed

lemma session_delivers:
  assumes "set (ew_pool w) \<subseteq> {..<length (ew_bufs w)}" and "distinct (ew_pool w)"
    and "k < length (ew_sinks w)" and len: "length (items_bytes xs) < 2 ^ 64"
  shows "\<exists>h w1 w2 err w3 n. NewEncoderBuffer pick (Some (ToSink k)) w = Some (h, w1) \<and>
    eb_items h xs w1 = Some w2 \<and> eb_ToBytes h w2 = Some (items_bytes xs) \<and>
    eb_Flush wr h w2 = Some (err, zero_handle, w3) \<and>
    written (ew_sinks w3 ! k) = written (ew_sinks w ! k) @ take n (items_bytes xs) \<and>
    (err = None \<longrightarrow> length (items_bytes xs) \<le> n)"
proof -
  obtain a w1 where n: "NewEncoderBuffer pick (Some (ToSink k)) w = Some (EncoderBuffer (Some a) (Some (ToSink k)) True, w1)"
    "a < length (ew_bufs w1)" "ew_bufs w1 ! a = empty_buf" "ew_sinks w1 = ew_sinks w"
    using NewEncoderBuffer_sink[OF assms(1,2)] by blast
  let ?h = "EncoderBuffer (Some a) (Some (ToSink k)) True"
  obtain f where f: "emits f (items_bytes xs)" "eb_items ?h xs w1 = Some (upd_buf a f w1)"
    using eb_items_buffered(2)[of ?h a xs, OF _ len] n(2) by (auto simp: buffered_def)
  have b: "ew_bufs (upd_buf a f w1) ! a = f empty_buf" using n by simp
  have "eb_ToBytes ?h (upd_buf a f w1) = Some (items_bytes xs)"
    using b emits_makeBytes[OF f(1)] by (simp add: eb_ToBytes_def)
  moreover have "k < length (ew_sinks (upd_buf a f w1))" using assms(3) n(4) by simp
  from eb_Flush_sink[OF b f(1) this] obtain err w3 m
    where "eb_Flush wr ?h (upd_buf a f w1) = Some (err, zero_handle, w3)"
      "written (ew_sinks w3 ! k) = written (ew_sinks w ! k) @ take m (items_bytes xs)"
      "err = None \<longrightarrow> length (items_bytes xs) \<le> m"
    using n(4) by (metis upd_buf_simps(5))
  ultimately show ?thesis using n(1) f(2) by blast
qed

end

text \<open>A derived handle: what is written goes to the outer buffer, and a flush does nothing.\<close>

lemma session_derived:
  assumes "eb_buf g = Some a"
  shows "\<exists>h. NewEncoderBuffer pick (Some (ToHandle g)) w = Some (h, w) \<and> (\<forall>xs w'. eb_items h xs w' = eb_items g xs w') \<and>
    (\<forall>w'. eb_Flush wr h w' = Some (None, zero_handle, w') \<and> (\<forall>dst. eb_Reset pick dst h w' = None))"
proof -
  let ?h = "EncoderBuffer (Some a) None False"
  have on: "on_buf ?h = on_buf g" by (simp add: on_buf_def fun_eq_iff assms)
  have l: "eb_List ?h = eb_List g" "eb_ListEnd ?h = eb_ListEnd g"
    by (simp_all add: eb_List_def eb_ListEnd_def fun_eq_iff assms)
  have "eb_item ?h x w' = eb_item g x w'" "eb_items ?h xs w' = eb_items g xs w'" for x xs w'
    by (induction x and xs arbitrary: w' and w' rule: item_bytes_items_bytes.induct)
      (auto simp: eb_item_on_buf on l simp del: eb_item.simps(1-6) split: Option.bind_splits)
  then show ?thesis
    using assms by (auto simp: NewEncoderBuffer_def eb_Reset_def zero_handle_def eb_Flush_def)
qed

subsection \<open>Every step keeps the ownership\<close>

lemma owns_update: "owns (hs[i := h]) j a \<longleftrightarrow>
    (if j = i then i < length hs \<and> ownBuffer h \<and> eb_buf h = Some a else owns hs j a)"
  by (auto simp: owns_def)

lemma handles_okD:
  assumes "handles_ok (hs, w)"
  shows "exclusive (ew_pool w) hs" "set (ew_pool w) \<subseteq> {..<length (ew_bufs w)}" "distinct (ew_pool w)"
    and "i < length hs \<Longrightarrow> handle_ok (length (ew_bufs w)) (length (ew_sinks w)) (hs ! i)"
    and "owns hs i a \<Longrightarrow> a < length (ew_bufs w)"
  using assms by (auto simp: handles_ok_def exclusive_def owns_def handle_ok_def split: option.splits)
    (metis nth_mem option.inject option.simps(3))

lemma handle_ok_mono: "handle_ok nb ns h \<Longrightarrow> nb \<le> nb' \<Longrightarrow> handle_ok nb' ns h"
  by (auto simp: handle_ok_def split: option.splits)

lemma zero_handle_ok: "handle_ok nb ns zero_handle"
  by (simp add: handle_ok_def zero_handle_def)

lemma handles_ok_update:
  assumes "handles_ok (hs, w)" and "exclusive (ew_pool w') (hs[i := h])"
    and "set (ew_pool w') \<subseteq> {..<length (ew_bufs w')}" and "length (ew_bufs w) \<le> length (ew_bufs w')"
    and "length (ew_sinks w') = length (ew_sinks w)"
    and "handle_ok (length (ew_bufs w')) (length (ew_sinks w)) h"
  shows "handles_ok (hs[i := h], w')"
  using assms set_update_subset_insert[of hs i h]
  by (auto simp: handles_ok_def intro: handle_ok_mono)

lemma exclusive_acquire:
  assumes "exclusive pool hs" and "distinct (a # pool')" and "set pool' \<subseteq> set pool" and "\<And>j. \<not> owns hs j a"
    and "eb_buf h = Some a"
  shows "exclusive pool' (hs[i := h])"
proof -
  have o: "owns (hs[i := h]) j b \<Longrightarrow> j = i \<and> b = a \<or> b \<noteq> a \<and> owns hs j b" for j b
    using assms(4)[of j] assms(5) by (cases "b = a") (auto simp: owns_update split: if_splits)
  have "b \<notin> set pool'" if "owns (hs[i := h]) j b" for j b
    using o[OF that] assms(1-3) unfolding exclusive_def by auto
  moreover have "j = k" if "owns (hs[i := h]) j b" "owns (hs[i := h]) k b" for j k b
    using o[OF that(1)] o[OF that(2)] assms(1) unfolding exclusive_def by blast
  ultimately show ?thesis using assms(2) unfolding exclusive_def by simp
qed

lemma handles_ok_Reset:
  assumes ok: "handles_ok (hs, w)" and i: "i < length hs" and dst: "dst_ok hs w dst"
    and r: "eb_Reset pick dst (hs ! i) w = Some (h, w')"
  shows "handles_ok (hs[i := h], w')"
proof -
  note D = handles_okD[OF ok]
  have p: "\<not> (eb_buf (hs ! i) \<noteq> None \<and> \<not> ownBuffer (hs ! i))" using r by (simp add: eb_Reset_def split: if_splits)
  show ?thesis
  proof (cases "Option.bind dst encBufferFromWriter")
    case (Some outer)
    then have h: "h = EncoderBuffer (Some outer) None False" "w' = w"
      using r p by (auto simp: eb_Reset_def)
    from Some dst obtain g where "g \<in> set hs" "eb_buf g = Some outer"
      by (auto simp: dst_ok_def bind_Some_iff split: option.splits io_dst.splits)
    then have "outer < length (ew_bufs w)" using ok by (auto simp: handles_ok_def handle_ok_def)
    then show ?thesis
      using D h by (intro handles_ok_update[OF ok]) (auto simp: handle_ok_def exclusive_def owns_update)
  next
    case None
    have dok: "case dst of Some (ToSink i) \<Rightarrow> i < length (ew_sinks w) | Some (ToBuf a) \<Rightarrow> False
        | Some (ToHandle g) \<Rightarrow> eb_buf g = None | None \<Rightarrow> True"
      using None dst by (auto simp: dst_ok_def split: option.splits io_dst.splits)
    show ?thesis
    proof (cases "eb_buf (hs ! i)")
      case b: None
      obtain a w1 where g: "pool_Get pick w = (a, w1)" by (cases "pool_Get pick w")
      have h: "h = EncoderBuffer (Some a) dst True" "w' = upd_buf a buf_reset w1"
        using r p None b g by (auto simp: eb_Reset_def)
      note G = pool_Get_fresh[OF g D(2,3)]
      have "exclusive (ew_pool w1) (hs[i := h])"
      proof (rule exclusive_acquire[OF D(1) G(4,5)])
        show "\<not> owns hs j a" for j using D(1) D(5)[of j a] G(6) unfolding exclusive_def by auto
      qed (simp add: h(1))
      moreover have "handle_ok (length (ew_bufs w1)) (length (ew_sinks w)) h"
        using G(1) dok h(1) by (simp add: handle_ok_def)
      moreover have "set (ew_pool w1) \<subseteq> {..<length (ew_bufs w1)}" using G(2,5) D(2) by force
      ultimately show ?thesis using G(2,3) h by (intro handles_ok_update[OF ok]) simp_all
    next
      case (Some a)
      have h: "h = EncoderBuffer (Some a) dst True" "w' = upd_buf a buf_reset w"
        using r p None Some by (auto simp: eb_Reset_def)
      have o: "owns hs i a" using Some p i by (simp add: owns_def)
      have "handle_ok (length (ew_bufs w)) (length (ew_sinks w)) h"
        using D(5)[OF o] dok h(1) by (simp add: handle_ok_def)
      moreover have "exclusive (ew_pool w) (hs[i := h])"
        using D(1) o h(1) unfolding exclusive_def owns_update by (auto split: if_splits)
      ultimately show ?thesis using D(2) h by (intro handles_ok_update[OF ok]) simp_all
    qed
  qed
qed

text \<open>A flush returns an owned buffer to the pool and leaves all buffers as they are.\<close>

lemma eb_Flush_frame:
  assumes "handle_ok (length (ew_bufs w)) (length (ew_sinks w)) h" and "eb_Flush wr h w = Some (err, h', w')"
  shows "h' = zero_handle" "ew_bufs w' = ew_bufs w" "length (ew_sinks w') = length (ew_sinks w)"
    and "ew_pool w' = (if ownBuffer h then the (eb_buf h) # ew_pool w else ew_pool w)"
proof -
  have "\<not> ownBuffer h" if "eb_buf h = None"
    using assms(1) that by (auto simp: handle_ok_def zero_handle_def)
  moreover have "eb_dst h = Some (ToHandle g) \<Longrightarrow> eb_buf g = None" "eb_dst h \<noteq> Some (ToBuf b)" for g b
    using assms(1) by (auto simp: handle_ok_def)
  ultimately show "h' = zero_handle" "ew_bufs w' = ew_bufs w" "length (ew_sinks w') = length (ew_sinks w)"
      "ew_pool w' = (if ownBuffer h then the (eb_buf h) # ew_pool w else ew_pool w)"
    using assms(2)
    by (auto simp: eb_Flush_def flush_to_def Let_def split: option.splits io_dst.splits if_splits)
qed

lemma handles_ok_Flush:
  assumes ok: "handles_ok (hs, w)" and i: "i < length hs" and r: "eb_Flush wr (hs ! i) w = Some (err, h, w')"
  shows "handles_ok (hs[i := h], w')"
proof -
  note D = handles_okD[OF ok]
  note F = eb_Flush_frame[OF D(4)[OF i] r]
  have z: "\<not> ownBuffer zero_handle" by (simp add: zero_handle_def)
  have o: "owns hs i (the (eb_buf (hs ! i)))" if "ownBuffer (hs ! i)"
    using D(4)[OF i] that i by (auto simp: owns_def handle_ok_def zero_handle_def split: option.splits)
  have "exclusive (ew_pool w') (hs[i := h])"
    using D(1) o z unfolding exclusive_def owns_update F(1,4) by (auto split: if_splits)
  moreover have "set (ew_pool w') \<subseteq> {..<length (ew_bufs w')}"
    using D(2) D(5)[OF o] F by auto
  ultimately show ?thesis using F zero_handle_ok by (intro handles_ok_update[OF ok]) simp_all
qed

lemma handles_ok_step:
  assumes "handle_step wr i s s'" and "handles_ok s"
  shows "handles_ok s'"
  using assms
proof (cases rule: handle_step.cases)
  case (declare_handle hs w)
  have o: "owns (hs @ [zero_handle]) j a \<longleftrightarrow> owns hs j a" for j a
    by (auto simp: owns_def nth_append zero_handle_def)
  then show ?thesis
    using declare_handle assms(2) zero_handle_ok by (auto simp: handles_ok_def exclusive_def)
next
  case (write_handle hs x w w')
  then obtain a where "only_buf a w w'" using eb_item_only by blast
  then show ?thesis
    using write_handle assms(2) by (auto simp: handles_ok_def only_buf_simps)
qed (use handles_ok_Reset handles_ok_Flush in blast)+

lemma reachable_handles_ok: "handles_reachable wr s \<Longrightarrow> handles_ok s"
proof (induction rule: handles_reachable.induct)
  case no_handles
  then show ?case by (simp add: handles_ok_def exclusive_def owns_def)
qed (blast intro: handles_ok_step)

text \<open>What one session has buffered is not touched by the steps of another.\<close>

lemma step_keeps_other:
  assumes s: "handle_step wr i (hs, w) (hs', w')" and ok: "handles_ok (hs, w)" and j: "owns hs j a" and "i \<noteq> j"
    and i: "i < length hs \<longrightarrow> ownBuffer (hs ! i) \<or> hs ! i = zero_handle"
  shows "hs' ! j = hs ! j \<and> ew_bufs w' ! a = ew_bufs w ! a"
  using s
proof (cases rule: handle_step_cases)
  case declare_handle
  then show ?thesis using j by (auto simp: owns_def nth_append)
next
  case (reset_handle dst pick h)
  note D = handles_okD[OF ok]
  have ja: "j < length hs" "a < length (ew_bufs w)" "a \<notin> set (ew_pool w)"
    using j D(1) D(5)[OF j] by (auto simp: owns_def exclusive_def)
  have other: "b \<noteq> a" if "eb_buf (hs ! i) = Some b" for b
    using that i reset_handle(2) j \<open>i \<noteq> j\<close> D(1) by (auto simp: owns_def exclusive_def zero_handle_def)
  obtain b w1 where g: "pool_Get pick w = (b, w1)" by (cases "pool_Get pick w")
  note G = pool_Get_fresh[OF g D(2,3)]
  have "b \<noteq> a" using G(6) ja by auto
  then have "ew_bufs w' ! a = ew_bufs w ! a"
    using reset_handle(1,4) G(7)[OF ja(2)] other
    by (auto simp: eb_Reset_def g split: option.splits if_splits)
  then show ?thesis using reset_handle \<open>i \<noteq> j\<close> by simp
next
  case (flush_handle err h)
  then show ?thesis
    using eb_Flush_frame(2)[OF handles_okD(4)[OF ok flush_handle(2)] flush_handle(3)] \<open>i \<noteq> j\<close> by simp
next
  case (write_handle x)
  obtain b where b: "eb_buf (hs ! i) = Some b" "only_buf b w w'" using eb_item_only[OF write_handle(3)] by blast
  then have "owns hs i b" using i write_handle by (auto simp: owns_def zero_handle_def)
  then have "b \<noteq> a" using j handles_okD(1)[OF ok] \<open>i \<noteq> j\<close> unfolding exclusive_def by blast
  then show ?thesis using write_handle(1) only_buf_simps(4)[OF b(2)] by simp
qed

end
