(* ===== verification/Rlp_Reference.thy ===== *)
theory Rlp_Reference
  imports Rlp_Codec
begin

section \<open>A reference encoder\<close>

text \<open>
  \<open>enc_value\<close> says what the encoding of a value is, or which error it has, directly on bytes: no
  writers, no buffer with deferred headers, no lookup of writers.  The last section shows that the
  writers of \<open>rlp/encode.go\<close> compute it for every value of their type.
\<close>

subsection \<open>Values of a type\<close>

text \<open>\<open>has_type t v\<close>: what the Go type system ensures.  A value in an interface has some type.\<close>

lemma size_nth_list [termination_simp]: "i < length vs \<Longrightarrow> size (vs ! i) < Suc (size_list size vs)"
  by (simp add: less_Suc_eq_le size_elem)

fun elem_type :: "gotype \<Rightarrow> gotype" where
  "elem_type (TSlice t) = t"
| "elem_type (TArray n t) = t"
| "elem_type t = TOther"

fun fields_of :: "gotype \<Rightarrow> gofield list" where
  "fields_of (TStruct fs) = fs"
| "fields_of t = []"

fun has_type :: "gotype \<Rightarrow> govalue \<Rightarrow> bool" where
  "has_type t (VBool b) = (t = TBool)"
| "has_type t (VUint i) = (case t of TUint bits \<Rightarrow> unat i < 2 ^ bits | _ \<Rightarrow> False)"
| "has_type t (VString s) = (t = TString)"
| "has_type t (VBigInt i) = (t = TBigInt)"
| "has_type t (VBigPtr p) = (t = TBigPtr)"
| "has_type t (VBytes b) = (t = TRawValue \<or> (case t of TSlice e \<Rightarrow> isByte e | _ \<Rightarrow> False))"
| "has_type t (VByteArray b) = (case t of TArray n e \<Rightarrow> isByte e \<and> length b = n | _ \<Rightarrow> False)"
| "has_type t (VSlice None) = (case t of TSlice e \<Rightarrow> \<not> isByte e | _ \<Rightarrow> False)"
| "has_type t (VSlice (Some vs)) = ((case t of TSlice e \<Rightarrow> \<not> isByte e | _ \<Rightarrow> False) \<and>
     (\<forall>v \<in> set vs. has_type (elem_type t) v))"
| "has_type t (VArray vs) = ((case t of TArray n e \<Rightarrow> \<not> isByte e \<and> length vs = n | _ \<Rightarrow> False) \<and>
     (\<forall>v \<in> set vs. has_type (elem_type t) v))"
| "has_type t (VPtr None) = (case t of TPtr e \<Rightarrow> True | _ \<Rightarrow> False)"
| "has_type t (VPtr (Some v)) = ((case t of TPtr e \<Rightarrow> True | _ \<Rightarrow> False) \<and> has_type (pointed_type t) v)"
| "has_type t (VStruct vs) = (t = TStruct (fields_of t) \<and> length vs = length (fields_of t) \<and>
     (\<forall>i < length vs. has_type (f_type (fields_of t ! i)) (vs ! i)))"
| "has_type t (VInterface None) = (case t of TInterface e \<Rightarrow> True | _ \<Rightarrow> False)"
| "has_type t (VInterface (Some (u, v))) = ((case t of TInterface e \<Rightarrow> True | _ \<Rightarrow> False) \<and> has_type u v)"

subsection \<open>Types without an encoding\<close>

fun first_error :: "'e option list \<Rightarrow> 'e option" where
  "first_error [] = None"
| "first_error (None # es) = first_error es"
| "first_error (Some e # es) = Some e"

fun writer_error :: "gotype \<Rightarrow> type_error option" where
  "writer_error (TPtr t) = writer_error t"
| "writer_error (TSlice t) = (if isByte t then None else writer_error t)"
| "writer_error (TArray n t) = (if isByte t then None else writer_error t)"
| "writer_error (TStruct fs) = (case ProcessFields fs of Inl e \<Rightarrow> Some (BadTag e)
     | Inr ps \<Rightarrow> first_error (map (\<lambda>(i, ts). map_option (InField i) (map (\<lambda>f. writer_error (f_type f)) fs ! i)) ps))"
| "writer_error TOther = Some (NotSerializable TOther)"
| "writer_error _ = None"

subsection \<open>The encoding of a value\<close>

text \<open>Encodings one after the other, up to the first error.\<close>

fun concatE :: "('e + bytes) list \<Rightarrow> 'e + bytes" where
  "concatE [] = Inr []"
| "concatE (r # rs) = (case r of Inl e \<Rightarrow> Inl e
     | Inr b \<Rightarrow> (case concatE rs of Inl e \<Rightarrow> Inl e | Inr c \<Rightarrow> Inr (b @ c)))"

definition listE :: "'e + bytes \<Rightarrow> 'e + bytes" where
  "listE r = map_sum id rlp_list r"

text \<open>
  The fields of a struct that are written: all in front of the first optional one, and of the
  rest all but the zero values at the end.
\<close>

definition written_fields :: "(nat \<times> Tags) list \<Rightarrow> govalue list \<Rightarrow> (nat \<times> Tags) list" where
  "written_fields ps vs = takeWhile (\<lambda>p. \<not> Optional (snd p)) ps @
     rev (dropWhile (\<lambda>p. IsZero (vs ! fst p)) (rev (dropWhile (\<lambda>p. \<not> Optional (snd p)) ps)))"

definition enc_big :: "int \<Rightarrow> enc_error + bytes" where
  "enc_big i = (if i < 0 then Inl ErrNegativeBigInt else Inr (rlp_str (be_bytes (nat i))))"

definition opt_bytes :: "bytes option \<Rightarrow> bytes" where
  "opt_bytes b = (case b of None \<Rightarrow> [] | Some b \<Rightarrow> b)"

fun enc_value :: "gotype \<Rightarrow> Tags \<Rightarrow> govalue \<Rightarrow> enc_error + bytes" where
  "enc_value t ts (VBool b) = Inr (rlp_str (if b then [1] else []))"
| "enc_value t ts (VUint i) = Inr (rlp_str (be_bytes (unat i)))"
| "enc_value t ts (VString s) = Inr (rlp_str s)"
| "enc_value t ts (VBigInt i) = enc_big i"
| "enc_value t ts (VBigPtr p) = (case p of None \<Rightarrow> Inr (rlp_str []) | Some i \<Rightarrow> enc_big i)"
| "enc_value t ts (VBytes b) = Inr (if t = TRawValue then opt_bytes b else rlp_str (opt_bytes b))"
| "enc_value t ts (VByteArray b) = Inr (rlp_str b)"
| "enc_value t ts (VSlice None) = Inr (if Tail ts then [] else rlp_list [])"
| "enc_value t ts (VSlice (Some vs)) =
    (if Tail ts then id else listE) (concatE (map (enc_value (elem_type t) no_tags) vs))"
| "enc_value t ts (VArray vs) =
    (if Tail ts then id else listE) (concatE (map (enc_value (elem_type t) no_tags) vs))"
| "enc_value t ts (VPtr None) = Inr (if typeNilKind (pointed_type t) ts = String then rlp_str [] else rlp_list [])"
| "enc_value t ts (VPtr (Some v)) = enc_value (pointed_type t) no_tags v"
| "enc_value t ts (VStruct vs) = (case ProcessFields (fields_of t) of Inl e \<Rightarrow> Inl (EncTypeErr (BadTag e))
     | Inr ps \<Rightarrow> listE (concatE (map (\<lambda>(i, fts).
         if i < length vs then enc_value (f_type (fields_of t ! i)) fts (vs ! i) else Inl NotOfType)
           (written_fields ps vs))))"
| "enc_value t ts (VInterface None) = Inr (rlp_list [])"
| "enc_value t ts (VInterface (Some (u, v))) =
    (case writer_error u of Some e \<Rightarrow> Inl (EncTypeErr e) | None \<Rightarrow> enc_value u no_tags v)"

definition enc_spec :: "gotype \<Rightarrow> govalue \<Rightarrow> enc_error + bytes" where
  "enc_spec t v = (case writer_error t of Some e \<Rightarrow> Inl (EncTypeErr e) | None \<Rightarrow> enc_value t no_tags v)"

subsection \<open>Writers that compute an encoding\<close>

text \<open>
  \<open>outputs m r\<close>: the step \<open>m\<close> fails on every buffer with the error \<open>r\<close>, or it succeeds on every
  buffer and, if that fits into 64 bits, appends the bytes \<open>r\<close>.
\<close>

definition outputs :: "(encbuf \<Rightarrow> enc_error + encbuf) \<Rightarrow> enc_error + bytes \<Rightarrow> bool" where
  "outputs m r \<longleftrightarrow> (case r of Inl e \<Rightarrow> \<forall>w. m w = Inl e
     | Inr out \<Rightarrow> \<exists>f. (\<forall>w. m w = Inr (f w)) \<and> (length out < 2 ^ 64 \<longrightarrow> emits f out))"

lemma outputs_Inl: "(\<And>w. m w = Inl e) \<Longrightarrow> outputs m (Inl e)"
  by (simp add: outputs_def)

lemma outputs_Inr: "(\<And>w. m w = Inr (f w)) \<Longrightarrow> (length out < 2 ^ 64 \<Longrightarrow> emits f out) \<Longrightarrow> outputs m (Inr out)"
  by (auto simp: outputs_def)

lemma outputs_str: "(\<And>w. m w = Inr (w\<lparr>str := str w @ b\<rparr>)) \<Longrightarrow> outputs m (Inr b)"
  by (rule outputs_Inr[OF _ emits_str]) auto

lemma outputs_rlp_str: "(\<And>w. m w = Inr (f w)) \<Longrightarrow> (length b < 2 ^ 64 \<Longrightarrow> emits f (rlp_str b)) \<Longrightarrow> outputs m (Inr (rlp_str b))"
  using length_rlp_str_ge[of b] by (auto intro!: outputs_Inr)

lemma outputs_fold:
  "list_all2 (\<lambda>x r. outputs (g x) r) xs rs \<Longrightarrow> outputs (\<lambda>w. foldE (\<lambda>w x. g x w) w xs) (concatE rs)"
proof (induction rule: list_all2_induct)
  case Nil
  then show ?case by (auto intro!: outputs_Inr[of _ "\<lambda>w. w"])
next
  case (Cons x xs r rs)
  show ?case
  proof (cases r)
    case (Inl e)
    then show ?thesis using Cons by (simp add: outputs_def)
  next
    case r: (Inr b)
    then obtain f where f: "\<And>w. g x w = Inr (f w)" "length b < 2 ^ 64 \<Longrightarrow> emits f b"
      using Cons by (auto simp: outputs_def)
    show ?thesis
    proof (cases "concatE rs")
      case (Inl e)
      then show ?thesis using Cons(3) r f(1) by (simp add: outputs_def)
    next
      case (Inr c)
      then obtain h where h: "\<And>w. foldE (\<lambda>w x. g x w) w xs = Inr (h w)" "length c < 2 ^ 64 \<Longrightarrow> emits h c"
        using Cons by (auto simp: outputs_def)
      have "outputs (\<lambda>w. foldE (\<lambda>w x. g x w) w (x # xs)) (Inr (b @ c))"
        by (rule outputs_Inr[of _ "\<lambda>w. h (f w)"]) (use f h in \<open>auto intro: emits_seq\<close>)
      then show ?thesis using Inr r by simp
    qed
  qed
qed

lemma outputs_list:
  assumes "outputs body r"
  shows "outputs (\<lambda>w. let (w1, i) = buf_list w in
    case body w1 of Inl e \<Rightarrow> Inl e | Inr w2 \<Rightarrow> Inr (listEnd i w2)) (listE r)"
proof (cases r)
  case (Inl e)
  then show ?thesis using assms by (simp add: outputs_def listE_def split_beta)
next
  case (Inr c)
  then obtain f where f: "\<And>w. body w = Inr (f w)" "length c < 2 ^ 64 \<Longrightarrow> emits f c"
    using assms by (auto simp: outputs_def)
  show ?thesis
    unfolding Inr listE_def map_sum.simps
  proof (rule outputs_Inr)
    show "(let (w1, i) = buf_list w in case body w1 of Inl e \<Rightarrow> Inl e | Inr w2 \<Rightarrow> Inr (listEnd i w2)) =
      Inr (let (w1, i) = buf_list w in listEnd i (f w1))" for w by (simp add: f(1) split_beta)
    assume "length (rlp_list c) < 2 ^ 64"
    then have c: "length c < 2 ^ 64" using length_rlp_list_gt[of c] by linarith
    from emits_list[OF f(2)[OF c] c] show "emits (\<lambda>w. let (w1, i) = buf_list w in listEnd i (f w1)) (rlp_list c)" .
  qed
qed

lemma makeByteArrayWriter_writeBytes: "makeByteArrayWriter (length b) (VByteArray b) w = Inr (writeBytes b w)"
proof -
  consider "b = []" | x where "b = [x]" | "length b \<ge> 2"
    by (cases b rule: list.exhaust[case_product list.exhaust[of "tl b"]]) (auto simp: Suc_le_eq)
  then show ?thesis
  proof cases
    case 3
    then show ?thesis by (auto simp: makeByteArrayWriter_def writeBytes_def Let_def)
  qed (auto simp: makeByteArrayWriter_def writeBytes_def encodeStringHeader_def byte_le_7F)
qed

lemma writer_cases:
  "outputs (writeUint (VUint i)) (Inr (rlp_str (be_bytes (unat i))))"
  "outputs (writeBool_value (VBool b)) (Inr (rlp_str (if b then [1] else [])))"
  "outputs (writeString_value (VString s)) (Inr (rlp_str s))"
  "outputs (writeBytes_value (VBytes bo)) (Inr (rlp_str (opt_bytes bo)))"
  "outputs (writeRawValue (VBytes bo)) (Inr (opt_bytes bo))"
  "outputs (makeByteArrayWriter (length s) (VByteArray s)) (Inr (rlp_str s))"
  "outputs (writeBigIntNoPtr (VBigInt z)) (enc_big z)"
  "outputs (writeBigIntPtr (VBigPtr (Some z))) (enc_big z)"
  "outputs (writeBigIntPtr (VBigPtr None)) (Inr (rlp_str []))"
proof -
  show "outputs (writeBool_value (VBool b)) (Inr (rlp_str (if b then [1] else [])))"
    by (rule outputs_Inr[OF _ emits_writeBool]) simp
  show "outputs (writeString_value (VString s)) (Inr (rlp_str s))"
    by (rule outputs_rlp_str[OF _ emits_writeBytes]) (simp_all add: writeBytes_def)
  show "outputs (makeByteArrayWriter (length s) (VByteArray s)) (Inr (rlp_str s))"
    by (rule outputs_rlp_str[OF makeByteArrayWriter_writeBytes emits_writeBytes])
  have big: "outputs m (enc_big z)" if "\<And>w. m w = (if z < 0 then Inl ErrNegativeBigInt else Inr (writeBigInt (nat z) w))" for m
    using that outputs_rlp_str[OF _ emits_writeBigInt, of m "nat z"] by (auto simp: enc_big_def intro: outputs_Inl)
  show "outputs (writeBigIntNoPtr (VBigInt z)) (enc_big z)" "outputs (writeBigIntPtr (VBigPtr (Some z))) (enc_big z)"
    by (rule big, simp)+
  show "outputs (writeUint (VUint i)) (Inr (rlp_str (be_bytes (unat i))))"
    by (rule outputs_Inr[OF _ emits_writeUint64]) simp
  show "outputs (writeBytes_value (VBytes bo)) (Inr (rlp_str (opt_bytes bo)))"
    by (rule outputs_rlp_str[OF _ emits_writeBytes]) (simp_all add: opt_bytes_def)
qed (auto simp: opt_bytes_def rlp_simps intro!: outputs_str)

subsection \<open>Structs\<close>

text \<open>The loop that looks for the last field to write, from the end, and \<open>written_fields\<close>.\<close>

lemma fieldsToWrite_from:
  "k \<le> length xs \<Longrightarrow> (\<And>j. j < length xs \<Longrightarrow> vs ! fd_index (flds ! (n + j)) = vs ! fst (xs ! j)) \<Longrightarrow>
    fieldsToWrite flds vs n (n + k) = n + length (dropWhile (\<lambda>p. IsZero (vs ! fst p)) (rev (take k xs)))"
proof (induction k)
  case 0
  then show ?case by (cases n) auto
next
  case (Suc k)
  have "rev (take (Suc k) xs) = xs ! k # rev (take k xs)"
    using Suc.prems(1) by (simp add: take_Suc_conv_app_nth)
  moreover have "vs ! fd_index (flds ! (n + k)) = vs ! fst (xs ! k)" using Suc.prems by simp
  ultimately show ?case using Suc by auto
qed

lemma firstOptionalField_takeWhile:
  "same_fields ps flds \<Longrightarrow> firstOptionalField flds = length (takeWhile (\<lambda>p. \<not> Optional (snd p)) ps)"
  unfolding same_fields_def by (induction rule: list_all2_induct) auto

lemma rev_dropWhile_rev: "rev (dropWhile P (rev xs)) = take (length (dropWhile P (rev xs))) xs"
  by (metis dropWhile_eq_drop length_drop length_rev rev_drop rev_rev_ident)

lemma written_fields_take:
  assumes "same_fields ps flds"
  shows "written_fields ps vs = take (fieldsToWrite flds vs (firstOptionalField flds) (length flds)) ps"
proof -
  let ?P = "\<lambda>p. \<not> Optional (snd p)" and ?Z = "\<lambda>p. IsZero (vs ! fst p)"
  let ?xs = "dropWhile ?P ps" and ?n = "length (takeWhile ?P ps)"
  have ps: "ps = takeWhile ?P ps @ ?xs" by simp
  have len: "length flds = ?n + length ?xs" using same_fieldsD(1)[OF assms] ps by (metis length_append)
  have "fieldsToWrite flds vs ?n (?n + length ?xs) = ?n + length (dropWhile ?Z (rev (take (length ?xs) ?xs)))"
  proof (rule fieldsToWrite_from)
    fix j assume "j < length ?xs"
    then have "?n + j < length ps" using same_fieldsD(1)[OF assms] len by simp
    moreover have "ps ! (?n + j) = ?xs ! j" by (subst ps, subst nth_append) simp
    ultimately show "vs ! fd_index (flds ! (?n + j)) = vs ! fst (?xs ! j)" using same_fieldsD(2)[OF assms] by simp
  qed simp
  moreover have "take (length A + m) (A @ B) = A @ take m B" for A B :: "(nat \<times> Tags) list" and m by simp
  from this[of "takeWhile ?P ps" _ ?xs] have "take (?n + m) ps = takeWhile ?P ps @ take m ?xs" for m
    unfolding takeWhile_dropWhile_id .
  ultimately show ?thesis
    unfolding firstOptionalField_takeWhile[OF assms] len written_fields_def rev_dropWhile_rev[of ?Z] by simp
qed

text \<open>The fields of a struct, each with the writer of its type.\<close>

lemma structWriter_outputs:
  assumes all: "list_all2 (\<lambda>(i, ts) f. fd_index f = i \<and> fd_optional f = Optional ts \<and> i < length vs \<and>
      outputs (fd_info f (vs ! i)) (r (i, ts))) ps flds"
  shows "outputs (structWriter flds (VStruct vs)) (listE (concatE (map r (written_fields ps vs))))"
proof -
  let ?n = "fieldsToWrite flds vs (firstOptionalField flds) (length flds)"
  have same: "same_fields ps flds"
    using all unfolding same_fields_def by (rule list_all2_mono) (auto simp: split_beta)
  have idx: "\<And>f. f \<in> set flds \<Longrightarrow> fd_index f < length vs"
    using all by (auto simp: list_all2_conv_all_nth split_beta in_set_conv_nth)
  have "list_all2 (\<lambda>f b. outputs (fd_info f (vs ! fd_index f)) b) (take ?n flds) (map r (take ?n ps))"
    using all by (auto simp: list_all2_conv_all_nth split_beta)
  from outputs_fold[OF this] have "outputs (writeFields (take ?n flds) vs) (concatE (map r (written_fields ps vs)))"
    unfolding written_fields_take[OF same] writeFields_def[abs_def] .
  moreover have "structWriter flds (VStruct vs) = (\<lambda>w. let (w1, lh) = buf_list w in
      case writeFields (take ?n flds) vs w1 of Inl e \<Rightarrow> Inl e | Inr w2 \<Rightarrow> Inr (listEnd lh w2))"
    by (rule ext) (simp only: structWriter_VStruct[OF idx] Let_def[of ?n])
  ultimately show ?thesis by (simp only: outputs_list)
qed

subsection \<open>Types\<close>

lemma first_error_None: "first_error es = None \<longleftrightarrow> (\<forall>e \<in> set es. e = None)"
  by (induction es rule: first_error.induct) auto

text \<open>A type has a writer exactly when it has no error, whatever the tags and the lookup of writers.\<close>

lemma foldE_fields_error:
  "foldE (\<lambda>acc (i, ts). case (infos ! i) ts of Inl e \<Rightarrow> Inl (InField i e)
       | Inr d \<Rightarrow> Inr (acc @ [\<lparr>fd_index = i, fd_info = d, fd_optional = Optional ts\<rparr>])) acc ps = Inl e \<longleftrightarrow>
    first_error (map (\<lambda>(i, ts). case (infos ! i) ts of Inl e \<Rightarrow> Some (InField i e) | Inr d \<Rightarrow> None) ps) = Some e"
  by (induction ps arbitrary: acc) (auto split: sum.splits)

lemma case_error_map:
  assumes "\<And>e. x = Inl e \<longleftrightarrow> y = Some e"
  shows "(case x of Inl e \<Rightarrow> Some (g e) | Inr d \<Rightarrow> None) = map_option g y"
proof (cases x)
  case (Inl a)
  then show ?thesis using assms[of a] by simp
next
  case (Inr d)
  then show ?thesis using assms by (cases y) auto
qed

lemma writer_error_iff: "makeWriter dyn t ts = Inl e \<longleftrightarrow> writer_error t = Some e"
proof (induction t ts arbitrary: e rule: makeDecoder.induct)
  case (10 fs ts)
  show ?case
  proof (cases "ProcessFields fs")
    case (Inr ps)
    have "(case (map (\<lambda>f. makeWriter dyn (f_type f)) fs ! i) ts of Inl e \<Rightarrow> Some (InField i e) | Inr d \<Rightarrow> None) =
        map_option (InField i) (map (\<lambda>f. writer_error (f_type f)) fs ! i)" if "(i, ts) \<in> set ps" for i ts
    proof -
      have i: "i < length fs" using ProcessFields_indices(2)[OF Inr] that by fastforce
      from case_error_map[OF 10[OF nth_mem[OF i]]] show ?thesis using i by simp
    qed
    then have eq: "map (\<lambda>(i, ts). case (map (\<lambda>f. makeWriter dyn (f_type f)) fs ! i) ts of Inl e \<Rightarrow> Some (InField i e) | Inr d \<Rightarrow> None) ps =
        map (\<lambda>(i, ts). map_option (InField i) (map (\<lambda>f. writer_error (f_type f)) fs ! i)) ps"
      by (intro map_cong) auto
    let ?F = "structFields fs (map (\<lambda>f. makeWriter dyn (f_type f)) fs)"
    have "makeWriter dyn (TStruct fs) ts = Inl e \<longleftrightarrow> ?F = Inl e"
      by (cases ?F) (simp_all add: makeStructWriter_def)
    also have "\<dots> \<longleftrightarrow> writer_error (TStruct fs) = Some e"
      unfolding structFields_def Inr sum.case foldE_fields_error eq writer_error.simps ..
    finally show ?thesis .
  qed (auto simp: makeStructWriter_def structFields_def)
next
  case (4 t ts)
  from 4[of e] show ?case by (auto split: sum.splits)
next
  case (8 t ts)
  from 8[of e] show ?case by (auto split: sum.splits)
next
  case (9 n t ts)
  from 9[of e] show ?case by (auto split: sum.splits)
qed auto

subsection \<open>The writers compute the encoding\<close>

text \<open>What a value of a type with elements, or of a struct type, looks like.\<close>

lemma elements_of:
  assumes "has_type t v" and "t = TSlice e \<or> t = TArray n e" and "\<not> isByte e"
  obtains vs where "elements v = Some vs" and "\<And>u. u \<in> set vs \<Longrightarrow> has_type e u \<and> size u < size v"
    and "\<And>ts. enc_value t ts v = (if Tail ts then id else listE) (concatE (map (enc_value e no_tags) vs))"
proof -
  have sz: "\<And>u vs. u \<in> set vs \<Longrightarrow> size u < Suc (size_list size vs)" by (simp add: less_Suc_eq_le size_elem)
  consider "v = VSlice None" | vs where "v = VSlice (Some vs)" | vs where "v = VArray vs"
    using assms by (cases "(t, v)" rule: has_type.cases) auto
  then show thesis
  proof cases
    case 1
    then show thesis by (intro that[of "[]"]) (auto simp: listE_def)
  next
    case (2 vs)
    then have "\<And>u. u \<in> set vs \<Longrightarrow> size u < size v" using sz by fastforce
    then show thesis using 2 assms(1,2) by (intro that[of vs]) auto
  next
    case (3 vs)
    then have "\<And>u. u \<in> set vs \<Longrightarrow> size u < size v" using sz by fastforce
    then show thesis using 3 assms(1,2) by (intro that[of vs]) auto
  qed
qed

lemma writePtr_Some: "writePtr b wr (VPtr (Some v)) = wr v"
  by (simp add: fun_eq_iff)

lemma makeSliceWriter_outputs:
  assumes "elements v = Some vs" and "\<And>u. u \<in> set vs \<Longrightarrow> outputs (wr u) (r u)"
  shows "outputs (makeSliceWriter ts wr v) ((if Tail ts then id else listE) (concatE (map r vs)))"
proof -
  have "list_all2 (\<lambda>u b. outputs (wr u) b) vs (map r vs)" using assms(2) by (simp add: list_all2_map2 list.rel_refl_strong)
  from outputs_fold[OF this] have e: "outputs (writeElems wr vs) (concatE (map r vs))"
    unfolding writeElems_def[abs_def] .
  consider "Tail ts" | "\<not> Tail ts" "vs = []" | "\<not> Tail ts" "vs \<noteq> []" by blast
  then show ?thesis
  proof cases
    case 1
    then have "makeSliceWriter ts wr v = writeElems wr vs" by (simp add: makeSliceWriter_def assms(1) fun_eq_iff)
    then show ?thesis using e 1 by simp
  next
    case 2
    then show ?thesis by (auto simp: makeSliceWriter_def assms(1) listE_def rlp_list_def rlp_head_def intro: outputs_str)
  next
    case 3
    then have "makeSliceWriter ts wr v = (\<lambda>w. let (w1, i) = buf_list w in
        case writeElems wr vs w1 of Inl e \<Rightarrow> Inl e | Inr w2 \<Rightarrow> Inr (listEnd i w2))"
      by (simp add: makeSliceWriter_def assms(1) fun_eq_iff)
    then show ?thesis using outputs_list[OF e] 3 by simp
  qed
qed

lemma makeWriter_outputs:
  assumes "makeWriter (cachedWriter n) t ts = Inr wr" and "has_type t v" and "size v \<le> n"
  shows "outputs (wr v) (enc_value t ts v)"
  using assms
proof (induction "size v" arbitrary: n t ts wr v rule: less_induct)
  case less
  note IH = less(1) and wr = less(2) and v = less(3) and n = less(4)
  show ?case
  proof (cases t)
    case (TPtr e)
    then obtain wr' where wr': "makeWriter (cachedWriter n) e no_tags = Inr wr'" "wr = makePtrWriter e ts wr'"
      using wr by (auto split: sum.splits)
    show ?thesis
    proof (cases "\<exists>u. v = VPtr (Some u)")
      case True
      then obtain u where u: "v = VPtr (Some u)" by blast
      then show ?thesis
        using IH[OF _ wr'(1), of u] v n TPtr wr'(2) by (simp add: makePtrWriter_def writePtr_Some del: writePtr.simps)
    next
      case False
      then have "v = VPtr None" using v TPtr by (cases "(t, v)" rule: has_type.cases) auto
      then show ?thesis using wr'(2) TPtr
        by (auto simp: makePtrWriter_def rlp_simps rlp_list_def rlp_head_def intro: outputs_str)
    qed
  next
    case (TSlice e)
    show ?thesis
    proof (cases "isByte e")
      case True
      then show ?thesis
        using wr v writer_cases unfolding TSlice by (cases "(t, v)" rule: has_type.cases) auto
    next
      case False
      obtain vs where vs: "elements v = Some vs" "\<And>u. u \<in> set vs \<Longrightarrow> has_type e u \<and> size u < size v"
        "\<And>ts. enc_value t ts v = (if Tail ts then id else listE) (concatE (map (enc_value e no_tags) vs))"
        using elements_of[OF v _ False, of 0] TSlice by blast
      obtain wr' where wr': "makeWriter (cachedWriter n) e no_tags = Inr wr'" "wr = makeSliceWriter ts wr'"
        using wr TSlice False by (auto split: sum.splits)
      have "outputs (wr' u) (enc_value e no_tags u)" if "u \<in> set vs" for u
        using IH[OF _ wr'(1)] vs(2)[OF that] n by simp
      then show ?thesis unfolding vs(3) wr'(2) by (rule makeSliceWriter_outputs[OF vs(1)])
    qed
  next
    case (TArray m e)
    show ?thesis
    proof (cases "isByte e")
      case True
      then show ?thesis
        using wr v writer_cases unfolding TArray by (cases "(t, v)" rule: has_type.cases) auto
    next
      case False
      obtain vs where vs: "elements v = Some vs" "\<And>u. u \<in> set vs \<Longrightarrow> has_type e u \<and> size u < size v"
        "\<And>ts. enc_value t ts v = (if Tail ts then id else listE) (concatE (map (enc_value e no_tags) vs))"
        using elements_of[OF v _ False, of m] TArray by blast
      obtain wr' where wr': "makeWriter (cachedWriter n) e no_tags = Inr wr'" "wr = makeSliceWriter ts wr'"
        using wr TArray False by (auto split: sum.splits)
      have "outputs (wr' u) (enc_value e no_tags u)" if "u \<in> set vs" for u
        using IH[OF _ wr'(1)] vs(2)[OF that] n by simp
      then show ?thesis unfolding vs(3) wr'(2) by (rule makeSliceWriter_outputs[OF vs(1)])
    qed
  next
    case (TStruct fs)
    then obtain vs where vs: "v = VStruct vs" "length vs = length fs"
        "\<And>i. i < length vs \<Longrightarrow> has_type (f_type (fs ! i)) (vs ! i)"
      using v by (cases "(t, v)" rule: has_type.cases) auto
    obtain flds where flds: "structFields fs (map (\<lambda>f. makeWriter (cachedWriter n) (f_type f)) fs) = Inr flds"
        "wr = structWriter flds"
      using wr TStruct by (auto simp: makeStructWriter_def split: sum.splits)
    from flds(1) obtain ps where ps: "ProcessFields fs = Inr ps" and all: "list_all2 (\<lambda>(i, ts) f.
      (map (\<lambda>f. makeWriter (cachedWriter n) (f_type f)) fs ! i) ts = Inr (fd_info f) \<and> fd_index f = i \<and>
        fd_optional f = Optional ts) ps flds"
      by (rule structFields_parts)
    let ?r = "\<lambda>(i, fts). if i < length vs then enc_value (f_type (fs ! i)) fts (vs ! i) else Inl NotOfType"
    have "list_all2 (\<lambda>(i, ts) f. fd_index f = i \<and> fd_optional f = Optional ts \<and> i < length vs \<and>
      outputs (fd_info f (vs ! i)) (?r (i, ts))) ps flds"
      unfolding list_all2_conv_all_nth
    proof (intro conjI allI impI)
      show "length ps = length flds" using all by (rule list_all2_lengthD)
      fix j assume j: "j < length ps"
      let ?i = "fst (ps ! j)" and ?f = "flds ! j"
      have i: "?i < length vs" using ProcessFields_indices(2)[OF ps] j vs(2) by simp
      have "makeWriter (cachedWriter n) (f_type (fs ! ?i)) (snd (ps ! j)) = Inr (fd_info ?f)" "fd_index ?f = ?i"
          "fd_optional ?f = Optional (snd (ps ! j))"
        using list_all2_nthD[OF all j] i vs(2) by (auto simp: split_beta)
      moreover have "size (vs ! ?i) < size v" using size_nth_list[OF i] vs(1) by simp
      ultimately have "outputs (fd_info ?f (vs ! ?i)) (enc_value (f_type (fs ! ?i)) (snd (ps ! j)) (vs ! ?i))"
        using IH[OF _ _ vs(3)[OF i]] n by simp
      then show "(case ps ! j of (i, ts) \<Rightarrow> \<lambda>f. fd_index f = i \<and> fd_optional f = Optional ts \<and> i < length vs \<and>
          outputs (fd_info f (vs ! i)) (?r (i, ts))) (flds ! j)"
        using i \<open>fd_index ?f = ?i\<close> \<open>fd_optional ?f = Optional (snd (ps ! j))\<close> by (simp add: split_beta)
    qed
    from structWriter_outputs[OF this] show ?thesis unfolding vs(1) flds(2) TStruct enc_value.simps fields_of.simps ps sum.case .
  next
    case (TInterface b)
    show ?thesis
    proof (cases "\<exists>u x. v = VInterface (Some (u, x))")
      case True
      then obtain u x where x: "v = VInterface (Some (u, x))" by blast
      have ux: "has_type u x" "size x < n" "size x < size v" using v x n by auto
      then obtain m where m: "n = Suc m" by (cases n) auto
      have wr': "wr v w = (case makeWriter (cachedWriter m) u no_tags of Inl e \<Rightarrow> Inl (EncTypeErr e) | Inr wr \<Rightarrow> wr x w)" for w
        using wr TInterface x m by auto
      show ?thesis
      proof (cases "writer_error u")
        case (Some e)
        then show ?thesis using writer_error_iff[of "cachedWriter m" u no_tags e] wr' x by (auto intro: outputs_Inl)
      next
        case None
        then obtain wu where wu: "makeWriter (cachedWriter m) u no_tags = Inr wu"
          using writer_error_iff[of "cachedWriter m" u no_tags] by (cases "makeWriter (cachedWriter m) u no_tags") auto
        have "outputs (wu x) (enc_value u no_tags x)" using IH[OF ux(3) wu ux(1)] ux(2) m by simp
        moreover have "wr v = wu x" using wr' wu by (simp add: fun_eq_iff)
        ultimately show ?thesis using x None by simp
      qed
    next
      case False
      then have "v = VInterface None" using v TInterface by (cases "(t, v)" rule: has_type.cases) auto
      then show ?thesis using wr TInterface by (auto simp: rlp_list_def rlp_head_def intro: outputs_str)
    qed
  next
    case TOther
    then show ?thesis using wr by simp
  next
    case TBool
    show ?thesis using wr v writer_cases unfolding TBool by (cases "(t, v)" rule: has_type.cases) auto
  next
    case (TUint bits)
    show ?thesis using wr v writer_cases unfolding TUint by (cases "(t, v)" rule: has_type.cases) auto
  next
    case TString
    show ?thesis using wr v writer_cases unfolding TString by (cases "(t, v)" rule: has_type.cases) auto
  next
    case TBigInt
    show ?thesis using wr v writer_cases unfolding TBigInt by (cases "(t, v)" rule: has_type.cases) auto
  next
    case TBigPtr
    show ?thesis using wr v writer_cases unfolding TBigPtr by (cases "(t, v)" rule: has_type.cases) (auto split: option.splits)
  next
    case TRawValue
    show ?thesis using wr v writer_cases unfolding TRawValue by (cases "(t, v)" rule: has_type.cases) auto
  qed
qed

text \<open>The entry point.\<close>

lemma buf_encode_outputs:
  assumes "has_type t v"
  shows "outputs (buf_encode t v) (enc_spec t v)"
proof (cases "writer_error t")
  case (Some e)
  then have "makeWriter (cachedWriter (size v)) t no_tags = Inl e" by (simp add: writer_error_iff)
  then show ?thesis using Some by (auto simp: enc_spec_def buf_encode_def intro: outputs_Inl)
next
  case None
  then obtain wr where wr: "makeWriter (cachedWriter (size v)) t no_tags = Inr wr"
    using writer_error_iff[of "cachedWriter (size v)" t no_tags] by (cases "makeWriter (cachedWriter (size v)) t no_tags") auto
  then have "buf_encode t v = wr v" by (simp add: buf_encode_def fun_eq_iff)
  then show ?thesis using makeWriter_outputs[OF wr assms] None by (simp add: enc_spec_def)
qed

lemma EncodeToBytes_spec:
  assumes "has_type t v"
  shows "enc_spec t v = Inl e \<Longrightarrow> EncodeToBytes pooled t v = Inl e"
    and "enc_spec t v = Inr out \<Longrightarrow> length out < 2 ^ 64 \<Longrightarrow> EncodeToBytes pooled t v = Inr out"
  using buf_encode_outputs[OF assms] emits_makeBytes
  by (auto simp: outputs_def EncodeToBytes_def)

end
