(* ===== verification/Props_Encode.thy ===== *)
theory Props_Encode
  imports Rlp_Handles Rlp_Reference
begin

section \<open>Properties of the encoder\<close>

text \<open>
  The properties of the encoder of Go values and of encoder buffers as handles, each with a
  concrete instance where it has hypotheses.
\<close>

subsection \<open>Values\<close>

text \<open>C31: The encoder is the reference encoder.  For every type of the universe and every value of it
  (nil pointers, nil slices and nil interfaces, negative integers, values in interfaces, structs with
  optional and tail fields), \<open>EncodeToBytes\<close> returns the bytes, or the error, that \<open>enc_spec\<close> gives,
  whatever buffer the pool hands out; only the output must fit into 64 bits.\<close>

theorem EncodeToBytes_exact:
  assumes "has_type t v" and "\<And>out. enc_spec t v = Inr out \<Longrightarrow> length out < 2 ^ 64"
  shows "EncodeToBytes pooled t v = enc_spec t v"
  using EncodeToBytes_spec[OF assms(1)] assms(2) by (cases "enc_spec t v") auto

text \<open>The instance: a struct whose last field is optional and zero.\<close>

definition example_struct :: gotype where
  "example_struct = TStruct [Field ''A'' True (TUint 64) '''', Field ''B'' True (TSlice TString) '''',
     Field ''C'' True TBigPtr ''optional'']"

theorem EncodeToBytes_exact_witness:
  "EncodeToBytes empty_buf example_struct (VStruct [VUint 1000, VSlice (Some [VString [97]]), VBigPtr None]) =
    Inr [0xC5, 0x82, 3, 0xE8, 0xC1, 97]"
proof -
  let ?v = "VStruct [VUint 1000, VSlice (Some [VString [97]]), VBigPtr None]"
  have e: "enc_spec example_struct ?v = Inr [0xC5, 0x82, 3, 0xE8, 0xC1, 97]" by code_simp
  have "has_type example_struct ?v" by (auto simp: example_struct_def isByte_def less_Suc_eq)
  from EncodeToBytes_exact[OF this, of empty_buf] show ?thesis unfolding e by simp
qed

subsection \<open>Encoder buffers\<close>

text \<open>C34: An encoder session.  In any state a program with encoder buffers can reach, a new
  \<open>EncoderBuffer\<close> for a writer, used to write any items, holds exactly their encoding, whatever was
  in the pooled buffer; \<open>Flush\<close> hands it to the writer: all of it when there is no error, a prefix
  when there is one.  The handle is zero afterwards.\<close>

theorem encoder_session:
  assumes "io_writer wr written" and "handles_reachable wr (hs, w)" and "k < length (ew_sinks w)"
    and "length (items_bytes xs) < 2 ^ 64"
  shows "\<exists>h w1 w2 err w3 n. NewEncoderBuffer pick (Some (ToSink k)) w = Some (h, w1) \<and>
    eb_items h xs w1 = Some w2 \<and> eb_ToBytes h w2 = Some (items_bytes xs) \<and>
    eb_Flush wr h w2 = Some (err, zero_handle, w3) \<and>
    written (ew_sinks w3 ! k) = written (ew_sinks w ! k) @ take n (items_bytes xs) \<and>
    (err = None \<longrightarrow> length (items_bytes xs) \<le> n)"
  using io_writer.session_delivers[OF assms(1) handles_okD(2,3)] reachable_handles_ok assms by blast

text \<open>The instance: the first session of a program, a list of two items.\<close>

theorem encoder_session_witness:
  "\<exists>h w1 w2 err w3 n. NewEncoderBuffer 0 (Some (ToSink 0)) \<lparr>ew_bufs = [], ew_pool = [], ew_sinks = [empty_buf]\<rparr> =
      Some (h, w1) \<and> eb_items h [ItemList [ItemUint 5, ItemBytes [200]]] w1 = Some w2 \<and>
    eb_Flush encbuf_Write h w2 = Some (err, zero_handle, w3) \<and>
    str (ew_sinks w3 ! 0) = take n [0xC3, 5, 0x81, 200] \<and> (err = None \<longrightarrow> 4 \<le> n)"
proof -
  let ?w = "\<lparr>ew_bufs = [], ew_pool = [], ew_sinks = [empty_buf]\<rparr>"
  have b: "items_bytes [ItemList [ItemUint 5, ItemBytes [200]]] = [0xC3, 5, 0x81, 200]" by code_simp
  have "0 < length (ew_sinks ?w)" "length (items_bytes [ItemList [ItemUint 5, ItemBytes [200]]]) < 2 ^ 64"
    unfolding b by simp_all
  from encoder_session[OF encbuf_io.io_writer_axioms no_handles this, of 0]
  obtain h w1 w2 err w3 n where "NewEncoderBuffer 0 (Some (ToSink 0)) ?w = Some (h, w1)"
    "eb_items h [ItemList [ItemUint 5, ItemBytes [200]]] w1 = Some w2"
    "eb_Flush encbuf_Write h w2 = Some (err, zero_handle, w3)" "err = None \<longrightarrow> 4 \<le> n"
    "str (ew_sinks w3 ! 0) = take n [0xC3, 5, 0x81, 200]"
    unfolding b by (fastforce simp: empty_buf_def simp del: eb_items.simps)
  then show ?thesis by blast
qed



text \<open>A session inside of a session, as an \<open>EncodeRLP\<close> method has it: an \<open>EncoderBuffer\<close> made for
  another one appends to that one's buffer, item by item the same way, and flushing it neither writes nor
  frees anything; resetting it panics.\<close>

theorem encoder_session_derived:
  assumes "eb_buf g = Some a"
  shows "\<exists>h. NewEncoderBuffer pick (Some (ToHandle g)) w = Some (h, w) \<and> (\<forall>xs w'. eb_items h xs w' = eb_items g xs w') \<and>
    (\<forall>w'. eb_Flush wr h w' = Some (None, zero_handle, w') \<and> (\<forall>dst. eb_Reset pick dst h w' = None))"
  using assms by (rule session_derived)

theorem encoder_session_derived_witness:
  "\<exists>h. NewEncoderBuffer 0 (Some (ToHandle (EncoderBuffer (Some 0) (Some (ToSink 0)) True)))
      \<lparr>ew_bufs = [empty_buf], ew_pool = [], ew_sinks = [empty_buf]\<rparr> =
    Some (h, \<lparr>ew_bufs = [empty_buf], ew_pool = [], ew_sinks = [empty_buf]\<rparr>)"
  using encoder_session_derived[of "EncoderBuffer (Some 0) (Some (ToSink 0)) True" 0 0
      "\<lparr>ew_bufs = [empty_buf], ew_pool = [], ew_sinks = [empty_buf]\<rparr>" encbuf_Write] by auto

end
