(* ===== verification/Gen_Types.thy ===== *)
theory Gen_Types
  imports Rlp_Types
begin

section \<open>The types of go/types (rlp/rlpgen/types.go)\<close>

text \<open>
  The code generator \<open>rlpgen\<close> reads Go types from source with the package go/types.  \<open>gtype\<close> is
  the part of them it distinguishes; a named type has the path and the name of its package, its own
  name, and its underlying type.  Types that refer to themselves are outside of the universe, as in
  \<open>Rlp_Types\<close> (the generator does not end on them).

  \<open>typeToStructType\<close> gives the view of a type that the struct tag rules, and the encoder and the
  decoder by reflection, have of it.
\<close>

subsection \<open>Types\<close>

text \<open>The basic kinds, with the aliases \<open>byte\<close> and \<open>rune\<close>, which differ in spelling only.\<close>

datatype basic =
    BBool | BInt | BInt8 | BInt16 | BInt32 | BInt64
  | BUint | BUint8 | BUint16 | BUint32 | BUint64 | BUintptr
  | BFloat32 | BFloat64 | BComplex64 | BComplex128 | BString | BUnsafePointer | BByte | BRune

text \<open>The order of the constants of go/types, which agrees with reflect up to \<open>Complex128\<close>.\<close>

primrec basic_no :: "basic \<Rightarrow> nat" where
  "basic_no BBool = 1" | "basic_no BInt = 2" | "basic_no BInt8 = 3" | "basic_no BInt16 = 4"
| "basic_no BInt32 = 5" | "basic_no BInt64 = 6" | "basic_no BUint = 7" | "basic_no BUint8 = 8"
| "basic_no BUint16 = 9" | "basic_no BUint32 = 10" | "basic_no BUint64 = 11" | "basic_no BUintptr = 12"
| "basic_no BFloat32 = 13" | "basic_no BFloat64 = 14" | "basic_no BComplex64 = 15"
| "basic_no BComplex128 = 16" | "basic_no BString = 17" | "basic_no BUnsafePointer = 18"
| "basic_no BByte = 8" | "basic_no BRune = 5"

primrec basic_name :: "basic \<Rightarrow> string" where
  "basic_name BBool = ''bool''" | "basic_name BInt = ''int''" | "basic_name BInt8 = ''int8''"
| "basic_name BInt16 = ''int16''" | "basic_name BInt32 = ''int32''" | "basic_name BInt64 = ''int64''"
| "basic_name BUint = ''uint''" | "basic_name BUint8 = ''uint8''" | "basic_name BUint16 = ''uint16''"
| "basic_name BUint32 = ''uint32''" | "basic_name BUint64 = ''uint64''" | "basic_name BUintptr = ''uintptr''"
| "basic_name BFloat32 = ''float32''" | "basic_name BFloat64 = ''float64''"
| "basic_name BComplex64 = ''complex64''" | "basic_name BComplex128 = ''complex128''"
| "basic_name BString = ''string''" | "basic_name BUnsafePointer = ''unsafe.Pointer''"
| "basic_name BByte = ''byte''" | "basic_name BRune = ''rune''"

text \<open>\<open>types.StdSizes.Sizeof\<close> of an unsigned integer type of a fixed size, in bits; and the size
  of the others on the platforms in question.\<close>

definition basic_bits :: "basic \<Rightarrow> nat" where
  "basic_bits b = (case b of BUint8 \<Rightarrow> 8 | BByte \<Rightarrow> 8 | BUint16 \<Rightarrow> 16 | BUint32 \<Rightarrow> 32 | _ \<Rightarrow> 64)"

datatype gtype =
    GBasic basic
  | GNamed (gn_path: string) (gn_pkg: string) (gn_name: string) gtype
  | GPointer gtype
  | GSlice gtype
  | GArray nat gtype
  | GStruct "gfield list"
  | GInterface bool
  | GMap gtype gtype
  | GChan gtype
  | GSignature
and gfield = GField (gf_name: string) (gf_exported: bool) (gf_type: gtype) (gf_tag: string)

lemma size_gf_type [termination_simp]: "f \<in> set fs \<Longrightarrow> size (gf_type f) < Suc (size_list size fs)"
proof -
  assume "f \<in> set fs"
  moreover have "size (gf_type f) \<le> size f" by (cases f) simp
  ultimately show ?thesis using size_list_estimation'[of f fs "size (gf_type f)" size] by simp
qed

text \<open>\<open>Underlying\<close>, which is never a named type in go/types; the loop of \<open>resolveUnderlying\<close>.\<close>

fun resolveUnderlying :: "gtype \<Rightarrow> gtype" where
  "resolveUnderlying (GNamed p q n t) = resolveUnderlying t"
| "resolveUnderlying t = t"

text \<open>Identical types: equal up to the spelling of \<open>byte\<close> and \<open>rune\<close>.\<close>

definition canon_basic :: "basic \<Rightarrow> basic" where
  "canon_basic b = (case b of BByte \<Rightarrow> BUint8 | BRune \<Rightarrow> BInt32 | _ \<Rightarrow> b)"

fun canon :: "gtype \<Rightarrow> gtype" where
  "canon (GBasic b) = GBasic (canon_basic b)"
| "canon (GNamed p q n t) = GNamed p q n t"
| "canon (GPointer t) = GPointer (canon t)"
| "canon (GSlice t) = GSlice (canon t)"
| "canon (GArray n t) = GArray n (canon t)"
| "canon (GStruct fs) = GStruct (map (\<lambda>f. GField (gf_name f) (gf_exported f) (canon (gf_type f)) (gf_tag f)) fs)"
| "canon (GInterface e) = GInterface e"
| "canon (GMap k v) = GMap (canon k) (canon v)"
| "canon (GChan t) = GChan (canon t)"
| "canon GSignature = GSignature"

definition identical :: "gtype \<Rightarrow> gtype \<Rightarrow> bool" where
  "identical a b \<longleftrightarrow> canon a = canon b"

fun has_name :: "gtype \<Rightarrow> bool" where
  "has_name (GBasic b) \<longleftrightarrow> True"
| "has_name (GNamed p q n t) \<longleftrightarrow> True"
| "has_name t \<longleftrightarrow> False"

text \<open>\<open>types.AssignableTo\<close>, for types that are neither interfaces nor channels.\<close>

definition AssignableTo :: "gtype \<Rightarrow> gtype \<Rightarrow> bool" where
  "AssignableTo v t \<longleftrightarrow> identical v t \<or>
     identical (resolveUnderlying v) (resolveUnderlying t) \<and> (\<not> has_name v \<or> \<not> has_name t)"

subsection \<open>Tests\<close>

fun isBigInt :: "gtype \<Rightarrow> bool" where
  "isBigInt (GNamed p q n t) \<longleftrightarrow> p = ''math/big'' \<and> n = ''Int''"
| "isBigInt t \<longleftrightarrow> False"

definition gen_isByte :: "gtype \<Rightarrow> bool" where
  "gen_isByte t \<longleftrightarrow> (case resolveUnderlying t of GBasic b \<Rightarrow> basic_no b = basic_no BUint8 | _ \<Rightarrow> False)"

text \<open>
  \<open>reflect.Kind\<close>.  For a basic type the code adds its position after \<open>Bool\<close>; the kinds that the
  rest of the generator can tell apart are the ones of \<open>typeToStructType\<close>.
\<close>

datatype rkind = RBasic nat | RString | RUnsafePointer | RArray | RChan | RInterface | RMap | RPtr | RFunc | RSlice | RStruct

fun typeReflectKind :: "gtype \<Rightarrow> rkind option" where
  "typeReflectKind (GBasic b) =
    (if 1 \<le> basic_no b \<and> basic_no b \<le> basic_no BComplex128 then Some (RBasic (1 + (basic_no b - 1)))
     else if b = BString then Some RString else if b = BUnsafePointer then Some RUnsafePointer else None)"
| "typeReflectKind (GArray n t) = Some RArray"
| "typeReflectKind (GChan t) = Some RChan"
| "typeReflectKind (GInterface e) = Some RInterface"
| "typeReflectKind (GMap k v) = Some RMap"
| "typeReflectKind (GPointer t) = Some RPtr"
| "typeReflectKind GSignature = Some RFunc"
| "typeReflectKind (GSlice t) = Some RSlice"
| "typeReflectKind (GStruct fs) = Some RStruct"
| "typeReflectKind (GNamed p q n t) = None"

subsection \<open>The view of the struct tag rules\<close>

text \<open>
  \<open>buildContext\<close>: which types implement the interfaces \<open>Encoder\<close> and \<open>Decoder\<close> is asked of
  go/types (\<open>types.Implements\<close>), so it is a part of the context here.
\<close>

record buildContext =
  isEncoder :: "gtype \<Rightarrow> bool"
  isDecoder :: "gtype \<Rightarrow> bool"
  rawValueType :: gtype

definition pathOfPackageRLP :: string where
  "pathOfPackageRLP = ''github.com/jaiminpan/mt-trie/rlp''"

text \<open>
  The struct tag rules ask for the kind of a type, for the kinds of its elements, and whether it is an
  encoder; of these they distinguish the kinds of \<open>gotype\<close>.  A named type is resolved first, so
  whether it is an encoder is asked of its underlying type.  \<open>big.Int\<close> and \<open>RawValue\<close> are kept
  apart from a struct and a slice for the sake of the reflection view; the tag rules treat them
  alike.  The cache only saves work.
\<close>

fun typeToStructType :: "buildContext \<Rightarrow> gtype \<Rightarrow> gotype" where
  "typeToStructType bctx (GNamed p q n t) =
    (if isBigInt (GNamed p q n t) then TBigInt
     else if GNamed p q n t = rawValueType bctx then TRawValue
     else typeToStructType bctx t)"
| "typeToStructType bctx (GBasic b) =
    (if b = BBool then TBool
     else if basic_no BUint \<le> basic_no b \<and> basic_no b \<le> basic_no BUintptr
       then (if isEncoder bctx (GBasic b) then TOther else TUint (basic_bits b))
     else if b = BString then TString else TOther)"
| "typeToStructType bctx (GPointer t) = (if isBigInt t then TBigPtr else TPtr (typeToStructType bctx t))"
| "typeToStructType bctx (GSlice t) = TSlice (typeToStructType bctx t)"
| "typeToStructType bctx (GArray n t) = TArray n (typeToStructType bctx t)"
| "typeToStructType bctx (GStruct fs) = TStruct (map (\<lambda>f.
     Field (gf_name f) (gf_exported f) (typeToStructType bctx (gf_type f)) (gf_tag f)) fs)"
| "typeToStructType bctx (GInterface e) = TInterface e"
| "typeToStructType bctx t = TOther"

end
