(* ===== verification/Gen_Ops.thy ===== *)
theory Gen_Ops
  imports Gen_Types
begin

section \<open>The operations of the code generator (rlp/rlpgen/gen.go)\<close>

text \<open>
  \<open>makeOp\<close> turns a type into a tree of operations, one per kind of type, from which the code of the
  encoder and of the decoder is generated.  It fails for types that are not supported.
\<close>

text \<open>The methods of \<open>rlp.EncoderBuffer\<close> and \<open>rlp.Stream\<close> are called by name.\<close>

datatype op =
    BasicOp (bo_typ: gtype) (writeMethod: string) (writeArgType: gtype)
      (decMethod: string) (decResultType: gtype) (decUseBitSize: bool)
  | ByteArrayOp gtype gtype
  | BigIntOp bool
  | EncoderDecoderOp gtype
  | PtrOp gtype op bool kind
  | StructOp "gtype option" gtype "structField list" "structField list"
  | SliceOp gtype op
and structField = StructField (sf_name: string) (sf_index: nat) (sf_typ: gtype) (sf_elem: op)

datatype gen_error =
    UnhandledBasic gtype | DecoderNotPointer gtype | NotDecoder gtype | NotEncoder gtype
  | UnsupportedTail string | UnhandledArray gtype | UnhandledType gtype
  | GenTag tag_error | GenField string gen_error

definition bslice :: gtype where
  "bslice = GSlice (GBasic BUint8)"

definition makeBasicOp :: "gtype \<Rightarrow> basic \<Rightarrow> gen_error + op" where
  "makeBasicOp typ b = (let k = basic_no b in
     if k = basic_no BBool then Inr (BasicOp typ ''WriteBool'' (GBasic BBool) ''Bool'' (GBasic BBool) False)
     else if basic_no BUint8 \<le> k \<and> k \<le> basic_no BUint64
       then Inr (BasicOp typ ''WriteUint64'' (GBasic BUint64) ''Uint'' typ True)
     else if k = basic_no BString
       then Inr (BasicOp typ ''WriteString'' (GBasic BString) ''String'' (GBasic BString) False)
     else Inl (UnhandledBasic typ))"

text \<open>The panic of \<open>makeByteSliceOp\<close> is for other slices; \<open>makeOp\<close> tests before it calls it.\<close>

definition makeByteSliceOp :: "gtype \<Rightarrow> op" where
  "makeByteSliceOp typ = BasicOp typ ''WriteBytes'' bslice ''Bytes'' bslice False"

definition makeRawValueOp :: "buildContext \<Rightarrow> op" where
  "makeRawValueOp bctx = BasicOp (rawValueType bctx) ''Write'' bslice ''Raw'' bslice False"

definition makeByteArrayOp :: "gtype option \<Rightarrow> gtype \<Rightarrow> op" where
  "makeByteArrayOp name typ = ByteArrayOp typ (case name of None \<Rightarrow> typ | Some n \<Rightarrow> n)"

definition makePtrOp :: "buildContext \<Rightarrow> gtype \<Rightarrow> gen_error + op \<Rightarrow> Tags \<Rightarrow> gen_error + op" where
  "makePtrOp bctx elemTyp elemOp tags = (case elemOp of Inl e \<Rightarrow> Inl e
     | Inr eop \<Rightarrow>
         if NilOK tags then Inr (PtrOp elemTyp eop True (case NilKind tags of Some k \<Rightarrow> k | None \<Rightarrow> List))
         else Inr (PtrOp elemTyp eop False (DefaultNilValue (typeToStructType bctx elemTyp))))"

definition checkUnsupportedTags :: "string \<Rightarrow> Tags \<Rightarrow> gen_error + unit" where
  "checkUnsupportedTags name tag = (if Tail tag then Inl (UnsupportedTail name) else Inr ())"

text \<open>
  \<open>ops ! i\<close> makes the operation of the field with index \<open>i\<close>, given its tags.  Fields with the tag
  \<open>optional\<close> are collected apart.
\<close>

definition makeStructOp :: "buildContext \<Rightarrow> gtype option \<Rightarrow> gfield list \<Rightarrow> (Tags \<Rightarrow> gen_error + op) list \<Rightarrow> gen_error + op" where
  "makeStructOp bctx named fs ops =
    (case ProcessFields (map (\<lambda>f. Field (gf_name f) (gf_exported f) (typeToStructType bctx (gf_type f)) (gf_tag f)) fs) of
       Inl e \<Rightarrow> Inl (GenTag e)
     | Inr ps \<Rightarrow>
         (case foldE (\<lambda>(flds, opts) (i, tag).
            let name = gf_name (fs ! i) in
            case checkUnsupportedTags name tag of Inl e \<Rightarrow> Inl e
            | Inr _ \<Rightarrow> (case (ops ! i) tag of Inl e \<Rightarrow> Inl (GenField name e)
              | Inr elem \<Rightarrow> (let f = StructField name i (gf_type (fs ! i)) elem in
                  Inr (if Optional tag then (flds, opts @ [f]) else (flds @ [f], opts))))) ([], []) ps of
          Inl e \<Rightarrow> Inl e
        | Inr (flds, opts) \<Rightarrow> Inr (StructOp named (GStruct fs) flds opts)))"

definition makeSliceOp :: "gtype \<Rightarrow> gen_error + op \<Rightarrow> gen_error + op" where
  "makeSliceOp typ elemOp = map_sum id (SliceOp typ) elemOp"

fun makeOp :: "buildContext \<Rightarrow> gtype option \<Rightarrow> gtype \<Rightarrow> Tags \<Rightarrow> gen_error + op" where
  "makeOp bctx name (GNamed p q n t) tags = (let typ = GNamed p q n t in
     if isBigInt typ then Inr (BigIntOp False)
     else if typ = rawValueType bctx then Inr (makeRawValueOp bctx)
     else if isDecoder bctx typ then Inl (DecoderNotPointer typ)
     else makeOp bctx (Some typ) t tags)"
| "makeOp bctx name (GPointer t) tags = (let typ = GPointer t in
     if isBigInt t then Inr (BigIntOp True)
     else if isEncoder bctx typ then
       (if isDecoder bctx typ then Inr (EncoderDecoderOp typ) else Inl (NotDecoder typ))
     else if isDecoder bctx typ then Inl (NotEncoder typ)
     else makePtrOp bctx t (makeOp bctx None t no_tags) tags)"
| "makeOp bctx name (GBasic b) tags = makeBasicOp (GBasic b) b"
| "makeOp bctx name (GStruct fs) tags = makeStructOp bctx name fs (map (\<lambda>f. makeOp bctx None (gf_type f)) fs)"
| "makeOp bctx name (GSlice t) tags =
    (if gen_isByte t \<and> \<not> isEncoder bctx t then Inr (makeByteSliceOp (GSlice t))
     else makeSliceOp (GSlice t) (makeOp bctx None t no_tags))"
| "makeOp bctx name (GArray n t) tags =
    (if gen_isByte t \<and> \<not> isEncoder bctx t then Inr (makeByteArrayOp name (GArray n t))
     else Inl (UnhandledArray (GArray n t)))"
| "makeOp bctx name t tags = Inl (UnhandledType t)"

end
