(* ===== verification/Gen_Write.thy ===== *)
theory Gen_Write
  imports Gen_Ops
begin

section \<open>Generating encoders (rlp/rlpgen/gen.go)\<close>

text \<open>
  \<open>genWrite\<close> returns the text of Go statements.  Here it returns statements of a small language that has
  one constructor per template of the generator, and \<open>print_wstmts\<close> gives their text.  What the
  statements do is in \<open>Gen_Run\<close>.
\<close>

subsection \<open>The generator's context\<close>

text \<open>The set of imports is a list without duplicates; \<open>importsList\<close> sorts it.\<close>

record genContext =
  gc_inPackage :: string
  gc_imports :: "string list"
  tempCounter :: nat

definition newGenContext :: "string \<Rightarrow> genContext" where
  "newGenContext inPackage = \<lparr>gc_inPackage = inPackage, gc_imports = [], tempCounter = 0\<rparr>"

definition new_temp :: "genContext \<Rightarrow> nat \<times> genContext" where
  "new_temp ctx = (tempCounter ctx, ctx\<lparr>tempCounter := tempCounter ctx + 1\<rparr>)"

definition resetTemp :: "genContext \<Rightarrow> genContext" where
  "resetTemp ctx = ctx\<lparr>tempCounter := 0\<rparr>"

definition addImport :: "string \<Rightarrow> genContext \<Rightarrow> genContext" where
  "addImport path ctx = (if path = gc_inPackage ctx then ctx
     else ctx\<lparr>gc_imports := List.insert path (gc_imports ctx)\<rparr>)"

fun str_le :: "string \<Rightarrow> string \<Rightarrow> bool" where
  "str_le [] b = True"
| "str_le (x # a) [] = False"
| "str_le (x # a) (y # b) = (x = y \<and> str_le a b \<or> (of_char x :: nat) < of_char y)"

fun insert_str :: "string \<Rightarrow> string list \<Rightarrow> string list" where
  "insert_str s [] = [s]"
| "insert_str s (t # ts) = (if str_le s t then s # t # ts else t # insert_str s ts)"

definition importsList :: "genContext \<Rightarrow> string list" where
  "importsList ctx = foldr insert_str (gc_imports ctx) []"

text \<open>
  Printing a type with the qualifier \<open>qualify\<close>: a package other than the current one is named, and
  imported (\<open>qualify_imports\<close>).  A tag of a field is printed quoted.
\<close>

fun digits :: "nat \<Rightarrow> string" where
  "digits n = (if n < 10 then [char_of (48 + n)] else digits (n div 10) @ [char_of (48 + n mod 10)])"

definition quoted_tag :: "string \<Rightarrow> string" where
  "quoted_tag t = (if t = [] then []
     else '' '' @ [CHR 0x22] @ ''rlp:'' @ [CHR 0x5C, CHR 0x22] @ t @ [CHR 0x5C, CHR 0x22, CHR 0x22])"

fun sep_by :: "string \<Rightarrow> string list \<Rightarrow> string" where
  "sep_by d [] = []"
| "sep_by d [x] = x"
| "sep_by d (x # y # ys) = x @ d @ sep_by d (y # ys)"

fun TypeString :: "string \<Rightarrow> gtype \<Rightarrow> string" where
  "TypeString pkg (GBasic b) = basic_name b"
| "TypeString pkg (GNamed p q n t) = (if p = pkg then n else q @ ''.'' @ n)"
| "TypeString pkg (GPointer t) = ''*'' @ TypeString pkg t"
| "TypeString pkg (GSlice t) = ''[]'' @ TypeString pkg t"
| "TypeString pkg (GArray n t) = ''['' @ digits n @ '']'' @ TypeString pkg t"
| "TypeString pkg (GStruct fs) = ''struct{'' @ sep_by ''; '' (map (\<lambda>f.
     gf_name f @ '' '' @ TypeString pkg (gf_type f) @ quoted_tag (gf_tag f)) fs) @ ''}''"
| "TypeString pkg (GInterface e) = (if e then ''interface{}'' else ''interface{...}'')"
| "TypeString pkg (GMap k v) = ''map['' @ TypeString pkg k @ '']'' @ TypeString pkg v"
| "TypeString pkg (GChan t) = ''chan '' @ TypeString pkg t"
| "TypeString pkg GSignature = ''func(...)''"

fun type_packages :: "gtype \<Rightarrow> string list" where
  "type_packages (GNamed p q n t) = [p]"
| "type_packages (GPointer t) = type_packages t"
| "type_packages (GSlice t) = type_packages t"
| "type_packages (GArray n t) = type_packages t"
| "type_packages (GStruct fs) = concat (map (\<lambda>f. type_packages (gf_type f)) fs)"
| "type_packages (GMap k v) = type_packages k @ type_packages v"
| "type_packages (GChan t) = type_packages t"
| "type_packages t = []"

definition qualify_imports :: "gtype \<Rightarrow> genContext \<Rightarrow> genContext" where
  "qualify_imports t ctx = foldl (\<lambda>c p. addImport p c) ctx (type_packages t)"

subsection \<open>The generated statements\<close>

text \<open>
  Expressions of the generated code.  A selector carries the index of the field next to its
  name; the text has the name only.
\<close>

datatype goexp =
    Obj
  | Tmp nat
  | Sel goexp string nat
  | Deref goexp
  | AddrOf goexp
  | Conv gtype goexp
  | SliceAll goexp

datatype nonzero =
    IsTrue goexp
  | NotZeroInt goexp
  | NotEmptyString goexp
  | NotZeroOf goexp gtype
  | NotNil goexp
  | LenPositive goexp

text \<open>
  \<open>WList m body\<close> is \<open>m := w.List()\<close>, the body, and \<open>w.ListEnd(m)\<close>; \<open>WRange x v body\<close> is a loop
  over the elements of \<open>v\<close>; \<open>WIfAny\<close> tests variables that \<open>WDefNonZero\<close> defined.
\<close>

datatype wstmt =
    WCall string goexp
  | WNilKind kind
  | WEmptyString
  | WNegCheck goexp
  | WEncodeRLP goexp
  | WIfNil goexp "wstmt list" "wstmt list"
  | WList nat "wstmt list"
  | WRange nat goexp "wstmt list"
  | WDefNonZero nat nonzero
  | WIfAny "nat list" "wstmt list"

subsection \<open>Generating\<close>

definition writeNeedsConversion :: "gtype \<Rightarrow> gtype \<Rightarrow> bool" where
  "writeNeedsConversion typ argType \<longleftrightarrow> \<not> AssignableTo typ argType"

text \<open>
  The check whether a value is not zero.  \<open>None\<close> is the panic for a type it does not know,
  which no field of a struct operation has.
\<close>

definition nonZeroCheck :: "goexp \<Rightarrow> gtype \<Rightarrow> nonzero option" where
  "nonZeroCheck v vtyp = (case resolveUnderlying vtyp of
       GBasic b \<Rightarrow> (let k = basic_no b in
         if k = basic_no BBool then Some (IsTrue v)
         else if basic_no BUint \<le> k \<and> k \<le> basic_no BComplex128 then Some (NotZeroInt v)
         else if k = basic_no BString then Some (NotEmptyString v)
         else None)
     | GArray n t \<Rightarrow> Some (NotZeroOf v vtyp)
     | GStruct fs \<Rightarrow> Some (NotZeroOf v vtyp)
     | GInterface e \<Rightarrow> Some (NotNil v)
     | GPointer t \<Rightarrow> Some (NotNil v)
     | GSignature \<Rightarrow> Some (NotNil v)
     | GSlice t \<Rightarrow> Some (LenPositive v)
     | GMap k u \<Rightarrow> Some (LenPositive v)
     | _ \<Rightarrow> None)"

fun nonzero_imports :: "nonzero \<Rightarrow> genContext \<Rightarrow> genContext" where
  "nonzero_imports (NotZeroOf v t) ctx = qualify_imports t ctx"
| "nonzero_imports z ctx = ctx"

text \<open>The first loop of \<open>writeOptionalFields\<close>.\<close>

fun zeroChecks :: "structField list \<Rightarrow> goexp \<Rightarrow> genContext \<Rightarrow> (nat list \<times> wstmt list \<times> genContext) option" where
  "zeroChecks [] v ctx = Some ([], [], ctx)"
| "zeroChecks (f # fs) v ctx =
    (let (z, ctx1) = new_temp ctx in
     case nonZeroCheck (Sel v (sf_name f) (sf_index f)) (sf_typ f) of None \<Rightarrow> None
     | Some nz \<Rightarrow>
         (case zeroChecks fs v (nonzero_imports nz ctx1) of None \<Rightarrow> None
          | Some (zs, code, ctx2) \<Rightarrow> Some (z # zs, WDefNonZero z nz # code, ctx2)))"

definition is_plain :: "op \<Rightarrow> bool" where
  "is_plain eop \<longleftrightarrow> (case eop of StructOp n t fs os \<Rightarrow> True | ByteArrayOp t n \<Rightarrow> True | _ \<Rightarrow> False)"

text \<open>The templates of the operations without parts, and the ones around the code of the parts.\<close>

definition basicOp_genWrite :: "gtype \<Rightarrow> string \<Rightarrow> gtype \<Rightarrow> goexp \<Rightarrow> wstmt list" where
  "basicOp_genWrite typ wm wt v = [WCall wm (if writeNeedsConversion typ wt then Conv wt v else v)]"

definition byteArrayOp_genWrite :: "goexp \<Rightarrow> wstmt list" where
  "byteArrayOp_genWrite v = [WCall ''WriteBytes'' (SliceAll v)]"

definition bigIntOp_genWrite :: "bool \<Rightarrow> goexp \<Rightarrow> wstmt list" where
  "bigIntOp_genWrite pointer v =
    (let code = [WNegCheck v, WCall ''WriteBigInt'' (if pointer then v else AddrOf v)]
     in if pointer then [WIfNil v [WEmptyString] code] else code)"

definition encoderDecoderOp_genWrite :: "goexp \<Rightarrow> wstmt list" where
  "encoderDecoderOp_genWrite v = [WEncodeRLP v]"

definition ptrOp_template :: "kind \<Rightarrow> goexp \<Rightarrow> wstmt list \<Rightarrow> wstmt list" where
  "ptrOp_template nilValue v code = [WIfNil v [WNilKind nilValue] code]"

definition sliceOp_template :: "nat \<Rightarrow> nat \<Rightarrow> goexp \<Rightarrow> wstmt list \<Rightarrow> wstmt list" where
  "sliceOp_template m x v code = [WList m [WRange x v code]]"

declare basicOp_genWrite_def [simp] byteArrayOp_genWrite_def [simp] bigIntOp_genWrite_def [simp]
  encoderDecoderOp_genWrite_def [simp] ptrOp_template_def [simp] sliceOp_template_def [simp]

text \<open>\<open>None\<close> is the panic of \<open>nonZeroCheck\<close>.\<close>

fun genWrite :: "op \<Rightarrow> goexp \<Rightarrow> genContext \<Rightarrow> (wstmt list \<times> genContext) option"
  and genFields :: "structField list \<Rightarrow> goexp \<Rightarrow> genContext \<Rightarrow> (wstmt list \<times> genContext) option"
  and genOptional :: "structField list \<Rightarrow> nat list \<Rightarrow> goexp \<Rightarrow> genContext \<Rightarrow> (wstmt list \<times> genContext) option" where
  "genWrite (BasicOp typ wm wt dm dt bits) v ctx =
    Some (basicOp_genWrite typ wm wt v, ctx)"
| "genWrite (ByteArrayOp typ name) v ctx = Some (byteArrayOp_genWrite v, ctx)"
| "genWrite (BigIntOp pointer) v ctx = Some (bigIntOp_genWrite pointer v, ctx)"
| "genWrite (EncoderDecoderOp typ) v ctx = Some (encoderDecoderOp_genWrite v, ctx)"
| "genWrite (PtrOp elemTyp elem nilOK nilValue) v ctx =
    (let vv = (if is_plain elem then v else Deref v) in
     case genWrite elem vv ctx of None \<Rightarrow> None
     | Some (code, ctx1) \<Rightarrow> Some (ptrOp_template nilValue v code, ctx1))"
| "genWrite (StructOp named typ flds opts) v ctx =
    (let (m, ctx1) = new_temp ctx in
     case genFields flds v ctx1 of None \<Rightarrow> None
     | Some (code, ctx2) \<Rightarrow>
         (case zeroChecks opts v ctx2 of None \<Rightarrow> None
          | Some (zs, defs, ctx3) \<Rightarrow>
              (case genOptional opts zs v ctx3 of None \<Rightarrow> None
               | Some (ocode, ctx4) \<Rightarrow> Some ([WList m (code @ defs @ ocode)], ctx4))))"
| "genWrite (SliceOp typ elemOp) v ctx =
    (let (m, ctx1) = new_temp ctx; (x, ctx2) = new_temp ctx1 in
     case genWrite elemOp (Tmp x) ctx2 of None \<Rightarrow> None
     | Some (code, ctx3) \<Rightarrow> Some (sliceOp_template m x v code, ctx3))"
| "genFields [] v ctx = Some ([], ctx)"
| "genFields (StructField name i t elem # fs) v ctx =
    (case genWrite elem (Sel v name i) ctx of None \<Rightarrow> None
     | Some (c, ctx1) \<Rightarrow> (case genFields fs v ctx1 of None \<Rightarrow> None
       | Some (cs, ctx2) \<Rightarrow> Some (c @ cs, ctx2)))"
| "genOptional (StructField name i t elem # fs) (z # zs) v ctx =
    (case genWrite elem (Sel v name i) ctx of None \<Rightarrow> None
     | Some (c, ctx1) \<Rightarrow> (case genOptional fs zs v ctx1 of None \<Rightarrow> None
       | Some (cs, ctx2) \<Rightarrow> Some (WIfAny (z # zs) c # cs, ctx2)))"
| "genOptional fs zs v ctx = Some ([], ctx)"

end
