(* ===== verification/Gen_Run.thy ===== *)
theory Gen_Run
  imports Gen_Write Rlp_Handles Rlp_Reference
begin

section \<open>Running a generated encoder\<close>

text \<open>
  What the statements of a generated \<open>EncodeRLP\<close> method do, on the values of \<open>Rlp_Types\<close> and the
  operations of the encoder buffer.  \<open>obj\<close> is the receiver, a pointer.  A variable that a statement
  defines is visible in the statements after it in the same block, and in their blocks.

  A nil dereference is \<open>EncPanic\<close>.  An expression that is not of the type it is used at is \<open>NotOfType\<close>;
  a Go compiler refuses such code.  Conversions between types with the same underlying type, and
  from smaller to larger unsigned integers, keep the value.  The \<open>EncodeRLP\<close> methods of other
  types are not part of the model.
\<close>

type_synonym genv = "nat \<Rightarrow> govalue option"

subsection \<open>Expressions\<close>

fun select_field :: "nat \<Rightarrow> govalue \<Rightarrow> enc_error + govalue" where
  "select_field i (VStruct vs) = (if i < length vs then Inr (vs ! i) else Inl NotOfType)"
| "select_field i (VPtr (Some (VStruct vs))) = (if i < length vs then Inr (vs ! i) else Inl NotOfType)"
| "select_field i (VPtr None) = Inl EncPanic"
| "select_field i v = Inl NotOfType"

fun deref :: "govalue \<Rightarrow> enc_error + govalue" where
  "deref (VPtr (Some v)) = Inr v"
| "deref (VPtr None) = Inl EncPanic"
| "deref (VBigPtr (Some i)) = Inr (VBigInt i)"
| "deref (VBigPtr None) = Inl EncPanic"
| "deref v = Inl NotOfType"

fun addr_of :: "govalue \<Rightarrow> govalue" where
  "addr_of (VBigInt i) = VBigPtr (Some i)"
| "addr_of v = VPtr (Some v)"

text \<open>\<open>v[:]\<close> on an array, or on a pointer to one.\<close>

fun slice_all :: "govalue \<Rightarrow> enc_error + govalue" where
  "slice_all (VByteArray b) = Inr (VBytes (Some b))"
| "slice_all (VPtr (Some (VByteArray b))) = Inr (VBytes (Some b))"
| "slice_all (VPtr None) = Inl EncPanic"
| "slice_all v = Inl NotOfType"

definition bindE :: "'e + 'a \<Rightarrow> ('a \<Rightarrow> 'e + 'b) \<Rightarrow> 'e + 'b" where
  "bindE r f = (case r of Inl e \<Rightarrow> Inl e | Inr x \<Rightarrow> f x)"

lemma bindE_simps [simp]: "bindE (Inl e) f = Inl e" "bindE (Inr x) f = f x"
  by (simp_all add: bindE_def)

fun eval_exp :: "govalue \<Rightarrow> genv \<Rightarrow> goexp \<Rightarrow> enc_error + govalue" where
  "eval_exp obj env Obj = Inr obj"
| "eval_exp obj env (Tmp n) = (case env n of None \<Rightarrow> Inl NotOfType | Some v \<Rightarrow> Inr v)"
| "eval_exp obj env (Sel e f i) = bindE (eval_exp obj env e) (select_field i)"
| "eval_exp obj env (Deref e) = bindE (eval_exp obj env e) deref"
| "eval_exp obj env (AddrOf e) = bindE (eval_exp obj env e) (\<lambda>v. Inr (addr_of v))"
| "eval_exp obj env (Conv t e) = eval_exp obj env e"
| "eval_exp obj env (SliceAll e) = bindE (eval_exp obj env e) slice_all"

definition nil_check :: "govalue \<Rightarrow> enc_error + bool" where
  "nil_check v = (case v of VPtr p \<Rightarrow> Inr (p = None) | VBigPtr p \<Rightarrow> Inr (p = None)
     | VInterface i \<Rightarrow> Inr (i = None) | _ \<Rightarrow> Inl NotOfType)"

fun eval_nonzero :: "buildContext \<Rightarrow> govalue \<Rightarrow> genv \<Rightarrow> nonzero \<Rightarrow> enc_error + bool" where
  "eval_nonzero bctx obj env (IsTrue e) =
    bindE (eval_exp obj env e) (\<lambda>v. case v of VBool b \<Rightarrow> Inr b | _ \<Rightarrow> Inl NotOfType)"
| "eval_nonzero bctx obj env (NotZeroInt e) =
    bindE (eval_exp obj env e) (\<lambda>v. case v of VUint i \<Rightarrow> Inr (i \<noteq> 0) | _ \<Rightarrow> Inl NotOfType)"
| "eval_nonzero bctx obj env (NotEmptyString e) =
    bindE (eval_exp obj env e) (\<lambda>v. case v of VString s \<Rightarrow> Inr (s \<noteq> []) | _ \<Rightarrow> Inl NotOfType)"
| "eval_nonzero bctx obj env (NotZeroOf e t) =
    bindE (eval_exp obj env e) (\<lambda>v. Inr (v \<noteq> zero_value (typeToStructType bctx t)))"
| "eval_nonzero bctx obj env (NotNil e) =
    bindE (eval_exp obj env e) (\<lambda>v. bindE (nil_check v) (\<lambda>b. Inr (\<not> b)))"
| "eval_nonzero bctx obj env (LenPositive e) =
    bindE (eval_exp obj env e) (\<lambda>v. case v of VBytes b \<Rightarrow> Inr (opt_bytes b \<noteq> [])
      | VSlice None \<Rightarrow> Inr False | VSlice (Some vs) \<Rightarrow> Inr (vs \<noteq> []) | _ \<Rightarrow> Inl NotOfType)"

subsection \<open>Statements\<close>

text \<open>A call of a method of the buffer, by name.\<close>

definition call_method :: "string \<Rightarrow> govalue \<Rightarrow> encbuf \<Rightarrow> enc_error + encbuf" where
  "call_method m v w = (case v of
     VBool b \<Rightarrow> if m = ''WriteBool'' then Inr (writeBool b w) else Inl NotOfType
   | VUint i \<Rightarrow> if m = ''WriteUint64'' then Inr (writeUint64 i w) else Inl NotOfType
   | VString s \<Rightarrow> if m = ''WriteString'' then Inr (writeBytes s w) else Inl NotOfType
   | VBytes b \<Rightarrow> if m = ''WriteBytes'' then Inr (writeBytes (opt_bytes b) w)
       else if m = ''Write'' then Inr (buf_Write (opt_bytes b) w) else Inl NotOfType
   | VBigPtr (Some i) \<Rightarrow> if m = ''WriteBigInt'' then Inr (writeBigInt (nat \<bar>i\<bar>) w) else Inl NotOfType
   | _ \<Rightarrow> Inl NotOfType)"

definition neg_check :: "govalue \<Rightarrow> enc_error + unit" where
  "neg_check v = (case v of VBigInt i \<Rightarrow> if i < 0 then Inl ErrNegativeBigInt else Inr ()
     | VBigPtr (Some i) \<Rightarrow> if i < 0 then Inl ErrNegativeBigInt else Inr ()
     | VBigPtr None \<Rightarrow> Inl EncPanic
     | _ \<Rightarrow> Inl NotOfType)"

definition range_elems :: "govalue \<Rightarrow> enc_error + govalue list" where
  "range_elems v = (case v of VSlice None \<Rightarrow> Inr [] | VSlice (Some vs) \<Rightarrow> Inr vs | _ \<Rightarrow> Inl NotOfType)"

fun exec1 :: "buildContext \<Rightarrow> govalue \<Rightarrow> wstmt \<Rightarrow> genv \<Rightarrow> encbuf \<Rightarrow> enc_error + encbuf"
  and exec :: "buildContext \<Rightarrow> govalue \<Rightarrow> wstmt list \<Rightarrow> genv \<Rightarrow> encbuf \<Rightarrow> enc_error + encbuf" where
  "exec1 bctx obj (WCall m e) env w = bindE (eval_exp obj env e) (\<lambda>v. call_method m v w)"
| "exec1 bctx obj (WNilKind k) env w = Inr (buf_Write [if k = List then 0xC0 else 0x80] w)"
| "exec1 bctx obj WEmptyString env w = Inr (buf_Write [0x80] w)"
| "exec1 bctx obj (WNegCheck e) env w = bindE (eval_exp obj env e) (\<lambda>v. bindE (neg_check v) (\<lambda>_. Inr w))"
| "exec1 bctx obj (WEncodeRLP e) env w = Inl NotOfType"
| "exec1 bctx obj (WIfNil e a b) env w = bindE (eval_exp obj env e) (\<lambda>v. bindE (nil_check v)
     (\<lambda>n. if n then exec bctx obj a env w else exec bctx obj b env w))"
| "exec1 bctx obj (WList m body) env w = (let (w1, i) = buf_list w in
     case exec bctx obj body env w1 of Inl e \<Rightarrow> Inl e | Inr w2 \<Rightarrow> Inr (listEnd i w2))"
| "exec1 bctx obj (WRange x e body) env w = bindE (eval_exp obj env e) (\<lambda>v. bindE (range_elems v)
     (\<lambda>vs. foldE (\<lambda>w u. exec bctx obj body (env(x \<mapsto> u)) w) w vs))"
| "exec1 bctx obj (WDefNonZero z nz) env w = Inr w"
| "exec1 bctx obj (WIfAny zs body) env w =
    (if \<exists>z \<in> set zs. env z = Some (VBool True) then exec bctx obj body env w else Inr w)"
| "exec bctx obj [] env w = Inr w"
| "exec bctx obj (s # ss) env w = (case s of
     WDefNonZero z nz \<Rightarrow> bindE (eval_nonzero bctx obj env nz) (\<lambda>b. exec bctx obj ss (env(z \<mapsto> VBool b)) w)
   | _ \<Rightarrow> bindE (exec1 bctx obj s env w) (exec bctx obj ss env))"

text \<open>
  The method: a handle for the writer, the statements on its buffer, and \<open>Flush\<close>.  When the statements
  return an error the handle is dropped without a flush.  \<open>None\<close> is a panic of a handle
  operation.
\<close>

definition run_EncodeRLP :: "buildContext \<Rightarrow> ('s, 'e) io_write \<Rightarrow> nat \<Rightarrow> io_dst \<Rightarrow> govalue \<Rightarrow> wstmt list \<Rightarrow>
    's enc_world \<Rightarrow> (enc_error + ('e option \<times> 's enc_world)) option" where
  "run_EncodeRLP bctx wr pick dst obj code w =
    Option.bind (NewEncoderBuffer pick (Some dst) w) (\<lambda>(h, w1).
    Option.bind (eb_buf h) (\<lambda>a.
      case exec bctx obj code Map.empty (ew_bufs w1 ! a) of
        Inl e \<Rightarrow> Some (Inl e)
      | Inr buf \<Rightarrow> map_option (\<lambda>(err, h', w2). Inr (err, w2)) (eb_Flush wr h (upd_buf a (\<lambda>_. buf) w1))))"

end
