(* ===== verification/Gen_Correct.thy ===== *)
theory Gen_Correct
  imports Gen_Run
begin

section \<open>A generated encoder computes the encoding\<close>

text \<open>
  For a type without methods of its own, the code that \<open>genWrite\<close> generates for an expression computes
  \<open>enc_value\<close> of the value of the expression, the encoding that the encoder by reflection computes.
  The one difference between the two is excluded: an optional field of a slice type that is empty but not
  nil.
\<close>

subsection \<open>Temporary variables\<close>

fun below :: "nat \<Rightarrow> goexp \<Rightarrow> bool" where
  "below n Obj \<longleftrightarrow> True"
| "below n (Tmp k) \<longleftrightarrow> k < n"
| "below n (Sel e f i) \<longleftrightarrow> below n e"
| "below n (Deref e) \<longleftrightarrow> below n e"
| "below n (AddrOf e) \<longleftrightarrow> below n e"
| "below n (Conv t e) \<longleftrightarrow> below n e"
| "below n (SliceAll e) \<longleftrightarrow> below n e"

lemma below_mono: "below n e \<Longrightarrow> n \<le> m \<Longrightarrow> below m e"
  by (induction e) auto

lemma eval_below: "below n e \<Longrightarrow> (\<And>k. k < n \<Longrightarrow> env k = env' k) \<Longrightarrow> eval_exp obj env e = eval_exp obj env' e"
  by (induction e) auto

lemma tempCounter_simps [simp]:
  "tempCounter (addImport p ctx) = tempCounter ctx" "tempCounter (qualify_imports t ctx) = tempCounter ctx"
  "tempCounter (nonzero_imports nz ctx) = tempCounter ctx" "tempCounter (resetTemp ctx) = 0"
proof -
  show i: "tempCounter (addImport p ctx) = tempCounter ctx" for p ctx by (simp add: addImport_def)
  have "tempCounter (foldl (\<lambda>c p. addImport p c) ctx ps) = tempCounter ctx" for ps
    by (induction ps arbitrary: ctx) (auto simp: i)
  then show q: "tempCounter (qualify_imports t ctx) = tempCounter ctx" for t by (simp add: qualify_imports_def)
  show "tempCounter (nonzero_imports nz ctx) = tempCounter ctx" by (cases nz) (auto simp: q)
qed (simp_all add: resetTemp_def)

subsection \<open>Statements\<close>

definition is_def :: "wstmt \<Rightarrow> bool" where
  "is_def s \<longleftrightarrow> (case s of WDefNonZero z nz \<Rightarrow> True | _ \<Rightarrow> False)"

lemma exec_Cons: "\<not> is_def s \<Longrightarrow> exec bctx obj (s # ss) env w = bindE (exec1 bctx obj s env w) (exec bctx obj ss env)"
  by (cases s) (auto simp: is_def_def)

lemma exec_append: "list_all (\<lambda>s. \<not> is_def s) a \<Longrightarrow>
    exec bctx obj (a @ b) env w = bindE (exec bctx obj a env w) (exec bctx obj b env)"
proof (induction a arbitrary: w)
  case (Cons s a)
  then show ?case by (cases "exec1 bctx obj s env w") (auto simp: exec_Cons simp del: exec.simps(2))
qed simp

lemma exec_single: "\<not> is_def s \<Longrightarrow> exec bctx obj [s] env = exec1 bctx obj s env"
  by (rule ext) (auto simp: exec_Cons bindE_def simp del: exec.simps(2) split: sum.splits)

lemma exec1_WCall: "eval_exp obj env e = Inr v \<Longrightarrow> exec1 bctx obj (WCall m e) env = call_method m v"
  by (simp add: fun_eq_iff)

lemma genWrite_no_def: "genWrite eop v ctx = Some (code, ctx') \<Longrightarrow> list_all (\<lambda>s. \<not> is_def s) code"
  by (cases eop) (auto simp: is_def_def Let_def new_temp_def split: option.splits prod.splits if_splits)

lemma zeroChecks_mono: "zeroChecks fs v ctx = Some (zs, code, ctx') \<Longrightarrow> tempCounter ctx \<le> tempCounter ctx'"
proof (induction fs v ctx arbitrary: zs code rule: zeroChecks.induct)
  case (2 f fs v ctx)
  then show ?case by (fastforce simp: new_temp_def Let_def split: option.splits prod.splits)
qed simp

lemma genWrite_mono:
  shows "genWrite eop v ctx = Some (code, ctx') \<Longrightarrow> tempCounter ctx \<le> tempCounter ctx'"
    and "genFields fs v ctx = Some (code, ctx') \<Longrightarrow> tempCounter ctx \<le> tempCounter ctx'"
    and "genOptional fs zs v ctx = Some (code, ctx') \<Longrightarrow> tempCounter ctx \<le> tempCounter ctx'"
proof (induction eop v ctx and fs v ctx and fs zs v ctx arbitrary: code ctx' and code ctx' and code ctx' rule: genWrite_genFields_genOptional.induct)
  case (6 named ty flds opts v ctx)
  then show ?case
    by (fastforce simp: new_temp_def Let_def split: option.splits prod.splits dest: zeroChecks_mono)
next
  case (7 ty elemOp v ctx)
  then show ?case by (fastforce simp: new_temp_def Let_def split: option.splits prod.splits)
qed (fastforce simp: Let_def split: option.splits prod.splits if_splits)+

lemma outputs_bind:
  assumes "outputs m r" and "outputs m' (concatE rs)"
  shows "outputs (\<lambda>w. bindE (m w) m') (concatE (r # rs))"
proof -
  have "outputs (\<lambda>w. foldE (\<lambda>w m. m w) w [m, m']) (concatE [r, concatE rs])"
    by (rule outputs_fold) (use assms in simp)
  moreover have "foldE (\<lambda>w m. m w) w [m, m'] = bindE (m w) m'" for w
    by (auto simp: bindE_def split: sum.splits)
  moreover have "concatE [r, concatE rs] = concatE (r # rs)" by (auto split: sum.splits)
  ultimately show ?thesis by (simp only:)
qed

lemma outputs_ext:
  assumes "outputs m r" and "\<And>w. m' w = m w"
  shows "outputs m' r"
proof -
  have "m' = m" using assms(2) by (rule ext)
  then show ?thesis using assms(1) by simp
qed

lemma concatE_single: "concatE [r] = r"
  by (cases r) auto

lemma outputs_nothing: "outputs Inr (Inr [])"
  by (rule outputs_Inr[of _ "\<lambda>w. w"]) auto

subsection \<open>Operations\<close>

text \<open>
  \<open>denotes\<close>: the value an operation is applied to.  The generated code of a struct or byte array operation
  works on a pointer as well.  \<open>writes_op obj op v r\<close>: the code generated for any expression that
  denotes \<open>v\<close> computes \<open>r\<close>.
\<close>

definition denotes :: "govalue \<Rightarrow> genv \<Rightarrow> op \<Rightarrow> goexp \<Rightarrow> govalue \<Rightarrow> bool" where
  "denotes obj env eop e v \<longleftrightarrow> eval_exp obj env e = Inr v \<or> is_plain eop \<and> eval_exp obj env e = Inr (VPtr (Some v))"

definition writes_op :: "buildContext \<Rightarrow> govalue \<Rightarrow> op \<Rightarrow> govalue \<Rightarrow> enc_error + bytes \<Rightarrow> bool" where
  "writes_op bctx obj eop v r \<longleftrightarrow> (\<forall>env e ctx code ctx'. denotes obj env eop e v \<longrightarrow> below (tempCounter ctx) e \<longrightarrow>
     genWrite eop e ctx = Some (code, ctx') \<longrightarrow> outputs (exec bctx obj code env) r)"

lemma writes_opI:
  "(\<And>env e ctx code ctx'. denotes obj env eop e v \<Longrightarrow> below (tempCounter ctx) e \<Longrightarrow>
    genWrite eop e ctx = Some (code, ctx') \<Longrightarrow> outputs (exec bctx obj code env) r) \<Longrightarrow> writes_op bctx obj eop v r"
  unfolding writes_op_def by blast

lemma writes_opD:
  "writes_op bctx obj eop v r \<Longrightarrow> denotes obj env eop e v \<Longrightarrow> below (tempCounter ctx) e \<Longrightarrow>
    genWrite eop e ctx = Some (code, ctx') \<Longrightarrow> outputs (exec bctx obj code env) r"
  unfolding writes_op_def by blast

lemma call_method_outputs:
  "outputs (\<lambda>w. call_method ''WriteBool'' (VBool b) w) (Inr (rlp_str (if b then [1] else [])))"
  "outputs (\<lambda>w. call_method ''WriteUint64'' (VUint i) w) (Inr (rlp_str (be_bytes (unat i))))"
  "outputs (\<lambda>w. call_method ''WriteString'' (VString s) w) (Inr (rlp_str s))"
  "outputs (\<lambda>w. call_method ''WriteBytes'' (VBytes bo) w) (Inr (rlp_str (opt_bytes bo)))"
  "outputs (\<lambda>w. call_method ''Write'' (VBytes bo) w) (Inr (opt_bytes bo))"
proof -
  show "outputs (\<lambda>w. call_method ''WriteBool'' (VBool b) w) (Inr (rlp_str (if b then [1] else [])))"
    by (rule outputs_Inr[OF _ emits_writeBool]) (simp add: call_method_def)
  show "outputs (\<lambda>w. call_method ''WriteUint64'' (VUint i) w) (Inr (rlp_str (be_bytes (unat i))))"
    by (rule outputs_Inr[OF _ emits_writeUint64]) (simp add: call_method_def)
  show "outputs (\<lambda>w. call_method ''WriteString'' (VString s) w) (Inr (rlp_str s))"
    by (rule outputs_rlp_str[OF _ emits_writeBytes]) (simp_all add: call_method_def)
  show "outputs (\<lambda>w. call_method ''WriteBytes'' (VBytes bo) w) (Inr (rlp_str (opt_bytes bo)))"
    by (rule outputs_rlp_str[OF _ emits_writeBytes]) (simp_all add: call_method_def)
  show "outputs (\<lambda>w. call_method ''Write'' (VBytes bo) w) (Inr (opt_bytes bo))"
    by (rule outputs_Inr[OF _ emits_Write]) (simp add: call_method_def)
qed

lemma writes_BasicOp:
  assumes "outputs (call_method wm v) r"
  shows "writes_op bctx obj (BasicOp typ wm wt dm dt bits) v r"
proof (rule writes_opI)
  fix env e code and ctx ctx' :: genContext
  assume "denotes obj env (BasicOp typ wm wt dm dt bits) e v" "genWrite (BasicOp typ wm wt dm dt bits) e ctx = Some (code, ctx')"
  moreover from this obtain e' where "code = [WCall wm e']" "eval_exp obj env e' = Inr v"
    by (auto simp: denotes_def is_plain_def)
  ultimately show "outputs (exec bctx obj code env) r" using assms by (simp add: exec_single is_def_def exec1_WCall)
qed

lemma writes_ByteArrayOp: "writes_op bctx obj (ByteArrayOp typ name) (VByteArray b) (Inr (rlp_str b))"
proof (rule writes_opI)
  fix env e code and ctx ctx' :: genContext
  assume "denotes obj env (ByteArrayOp typ name) e (VByteArray b)" "genWrite (ByteArrayOp typ name) e ctx = Some (code, ctx')"
  then have "eval_exp obj env (SliceAll e) = Inr (VBytes (Some b))" "code = [WCall ''WriteBytes'' (SliceAll e)]"
    by (auto simp: denotes_def)
  then show "outputs (exec bctx obj code env) (Inr (rlp_str b))"
    using call_method_outputs(4)[of "Some b"] by (simp add: exec_single is_def_def exec1_WCall opt_bytes_def del: eval_exp.simps)
qed

lemma exec_big:
  assumes "eval_exp obj env e = Inr v" and "eval_exp obj env e' = Inr (VBigPtr (Some i))"
    and "v = VBigInt i \<or> v = VBigPtr (Some i)"
  shows "outputs (exec bctx obj [WNegCheck e, WCall ''WriteBigInt'' e'] env) (enc_big i)"
proof -
  have "exec bctx obj [WNegCheck e, WCall ''WriteBigInt'' e'] env w =
      (if i < 0 then Inl ErrNegativeBigInt else Inr (writeBigInt (nat i) w))" for w
    using assms by (auto simp: neg_check_def call_method_def)
  then show ?thesis
    using outputs_rlp_str[OF _ emits_writeBigInt, of _ "nat i"] by (auto simp: enc_big_def intro: outputs_Inl)
qed

lemma exec_WIfNil:
  assumes "eval_exp obj env e = Inr v" and "nil_check v = Inr n"
  shows "exec bctx obj [WIfNil e a b] env = (if n then exec bctx obj a env else exec bctx obj b env)"
  using assms by (simp add: exec_single is_def_def) (simp add: fun_eq_iff del: exec.simps)

lemma exec_nil_kind: "outputs (exec bctx obj [WNilKind k] env) (Inr [if k = List then 0xC0 else 0x80])"
  by (auto simp: exec_single is_def_def buf_Write_def intro: outputs_str)

lemma writes_BigIntOp:
  "writes_op bctx obj (BigIntOp False) (VBigInt i) (enc_big i)"
  "writes_op bctx obj (BigIntOp True) (VBigPtr p) (case p of None \<Rightarrow> Inr (rlp_str []) | Some i \<Rightarrow> enc_big i)"
proof -
  have e: "outputs (exec bctx obj [WNegCheck e, WCall ''WriteBigInt'' (AddrOf e)] env) (enc_big i)"
    if "eval_exp obj env e = Inr (VBigInt i)" for e env
    by (rule exec_big[OF that]) (simp_all add: that)
  show "writes_op bctx obj (BigIntOp False) (VBigInt i) (enc_big i)"
    by (rule writes_opI) (use e in \<open>auto simp: denotes_def is_plain_def Let_def simp del: exec.simps\<close>)
  show "writes_op bctx obj (BigIntOp True) (VBigPtr p) (case p of None \<Rightarrow> Inr (rlp_str []) | Some i \<Rightarrow> enc_big i)"
  proof (rule writes_opI)
    fix env e code and ctx ctx' :: genContext
    let ?b = "[WNegCheck e, WCall ''WriteBigInt'' e]"
    assume d: "denotes obj env (BigIntOp True) e (VBigPtr p)" and "genWrite (BigIntOp True) e ctx = Some (code, ctx')"
    then have v: "eval_exp obj env e = Inr (VBigPtr p)" and c: "code = [WIfNil e [WEmptyString] ?b]"
      by (auto simp: denotes_def is_plain_def)
    note x = exec_WIfNil[OF v, of "p = None"]
    show "outputs (exec bctx obj code env) (case p of None \<Rightarrow> Inr (rlp_str []) | Some i \<Rightarrow> enc_big i)"
    proof (cases p)
      case None
      then show ?thesis unfolding c
        by (simp add: x nil_check_def del: exec.simps)
          (auto simp: exec_single is_def_def rlp_simps buf_Write_def intro!: outputs_str)
    next
      case (Some i)
      have "outputs (exec bctx obj ?b env) (enc_big i)" by (rule exec_big[OF v]) (simp_all add: v Some)
      then show ?thesis unfolding c using Some by (simp add: x nil_check_def del: exec.simps)
    qed
  qed
qed

lemma writes_PtrOp:
  assumes "\<And>u. p = Some u \<Longrightarrow> writes_op bctx obj elem u r"
    and "p = None \<Longrightarrow> r = Inr [if nilValue = List then 0xC0 else 0x80]"
  shows "writes_op bctx obj (PtrOp elemTyp elem nilOK nilValue) (VPtr p) r"
proof (rule writes_opI)
  fix env e code and ctx ctx' :: genContext
  assume d: "denotes obj env (PtrOp elemTyp elem nilOK nilValue) e (VPtr p)" and b: "below (tempCounter ctx) e"
    and g: "genWrite (PtrOp elemTyp elem nilOK nilValue) e ctx = Some (code, ctx')"
  then have v: "eval_exp obj env e = Inr (VPtr p)" by (simp add: denotes_def is_plain_def)
  let ?vv = "if is_plain elem then e else Deref e"
  obtain ecode where g: "genWrite elem ?vv ctx = Some (ecode, ctx')" "code = [WIfNil e [WNilKind nilValue] ecode]"
    using g by (auto simp: Let_def split: option.splits)
  note x = exec_WIfNil[OF v, of "p = None"]
  show "outputs (exec bctx obj code env) r"
  proof (cases p)
    case None
    then show ?thesis using assms(2) exec_nil_kind unfolding g(2) by (simp add: x nil_check_def del: exec.simps)
  next
    case (Some u)
    have "denotes obj env elem ?vv u" using v Some by (auto simp: denotes_def)
    moreover have "below (tempCounter ctx) ?vv" using b by simp
    ultimately have "outputs (exec bctx obj ecode env) r" using writes_opD[OF assms(1)[OF Some]] g(1) by blast
    then show ?thesis unfolding g(2) using Some by (simp add: x nil_check_def del: exec.simps)
  qed
qed

subsection \<open>Lists\<close>

lemma exec_WList: "outputs (exec bctx obj body env) r \<Longrightarrow> outputs (exec bctx obj [WList m body] env) (listE r)"
  by (rule outputs_ext[OF outputs_list]) (simp_all add: exec_single is_def_def)

lemma writes_SliceOp:
  assumes "range_elems v = Inr us" and "\<And>u. u \<in> set us \<Longrightarrow> writes_op bctx obj elemOp u (r u)"
  shows "writes_op bctx obj (SliceOp ty elemOp) v (listE (concatE (map r us)))"
proof (rule writes_opI)
  fix env e code and ctx ctx' :: genContext
  assume d: "denotes obj env (SliceOp ty elemOp) e v" and g: "genWrite (SliceOp ty elemOp) e ctx = Some (code, ctx')"
  then have v: "eval_exp obj env e = Inr v" by (simp add: denotes_def is_plain_def)
  let ?m = "tempCounter ctx" and ?x = "Suc (tempCounter ctx)"
  obtain body where body: "genWrite elemOp (Tmp ?x) (ctx\<lparr>tempCounter := Suc ?x\<rparr>) = Some (body, ctx')"
    and code: "code = [WList ?m [WRange ?x e body]]"
    using g by (auto simp: new_temp_def Let_def split: option.splits)
  have "outputs (exec bctx obj body (env(?x \<mapsto> u))) (r u)" if "u \<in> set us" for u
    by (rule writes_opD[OF assms(2)[OF that] _ _ body]) (simp_all add: denotes_def)
  then have "list_all2 (\<lambda>u b. outputs (exec bctx obj body (env(?x \<mapsto> u))) b) us (map r us)"
    by (simp add: list_all2_map2 list.rel_refl_strong)
  from outputs_ext[OF outputs_fold[OF this]]
  have "outputs (exec bctx obj [WRange ?x e body] env) (concatE (map r us))"
    using v assms(1) by (simp add: exec_single is_def_def)
  then show "outputs (exec bctx obj code env) (listE (concatE (map r us)))" unfolding code by (rule exec_WList)
qed

subsection \<open>Structs\<close>

text \<open>The expression stands for a struct, or for a pointer to it.\<close>

definition stands_for :: "govalue \<Rightarrow> genv \<Rightarrow> goexp \<Rightarrow> govalue list \<Rightarrow> bool" where
  "stands_for obj env e vs \<longleftrightarrow> eval_exp obj env e = Inr (VStruct vs) \<or> eval_exp obj env e = Inr (VPtr (Some (VStruct vs)))"

lemma select_stands_for:
  "stands_for obj env e vs \<Longrightarrow> i < length vs \<Longrightarrow> eval_exp obj env (Sel e n i) = Inr (vs ! i)"
  by (auto simp: stands_for_def)

lemma stands_for_below:
  "stands_for obj env e vs \<Longrightarrow> below n e \<Longrightarrow> (\<And>k. k < n \<Longrightarrow> env' k = env k) \<Longrightarrow> stands_for obj env' e vs"
  using eval_below[of n e env' env obj] by (simp add: stands_for_def)

text \<open>A field operation, for the field with the index and the tags \<open>p\<close> of a struct with the values \<open>vs\<close>.\<close>

definition writes_field :: "buildContext \<Rightarrow> govalue \<Rightarrow> govalue list \<Rightarrow> (nat \<times> Tags \<Rightarrow> enc_error + bytes) \<Rightarrow>
    nat \<times> Tags \<Rightarrow> structField \<Rightarrow> bool" where
  "writes_field bctx obj vs r p f \<longleftrightarrow> sf_index f = fst p \<and> fst p < length vs \<and>
     writes_op bctx obj (sf_elem f) (vs ! fst p) (r p)"

lemma writes_fieldD:
  assumes "writes_field bctx obj vs r p (StructField name i ty elem)" and "stands_for obj env e vs"
    and "below (tempCounter ctx) e" and "genWrite elem (Sel e name i) ctx = Some (code, ctx')"
  shows "outputs (exec bctx obj code env) (r p)"
proof -
  have "denotes obj env elem (Sel e name i) (vs ! fst p)"
    using assms(1) select_stands_for[OF assms(2)] unfolding writes_field_def denotes_def by auto
  moreover have "below (tempCounter ctx) (Sel e name i)" using assms(3) by simp
  ultimately show ?thesis using assms(1,4) writes_opD unfolding writes_field_def by fastforce
qed

lemma concatE_append: "concatE (a @ b) = concatE [concatE a, concatE b]"
  by (induction a) (auto split: sum.splits)

lemma genFields_outputs:
  "list_all2 (writes_field bctx obj vs r) ps fs \<Longrightarrow> stands_for obj env e vs \<Longrightarrow> below (tempCounter ctx) e \<Longrightarrow>
    genFields fs e ctx = Some (code, ctx') \<Longrightarrow>
    outputs (exec bctx obj code env) (concatE (map r ps)) \<and> list_all (\<lambda>s. \<not> is_def s) code"
proof (induction ps fs arbitrary: ctx code rule: list_all2_induct)
  case Nil
  then show ?case using outputs_nothing by (simp add: fun_eq_iff outputs_def)
next
  case (Cons p ps f fs)
  obtain name i ty elem where f: "f = StructField name i ty elem" by (cases f)
  with Cons.prems obtain c ctx1 cs where c: "genWrite elem (Sel e name i) ctx = Some (c, ctx1)"
    "genFields fs e ctx1 = Some (cs, ctx')" "code = c @ cs" by (auto split: option.splits)
  have nd: "list_all (\<lambda>s. \<not> is_def s) c" using genWrite_no_def[OF c(1)] .
  have "below (tempCounter ctx1) e" using Cons.prems(2) genWrite_mono(1)[OF c(1)] below_mono by blast
  from Cons.IH[OF Cons.prems(1) this c(2)] have IH: "outputs (exec bctx obj cs env) (concatE (map r ps))"
    "list_all (\<lambda>s. \<not> is_def s) cs" by auto
  have "outputs (exec bctx obj c env) (r p)"
    using writes_fieldD[OF _ Cons.prems(1,2) c(1)] Cons.hyps(1) f by simp
  from outputs_ext[OF outputs_bind[OF this IH(1)] exec_append[OF nd]]
  have "outputs (exec bctx obj (c @ cs) env) (concatE (map r (p # ps)))" by (simp del: concatE.simps)
  then show ?case using nd IH(2) c(3) by simp
qed

text \<open>The optional fields: the variables \<open>zs\<close> say which of them are not zero.\<close>

lemma rstrip_Cons: "rev (dropWhile P (rev (x # xs))) = (if \<forall>y \<in> set (x # xs). P y then [] else x # rev (dropWhile P (rev xs)))"
proof (cases "\<forall>y \<in> set xs. P y")
  case True
  then show ?thesis by (auto simp: dropWhile_append)
next
  case False
  then show ?thesis by (auto simp: dropWhile_append)
qed

lemma any_nonzero:
  "list_all2 (\<lambda>p z. env z = Some (VBool (\<not> Z p))) ps zs \<Longrightarrow>
    (\<exists>z \<in> set zs. env z = Some (VBool True)) \<longleftrightarrow> \<not> (\<forall>q \<in> set ps. Z q)"
  by (induction rule: list_all2_induct) auto

lemma genOptional_outputs:
  "list_all2 (writes_field bctx obj vs r) ps fs \<Longrightarrow> length zs = length ps \<Longrightarrow>
    list_all2 (\<lambda>p z. env z = Some (VBool (\<not> IsZero (vs ! fst p)))) ps zs \<Longrightarrow>
    stands_for obj env e vs \<Longrightarrow> below (tempCounter ctx) e \<Longrightarrow> genOptional fs zs e ctx = Some (code, ctx') \<Longrightarrow>
    outputs (exec bctx obj code env) (concatE (map r (rev (dropWhile (\<lambda>p. IsZero (vs ! fst p)) (rev ps)))))"
proof (induction ps fs arbitrary: ctx zs code rule: list_all2_induct)
  case Nil
  then show ?case using outputs_nothing by (simp add: fun_eq_iff outputs_def)
next
  case (Cons p ps f fs)
  obtain z zs' where zs: "zs = z # zs'" using Cons.prems(1) by (cases zs) auto
  obtain name i ty elem where f: "f = StructField name i ty elem" by (cases f)
  with Cons.prems zs obtain c ctx1 cs where c: "genWrite elem (Sel e name i) ctx = Some (c, ctx1)"
    "genOptional fs zs' e ctx1 = Some (cs, ctx')" "code = WIfAny zs c # cs" by (auto split: option.splits)
  have "below (tempCounter ctx1) e" using Cons.prems(4) genWrite_mono(1)[OF c(1)] below_mono by blast
  with Cons.IH[OF _ _ Cons.prems(3) _ c(2)] Cons.prems(1,2) zs
  have IH: "outputs (exec bctx obj cs env) (concatE (map r (rev (dropWhile (\<lambda>p. IsZero (vs ! fst p)) (rev ps)))))"
    by simp
  have out: "outputs (exec bctx obj c env) (r p)"
    using writes_fieldD[OF _ Cons.prems(3,4) c(1)] Cons.hyps(1) f by simp
  note any = any_nonzero[OF Cons.prems(2)]
  have ex: "exec bctx obj code env = (\<lambda>w. bindE (exec1 bctx obj (WIfAny zs c) env w) (exec bctx obj cs env))"
    unfolding c(3) by (rule ext) (simp add: exec_Cons is_def_def del: exec1.simps exec.simps)
  show ?case
  proof (cases "\<forall>q \<in> set (p # ps). IsZero (vs ! fst q)")
    case True
    then have "exec bctx obj code env = exec bctx obj cs env" using any by (simp add: ex fun_eq_iff)
    moreover have strip: "rev (dropWhile (\<lambda>p. IsZero (vs ! fst p)) (rev qs)) = []" if "\<forall>q \<in> set qs. IsZero (vs ! fst q)" for qs
      using that by simp
    moreover have ps: "\<forall>q \<in> set ps. IsZero (vs ! fst q)" using True by simp
    from IH have "outputs (exec bctx obj cs env) (Inr [])" unfolding strip[OF ps] by simp
    ultimately show ?thesis unfolding strip[OF True] by simp
  next
    case False
    then have "exec bctx obj code env w = bindE (exec bctx obj c env w) (exec bctx obj cs env)" for w
      using any by (simp add: ex)
    from outputs_ext[OF outputs_bind[OF out IH] this] show ?thesis
      unfolding rstrip_Cons[of _ p ps] if_not_P[OF False] list.map .
  qed
qed

text \<open>The definitions of these variables.\<close>

lemma zeroChecks_env:
  "list_all2 (\<lambda>p f. sf_index f = fst p \<and> fst p < length vs \<and> (\<forall>e. \<exists>nz. nonZeroCheck e (sf_typ f) = Some nz \<and>
      (\<forall>env. eval_exp obj env e = Inr (vs ! fst p) \<longrightarrow> eval_nonzero bctx obj env nz = Inr (\<not> IsZero (vs ! fst p))))) ps fs \<Longrightarrow>
    stands_for obj env e vs \<Longrightarrow> below (tempCounter ctx) e \<Longrightarrow> zeroChecks fs e ctx = Some (zs, defs, ctx') \<Longrightarrow>
    \<exists>env'. (\<forall>rest w. exec bctx obj (defs @ rest) env w = exec bctx obj rest env' w) \<and>
      (\<forall>k < tempCounter ctx. env' k = env k) \<and>
      list_all2 (\<lambda>p z. env' z = Some (VBool (\<not> IsZero (vs ! fst p)))) ps zs"
proof (induction ps fs arbitrary: ctx env zs defs rule: list_all2_induct)
  case (Cons p ps f fs)
  let ?z = "tempCounter ctx" and ?b = "\<not> IsZero (vs ! fst p)"
  let ?s = "Sel e (sf_name f) (sf_index f)"
  obtain nz where nz: "nonZeroCheck ?s (sf_typ f) = Some nz"
    "\<And>env. eval_exp obj env ?s = Inr (vs ! fst p) \<Longrightarrow> eval_nonzero bctx obj env nz = Inr ?b"
    using Cons.hyps(1) by blast
  let ?ctx2 = "nonzero_imports nz (ctx\<lparr>tempCounter := Suc ?z\<rparr>)"
  obtain zs' defs' where d: "zeroChecks fs e ?ctx2 = Some (zs', defs', ctx')"
    "zs = ?z # zs'" "defs = WDefNonZero ?z nz # defs'"
    using Cons.prems(3) nz(1) by (auto simp: new_temp_def Let_def split: option.splits)
  let ?env = "env(?z \<mapsto> VBool ?b)"
  have "stands_for obj ?env e vs" "below (tempCounter ?ctx2) e"
    using stands_for_below[OF Cons.prems(1,2), of ?env] below_mono[OF Cons.prems(2)] by auto
  note IH = Cons.IH[OF this d(1)]
  have tc: "tempCounter ?ctx2 = Suc ?z" by simp
  from IH obtain env' where env': "\<And>rest w. exec bctx obj (defs' @ rest) ?env w = exec bctx obj rest env' w"
    "\<And>k. k < Suc ?z \<Longrightarrow> env' k = ?env k" "list_all2 (\<lambda>p z. env' z = Some (VBool (\<not> IsZero (vs ! fst p)))) ps zs'"
    unfolding tc by blast
  have "eval_nonzero bctx obj env nz = Inr ?b"
    using nz(2) select_stands_for[OF Cons.prems(1)] Cons.hyps(1) by simp
  then have "exec bctx obj (defs @ rest) env w = exec bctx obj rest env' w" for rest w
    using env'(1) d(3) by simp
  then show ?case using env'(2,3) d(2) by (intro exI[of _ env']) auto
qed auto

lemma writes_StructOp:
  assumes flds: "list_all2 (writes_field bctx obj vs r) ps1 flds" and opts: "list_all2 (writes_field bctx obj vs r) ps2 opts"
    and nz: "list_all2 (\<lambda>p f. \<forall>e. \<exists>nz. nonZeroCheck e (sf_typ f) = Some nz \<and>
      (\<forall>env. eval_exp obj env e = Inr (vs ! fst p) \<longrightarrow> eval_nonzero bctx obj env nz = Inr (\<not> IsZero (vs ! fst p)))) ps2 opts"
  shows "writes_op bctx obj (StructOp named ty flds opts) (VStruct vs)
    (listE (concatE (map r (ps1 @ rev (dropWhile (\<lambda>p. IsZero (vs ! fst p)) (rev ps2))))))"
proof (rule writes_opI)
  fix env e code and ctx ctx' :: genContext
  assume d: "denotes obj env (StructOp named ty flds opts) e (VStruct vs)" and b: "below (tempCounter ctx) e"
    and g: "genWrite (StructOp named ty flds opts) e ctx = Some (code, ctx')"
  have st: "stands_for obj env e vs" using d by (simp add: denotes_def stands_for_def is_plain_def)
  define ctx1 where "ctx1 = ctx\<lparr>tempCounter := Suc (tempCounter ctx)\<rparr>"
  then have t1: "tempCounter ctx1 = Suc (tempCounter ctx)" by simp
  obtain c ctx2 zs defs ctx3 oc where g: "genFields flds e ctx1 = Some (c, ctx2)"
    "zeroChecks opts e ctx2 = Some (zs, defs, ctx3)" "genOptional opts zs e ctx3 = Some (oc, ctx')"
    "code = [WList (tempCounter ctx) (c @ defs @ oc)]"
    using g by (auto simp: new_temp_def Let_def ctx1_def split: option.splits prod.splits)
  have b1: "below (tempCounter ctx1) e" using below_mono[OF b] t1 by simp
  have b2: "below (tempCounter ctx2) e" using below_mono[OF b1 genWrite_mono(2)[OF g(1)]] .
  have b3: "below (tempCounter ctx3) e" using below_mono[OF b2 zeroChecks_mono[OF g(2)]] .
  have F: "outputs (exec bctx obj c env) (concatE (map r ps1))" "list_all (\<lambda>s. \<not> is_def s) c"
    using genFields_outputs[OF flds st b1 g(1)] by auto
  have "list_all2 (\<lambda>p f. sf_index f = fst p \<and> fst p < length vs \<and> (\<forall>e. \<exists>nz. nonZeroCheck e (sf_typ f) = Some nz \<and>
      (\<forall>env. eval_exp obj env e = Inr (vs ! fst p) \<longrightarrow> eval_nonzero bctx obj env nz = Inr (\<not> IsZero (vs ! fst p))))) ps2 opts"
    using opts nz unfolding list_all2_conv_all_nth writes_field_def by blast
  from zeroChecks_env[OF this st b2 g(2)] obtain env' where
    env': "\<And>rest w. exec bctx obj (defs @ rest) env w = exec bctx obj rest env' w"
      "\<And>k. k < tempCounter ctx2 \<Longrightarrow> env' k = env k"
      "list_all2 (\<lambda>p z. env' z = Some (VBool (\<not> IsZero (vs ! fst p)))) ps2 zs" by blast
  have "outputs (exec bctx obj oc env') (concatE (map r (rev (dropWhile (\<lambda>p. IsZero (vs ! fst p)) (rev ps2)))))"
    by (rule genOptional_outputs[OF opts _ env'(3) stands_for_below[OF st b2 env'(2)] b3 g(3)])
      (use env'(3) in \<open>simp_all add: list_all2_lengthD\<close>)
  from outputs_ext[OF this env'(1)]
  have "outputs (exec bctx obj (defs @ oc) env) (concatE (map r (rev (dropWhile (\<lambda>p. IsZero (vs ! fst p)) (rev ps2)))))" .
  then have "outputs (exec bctx obj (defs @ oc) env)
      (concatE [concatE (map r (rev (dropWhile (\<lambda>p. IsZero (vs ! fst p)) (rev ps2))))])" unfolding concatE_single .
  from outputs_ext[OF outputs_bind[OF F(1) this] exec_append[OF F(2)]]
  have "outputs (exec bctx obj (c @ defs @ oc) env)
      (concatE (map r (ps1 @ rev (dropWhile (\<lambda>p. IsZero (vs ! fst p)) (rev ps2)))))"
    unfolding map_append concatE_append[of "map r ps1"] .
  then show "outputs (exec bctx obj code env) (listE (concatE (map r (ps1 @ rev (dropWhile (\<lambda>p. IsZero (vs ! fst p)) (rev ps2))))))"
    unfolding g(4) by (rule exec_WList)
qed

end
