(* ===== verification/Gen_Types_Correct.thy ===== *)
theory Gen_Types_Correct
  imports Gen_Correct
begin

section \<open>Every generated encoder is correct\<close>

text \<open>
  The operations that \<open>makeOp\<close> makes, by induction on the type.  \<open>plain_context\<close>: no type has methods
  \<open>EncodeRLP\<close> or \<open>DecodeRLP\<close>.  \<open>gen_ok\<close>: \<open>big.Int\<close> is a struct, and no optional field is a slice.
\<close>

definition RawValue_type :: gtype where
  "RawValue_type = GNamed pathOfPackageRLP ''rlp'' ''RawValue'' (GSlice (GBasic BByte))"

definition plain_context :: "buildContext \<Rightarrow> bool" where
  "plain_context bctx \<longleftrightarrow> (\<forall>t. \<not> isEncoder bctx t) \<and> (\<forall>t. \<not> isDecoder bctx t) \<and> rawValueType bctx = RawValue_type"

definition structType :: "buildContext \<Rightarrow> gfield list \<Rightarrow> gofield list" where
  "structType bctx fs = map (\<lambda>f. Field (gf_name f) (gf_exported f) (typeToStructType bctx (gf_type f)) (gf_tag f)) fs"

fun gen_ok :: "buildContext \<Rightarrow> gtype \<Rightarrow> bool" where
  "gen_ok bctx (GNamed p q n t) \<longleftrightarrow>
    (if isBigInt (GNamed p q n t) then (case t of GStruct fs \<Rightarrow> True | _ \<Rightarrow> False) else gen_ok bctx t)"
| "gen_ok bctx (GPointer t) \<longleftrightarrow> gen_ok bctx t"
| "gen_ok bctx (GSlice t) \<longleftrightarrow> gen_ok bctx t"
| "gen_ok bctx (GArray n t) \<longleftrightarrow> gen_ok bctx t"
| "gen_ok bctx (GStruct fs) \<longleftrightarrow> (\<forall>f \<in> set fs. gen_ok bctx (gf_type f)) \<and>
     (case ProcessFields (structType bctx fs) of Inl e \<Rightarrow> True
      | Inr ps \<Rightarrow> \<forall>p \<in> set ps. Optional (snd p) \<longrightarrow> \<not> isSlice (f_type (structType bctx fs ! fst p)))"
| "gen_ok bctx t \<longleftrightarrow> True"

subsection \<open>Types\<close>

lemma plain_contextD:
  assumes "plain_context bctx"
  shows "\<not> isEncoder bctx t" "\<not> isDecoder bctx t" "rawValueType bctx = RawValue_type"
  using assms by (auto simp: plain_context_def)

lemma gen_isByte_iff: "plain_context bctx \<Longrightarrow> gen_ok bctx t \<Longrightarrow> isByte (typeToStructType bctx t) = gen_isByte t"
proof (induction bctx t rule: typeToStructType.induct)
  case (1 bctx p q n t)
  show ?case
  proof (cases "isBigInt (GNamed p q n t)")
    case True
    then show ?thesis using 1(3) by (auto simp: isByte_def gen_isByte_def split: gtype.splits)
  next
    case False
    then have "typeToStructType bctx (GNamed p q n t) = TRawValue \<or>
        typeToStructType bctx (GNamed p q n t) = typeToStructType bctx t" by auto
    then show ?thesis
      using 1 False by (auto simp: isByte_def gen_isByte_def RawValue_type_def plain_contextD(3))
  qed
next
  case (2 bctx b)
  then show ?case by (cases b) (auto simp: isByte_def gen_isByte_def basic_bits_def plain_contextD(1))
qed (auto simp: isByte_def gen_isByte_def)

lemma has_type_iffs:
  shows "has_type TBool v \<longleftrightarrow> (\<exists>b. v = VBool b)"
  and "has_type (TUint n) v \<longleftrightarrow> (\<exists>i. v = VUint i \<and> unat i < 2 ^ n)"
  and "has_type TString v \<longleftrightarrow> (\<exists>s. v = VString s)"
  and "has_type TBigInt v \<longleftrightarrow> (\<exists>i. v = VBigInt i)"
  and "has_type TBigPtr v \<longleftrightarrow> (\<exists>p. v = VBigPtr p)"
  and "has_type TRawValue v \<longleftrightarrow> (\<exists>b. v = VBytes b)"
  and "has_type (TPtr t) v \<longleftrightarrow> (\<exists>p. v = VPtr p \<and> (\<forall>u. p = Some u \<longrightarrow> has_type t u))"
  and "isByte e \<Longrightarrow> has_type (TSlice e) v \<longleftrightarrow> (\<exists>b. v = VBytes b)"
  and "\<not> isByte e \<Longrightarrow> has_type (TSlice e) v \<longleftrightarrow> (\<exists>vo. v = VSlice vo \<and> (\<forall>vs. vo = Some vs \<longrightarrow> (\<forall>u \<in> set vs. has_type e u)))"
  and "isByte e \<Longrightarrow> has_type (TArray n e) v \<longleftrightarrow> (\<exists>b. v = VByteArray b \<and> length b = n)"
  and "has_type (TStruct fs) v \<longleftrightarrow> (\<exists>vs. v = VStruct vs \<and> length vs = length fs \<and>
     (\<forall>i < length vs. has_type (f_type (fs ! i)) (vs ! i)))"
  by (cases "(TBool, v)" rule: has_type.cases; auto)+

lemma all_replicate: "(\<forall>x \<in> set xs. x = a) \<longleftrightarrow> xs = replicate (length xs) a"
  by (metis in_set_replicate replicate_eqI)

lemma IsZero_iff: "has_type t v \<Longrightarrow> IsZero v \<longleftrightarrow> v = zero_value t"
proof (induction t v rule: has_type.induct)
  case (7 t b)
  then show ?case by (auto simp: all_replicate split: gotype.splits)
next
  case (10 t vs)
  then obtain n e where t: "t = TArray n e" "\<not> isByte e" "length vs = n" by (auto split: gotype.splits)
  have "\<And>v. v \<in> set vs \<Longrightarrow> IsZero v \<longleftrightarrow> v = zero_value e" using 10 t by auto
  then have "IsZero (VArray vs) \<longleftrightarrow> (\<forall>v \<in> set vs. v = zero_value e)" by simp
  then show ?case using t all_replicate[of vs] by simp
next
  case (13 t vs)
  then obtain fs where t: "t = TStruct fs" "length vs = length fs" by (auto split: gotype.splits)
  have "\<And>i. i < length vs \<Longrightarrow> IsZero (vs ! i) \<longleftrightarrow> vs ! i = zero_value (f_type (fs ! i))" using 13 t by auto
  then have "IsZero (VStruct vs) \<longleftrightarrow> (\<forall>i < length fs. vs ! i = zero_value (f_type (fs ! i)))"
    using t(2) by (simp add: all_set_conv_all_nth)
  then show ?case using t by (simp add: list_eq_iff_nth_eq)
qed (auto split: gotype.splits)

text \<open>The zero check of a field that is not a slice.\<close>

lemma basic_view:
  assumes "plain_context bctx" and "makeBasicOp ty b = Inr eop"
  shows "b = BBool \<and> eop = BasicOp ty ''WriteBool'' (GBasic BBool) ''Bool'' (GBasic BBool) False \<and> typeToStructType bctx (GBasic b) = TBool \<or>
    basic_no BUint8 \<le> basic_no b \<and> basic_no b \<le> basic_no BUint64 \<and> eop = BasicOp ty ''WriteUint64'' (GBasic BUint64) ''Uint'' ty True \<and>
      typeToStructType bctx (GBasic b) = TUint (basic_bits b) \<or>
    b = BString \<and> eop = BasicOp ty ''WriteString'' (GBasic BString) ''String'' (GBasic BString) False \<and> typeToStructType bctx (GBasic b) = TString"
  using assms by (cases b) (auto simp: makeBasicOp_def plain_contextD(1))

lemma named_type:
  assumes "plain_context bctx" and "\<not> isBigInt (GNamed p q n t)"
  shows "GNamed p q n t \<noteq> RawValue_type \<Longrightarrow> makeOp bctx name (GNamed p q n t) tags = makeOp bctx (Some (GNamed p q n t)) t tags"
    and "GNamed p q n t \<noteq> RawValue_type \<Longrightarrow> typeToStructType bctx (GNamed p q n t) = typeToStructType bctx t"
    and "gen_ok bctx (GNamed p q n t) = gen_ok bctx t"
  using plain_contextD[OF assms(1)] assms(2) by (auto simp: Let_def simp del: isBigInt.simps)

lemma raw_value_type:
  assumes "plain_context bctx"
  shows "makeOp bctx name RawValue_type tags = Inr (makeRawValueOp bctx)" and "typeToStructType bctx RawValue_type = TRawValue"
    and "\<not> isBigInt RawValue_type"
  using plain_contextD(3)[OF assms] by (auto simp: RawValue_type_def)

lemma resolve_view:
  "plain_context bctx \<Longrightarrow> makeOp bctx name t tags = Inr eop \<Longrightarrow> gen_ok bctx t \<Longrightarrow> (case resolveUnderlying t of
      GBasic b \<Rightarrow> typeToStructType bctx t = typeToStructType bctx (GBasic b) \<and> makeBasicOp (GBasic b) b = Inr eop
    | GPointer u \<Rightarrow> typeToStructType bctx t = typeToStructType bctx (GPointer u)
    | GSlice u \<Rightarrow> isSlice (typeToStructType bctx t)
    | GStruct fs \<Rightarrow> True | GArray n u \<Rightarrow> True | _ \<Rightarrow> False)"
proof (induction bctx name t tags rule: makeOp.induct)
  case (1 bctx name p q n t tags)
  consider "isBigInt (GNamed p q n t)" | "GNamed p q n t = RawValue_type"
    | "\<not> isBigInt (GNamed p q n t)" "GNamed p q n t \<noteq> RawValue_type" by blast
  then show ?case
  proof cases
    case 1
    then show ?thesis using "1.prems"(3) by (auto split: gtype.splits)
  next
    case 2
    then show ?thesis by (auto simp: RawValue_type_def plain_contextD(3)[OF "1.prems"(1)])
  next
    case 3
    note named = named_type[OF "1.prems"(1) 3(1)]
    from "1.IH"[OF refl 3(1) _ _ "1.prems"(1)] "1.prems"(2,3) show ?thesis
      using 3(2) plain_contextD[OF "1.prems"(1)] unfolding named(1,2)[OF 3(2)] named(3) resolveUnderlying.simps by simp
  qed
qed (auto split: if_splits)

lemma nonZeroCheck_ok:
  assumes "plain_context bctx" "makeOp bctx name t tags = Inr eop" "gen_ok bctx t" "has_type (typeToStructType bctx t) v"
    "\<not> isSlice (typeToStructType bctx t)"
  shows "\<exists>nz. nonZeroCheck e t = Some nz \<and>
    (\<forall>env. eval_exp obj env e = Inr v \<longrightarrow> eval_nonzero bctx obj env nz = Inr (\<not> IsZero v))"
proof -
  note z = IsZero_iff[OF assms(4)]
  from resolve_view[OF assms(1,2,3)] assms(5) consider
      b where "resolveUnderlying t = GBasic b" "typeToStructType bctx t = typeToStructType bctx (GBasic b)" "makeBasicOp (GBasic b) b = Inr eop"
    | u where "resolveUnderlying t = GPointer u" "typeToStructType bctx t = typeToStructType bctx (GPointer u)"
    | "nonZeroCheck e t = Some (NotZeroOf e t)"
    by (auto simp: nonZeroCheck_def split: gtype.splits)
  then show ?thesis
  proof cases
    case (1 b)
    from basic_view[OF assms(1) 1(3)] consider "b = BBool" "typeToStructType bctx t = TBool"
      | "basic_no BUint8 \<le> basic_no b" "basic_no b \<le> basic_no BUint64" "typeToStructType bctx t = TUint (basic_bits b)"
      | "b = BString" "typeToStructType bctx t = TString"
      using 1(2) by auto
    then show ?thesis
    proof cases
      case 1
      then show ?thesis using assms(4) \<open>resolveUnderlying t = GBasic b\<close>
        by (auto simp: nonZeroCheck_def has_type_iffs)
    next
      case 2
      then show ?thesis using assms(4) \<open>resolveUnderlying t = GBasic b\<close>
        by (auto simp: nonZeroCheck_def has_type_iffs)
    next
      case 3
      then show ?thesis using assms(4) \<open>resolveUnderlying t = GBasic b\<close>
        by (auto simp: nonZeroCheck_def has_type_iffs)
    qed
  next
    case (2 u)
    then show ?thesis using assms(4) by (auto simp: nonZeroCheck_def nil_check_def has_type_iffs split: if_splits)
  next
    case 3
    then show ?thesis using z by simp
  qed
qed

subsection \<open>Structs\<close>

text \<open>The operation of a field, and how the fields are split.\<close>

definition field_op :: "gfield list \<Rightarrow> (Tags \<Rightarrow> gen_error + op) list \<Rightarrow> nat \<times> Tags \<Rightarrow> structField \<Rightarrow> bool" where
  "field_op fs ops p f \<longleftrightarrow> sf_index f = fst p \<and> sf_typ f = gf_type (fs ! fst p) \<and> (ops ! fst p) (snd p) = Inr (sf_elem f)"

lemma split_fields:
  assumes "makeStructOp bctx named fs ops = Inr eop"
  obtains ps flds opts where "ProcessFields (structType bctx fs) = Inr ps" and "eop = StructOp named (GStruct fs) flds opts"
    and "\<forall>p \<in> set ps. \<not> Tail (snd p)"
    and "list_all2 (field_op fs ops) (filter (\<lambda>p. \<not> Optional (snd p)) ps) flds"
    and "list_all2 (field_op fs ops) (filter (\<lambda>p. Optional (snd p)) ps) opts"
proof -
  let ?step = "\<lambda>(flds, opts) (i, tag). let name = gf_name (fs ! i) in
            case checkUnsupportedTags name tag of Inl e \<Rightarrow> Inl e
            | Inr _ \<Rightarrow> (case (ops ! i) tag of Inl e \<Rightarrow> Inl (GenField name e)
              | Inr elem \<Rightarrow> (let f = StructField name i (gf_type (fs ! i)) elem in
                  Inr (if Optional tag then (flds, opts @ [f]) else (flds @ [f], opts))))"
  have step: "foldE ?step (fl, op) ps = Inr (flds, opts) \<Longrightarrow> (\<forall>p \<in> set ps. \<not> Tail (snd p)) \<and>
    (\<exists>fl' op'. flds = fl @ fl' \<and> opts = op @ op' \<and>
      list_all2 (field_op fs ops) (filter (\<lambda>p. \<not> Optional (snd p)) ps) fl' \<and>
      list_all2 (field_op fs ops) (filter (\<lambda>p. Optional (snd p)) ps) op')" for fl op flds opts ps
  proof (induction ps arbitrary: fl op)
    case (Cons p ps)
    obtain i tag where p: "p = (i, tag)" by (cases p)
    obtain elem where e: "\<not> Tail tag" "(ops ! i) tag = Inr elem"
      using Cons.prems by (auto simp: p checkUnsupportedTags_def Let_def split: sum.splits if_splits)
    let ?f = "StructField (gf_name (fs ! i)) i (gf_type (fs ! i)) elem"
    have f: "field_op fs ops p ?f" using e(2) by (simp add: p field_op_def)
    have "foldE ?step (if Optional tag then (fl, op @ [?f]) else (fl @ [?f], op)) ps = Inr (flds, opts)"
      using Cons.prems e by (simp add: p checkUnsupportedTags_def Let_def split: if_splits)
    then show ?case using Cons.IH e(1) f by (cases "Optional tag") (fastforce simp: p)+
  qed simp
  from assms obtain ps flds opts where ps: "ProcessFields (structType bctx fs) = Inr ps"
    "foldE ?step ([], []) ps = Inr (flds, opts)" "eop = StructOp named (GStruct fs) flds opts"
    by (auto simp: makeStructOp_def structType_def split: sum.splits)
  from step[OF ps(2)] ps(1,3) show thesis by (auto intro: that)
qed

text \<open>Without a tail, the written fields are the mandatory ones and the optional ones up to the last that is not zero.\<close>

lemma written_fields_split:
  assumes "ProcessFields fs = Inr ps" and "\<forall>p \<in> set ps. \<not> Tail (snd p)"
  shows "written_fields ps vs = filter (\<lambda>p. \<not> Optional (snd p)) ps @
    rev (dropWhile (\<lambda>p. IsZero (vs ! fst p)) (rev (filter (\<lambda>p. Optional (snd p)) ps)))"
proof -
  have "sorted_wrt (\<lambda>p q. may_stop p \<longrightarrow> may_stop q) ps" using ProcessFields_optional[OF assms(1)] .
  then have "sorted_wrt (\<lambda>p q. Optional (snd p) \<longrightarrow> Optional (snd q)) ps"
    by (rule sorted_wrt_mono_rel[rotated]) (use assms(2) in \<open>auto simp: may_stop_def\<close>)
  then have "takeWhile (\<lambda>p. \<not> Optional (snd p)) ps = filter (\<lambda>p. \<not> Optional (snd p)) ps \<and>
      dropWhile (\<lambda>p. \<not> Optional (snd p)) ps = filter (\<lambda>p. Optional (snd p)) ps"
    by (induction ps) (auto simp: filter_empty_conv filter_id_conv)
  then show ?thesis by (simp add: written_fields_def)
qed

subsection \<open>All types\<close>

theorem makeOp_writes:
  "plain_context bctx \<Longrightarrow> makeOp bctx name t tags = Inr eop \<Longrightarrow> gen_ok bctx t \<Longrightarrow> tags_ok tags \<and> \<not> Tail tags \<Longrightarrow>
    has_type (typeToStructType bctx t) v \<Longrightarrow> writes_op bctx obj eop v (enc_value (typeToStructType bctx t) tags v)"
proof (induction bctx name t tags arbitrary: eop v rule: makeOp.induct)
  case (1 bctx name p q n t tags)
  consider "isBigInt (GNamed p q n t)" | "GNamed p q n t = RawValue_type"
    | "\<not> isBigInt (GNamed p q n t)" "GNamed p q n t \<noteq> RawValue_type" by blast
  then show ?case
  proof cases
    case 1
    then show ?thesis using "1.prems"(2,5) writes_BigIntOp(1) by (auto simp: has_type_iffs)
  next
    case 2
    note raw = raw_value_type[OF "1.prems"(1)]
    obtain b where v: "v = VBytes b" using "1.prems"(5) unfolding 2 raw by (auto simp: has_type_iffs)
    show ?thesis
      using "1.prems"(2) writes_BasicOp[OF call_method_outputs(5)[of b]] unfolding 2 raw v
      by (auto simp: makeRawValueOp_def)
  next
    case 3
    note named = named_type[OF "1.prems"(1) 3(1)]
    from "1.IH"[OF refl 3(1) _ _ "1.prems"(1)] "1.prems"(2-5) show ?thesis
      using 3(2) plain_contextD[OF "1.prems"(1)] unfolding named(1,2)[OF 3(2)] named(3) by simp
  qed
next
  case (2 bctx name t tags)
  show ?case
  proof (cases "isBigInt t")
    case True
    then show ?thesis using "2.prems"(2,5) writes_BigIntOp(2) by (auto simp: has_type_iffs)
  next
    case False
    then obtain elem where e: "makeOp bctx None t no_tags = Inr elem"
      "eop = PtrOp t elem (NilOK tags) (typeNilKind (typeToStructType bctx t) tags)"
      using "2.prems"(2) plain_contextD[OF "2.prems"(1)]
      by (auto simp: makePtrOp_def Let_def typeNilKind_def split: sum.splits if_splits)
    obtain p where v: "v = VPtr p" "\<And>u. p = Some u \<Longrightarrow> has_type (typeToStructType bctx t) u"
      using "2.prems"(5) False by (auto simp: has_type_iffs)
    have "writes_op bctx obj elem u (enc_value (typeToStructType bctx t) no_tags u)" if "p = Some u" for u
      using "2.IH"[OF refl False _ _ "2.prems"(1) e(1)] plain_contextD[OF "2.prems"(1)] "2.prems"(3) v(2)[OF that]
      by (simp add: no_tags_def tags_ok_def)
    moreover have "typeNilKind (typeToStructType bctx t) tags \<noteq> Byte" using typeNilKind_not_Byte "2.prems"(4) by blast
    then have "typeNilKind (typeToStructType bctx t) tags = List \<or> typeNilKind (typeToStructType bctx t) tags = String"
      using kind.exhaust by blast
    ultimately show ?thesis unfolding e(2) v(1) using False
      by (cases p) (auto intro!: writes_PtrOp simp: rlp_simps rlp_list_def rlp_head_def)
  qed
next
  case (3 bctx name b tags)
  from basic_view[OF "3.prems"(1), of "GBasic b" b eop] "3.prems"(2,5) show ?case
    using writes_BasicOp[OF call_method_outputs(1)] writes_BasicOp[OF call_method_outputs(2)]
      writes_BasicOp[OF call_method_outputs(3)]
    by (auto simp: has_type_iffs simp del: typeToStructType.simps)
next
  case (4 bctx name fs tags)
  have "makeStructOp bctx name fs (map (\<lambda>f. makeOp bctx None (gf_type f)) fs) = Inr eop" using "4.prems"(2) by simp
  then obtain ps flds opts where f: "ProcessFields (structType bctx fs) = Inr ps" "eop = StructOp name (GStruct fs) flds opts"
    "\<forall>p \<in> set ps. \<not> Tail (snd p)"
    "list_all2 (field_op fs (map (\<lambda>f. makeOp bctx None (gf_type f)) fs)) (filter (\<lambda>p. \<not> Optional (snd p)) ps) flds"
    "list_all2 (field_op fs (map (\<lambda>f. makeOp bctx None (gf_type f)) fs)) (filter (\<lambda>p. Optional (snd p)) ps) opts"
    by (rule split_fields)
  obtain vs where v: "v = VStruct vs" "length vs = length fs"
    "\<And>i. i < length fs \<Longrightarrow> has_type (typeToStructType bctx (gf_type (fs ! i))) (vs ! i)"
    using "4.prems"(5) by (auto simp: has_type_iffs)
  let ?r = "\<lambda>(i, fts). if i < length vs then enc_value (f_type (structType bctx fs ! i)) fts (vs ! i) else Inl NotOfType"
  have field: "writes_field bctx obj vs ?r p g \<and> (Optional (snd p) \<longrightarrow> (\<forall>e. \<exists>nz. nonZeroCheck e (sf_typ g) = Some nz \<and>
      (\<forall>env. eval_exp obj env e = Inr (vs ! fst p) \<longrightarrow> eval_nonzero bctx obj env nz = Inr (\<not> IsZero (vs ! fst p)))))"
    if p: "p \<in> set ps" and g: "field_op fs (map (\<lambda>f. makeOp bctx None (gf_type f)) fs) p g" for p g
  proof -
    have i: "fst p < length fs" using ProcessFields_indices(2)[OF f(1)] p by (auto simp: structType_def)
    let ?t = "gf_type (fs ! fst p)"
    have m: "makeOp bctx None ?t (snd p) = Inr (sf_elem g)" "sf_typ g = ?t" "sf_index g = fst p"
      using g i by (auto simp: field_op_def)
    have ok: "gen_ok bctx ?t" "Optional (snd p) \<Longrightarrow> \<not> isSlice (typeToStructType bctx ?t)"
      using "4.prems"(3) f(1) i p by (auto simp: structType_def)
    have "fs ! fst p \<in> set fs" using i by simp
    from "4.IH"[OF this "4.prems"(1) m(1) ok(1) _ v(3)[OF i]] f(3) p ProcessFields_ok(1)[OF f(1), of "fst p" "snd p"]
    have "writes_op bctx obj (sf_elem g) (vs ! fst p) (?r p)"
      using i v(2) by (simp add: structType_def split_beta)
    then show ?thesis
      using i v(2) m nonZeroCheck_ok[OF "4.prems"(1) m(1) ok(1) v(3)[OF i] ok(2)]
      by (auto simp: writes_field_def)
  qed
  have all: "list_all2 (writes_field bctx obj vs ?r) (filter (\<lambda>p. \<not> Optional (snd p)) ps) flds"
    "list_all2 (writes_field bctx obj vs ?r) (filter (\<lambda>p. Optional (snd p)) ps) opts"
    "list_all2 (\<lambda>p f. \<forall>e. \<exists>nz. nonZeroCheck e (sf_typ f) = Some nz \<and>
      (\<forall>env. eval_exp obj env e = Inr (vs ! fst p) \<longrightarrow> eval_nonzero bctx obj env nz = Inr (\<not> IsZero (vs ! fst p))))
        (filter (\<lambda>p. Optional (snd p)) ps) opts"
    using f(4,5) field by (auto elim!: list.rel_mono_strong)
  have st: "typeToStructType bctx (GStruct fs) = TStruct (structType bctx fs)" by (simp add: structType_def)
  have "enc_value (typeToStructType bctx (GStruct fs)) tags v = listE (concatE (map ?r (written_fields ps vs)))"
    unfolding v(1) st enc_value.simps fields_of.simps f(1) by simp
  then show ?case
    unfolding f(2) v(1) using writes_StructOp[OF all] by (simp only: written_fields_split[OF f(1,3)])
next
  case (5 bctx name t tags)
  have b: "isByte (typeToStructType bctx t) = gen_isByte t" using gen_isByte_iff "5.prems"(1,3) by simp
  show ?case
  proof (cases "gen_isByte t")
    case True
    obtain bo where v: "v = VBytes bo" using "5.prems"(5) True b by (auto simp: has_type_iffs)
    then show ?thesis
      using "5.prems"(2) True plain_contextD[OF "5.prems"(1)] writes_BasicOp[OF call_method_outputs(4)[of bo]]
      by (auto simp: makeByteSliceOp_def)
  next
    case False
    obtain vo where v: "v = VSlice vo" "\<And>vs u. vo = Some vs \<Longrightarrow> u \<in> set vs \<Longrightarrow> has_type (typeToStructType bctx t) u"
      using "5.prems"(5) False b by (auto simp: has_type_iffs)
    obtain elem where e: "makeOp bctx None t no_tags = Inr elem" "eop = SliceOp (GSlice t) elem"
      using "5.prems"(2) False by (cases "makeOp bctx None t no_tags") (auto simp: makeSliceOp_def)
    have IH: "writes_op bctx obj elem u (enc_value (typeToStructType bctx t) no_tags u)" if "vo = Some vs" "u \<in> set vs" for vs u
      using "5.IH"[OF _ "5.prems"(1) e(1)] False "5.prems"(3) v(2)[OF that] by (simp add: no_tags_def tags_ok_def)
    show ?thesis
    proof (cases vo)
      case None
      have "writes_op bctx obj (SliceOp (GSlice t) elem) (VSlice None) (listE (concatE (map (\<lambda>u :: govalue. Inr []) [])))"
        by (rule writes_SliceOp) (simp_all add: range_elems_def)
      then show ?thesis using "5.prems"(4) unfolding e(2) v(1) None by (simp add: listE_def)
    next
      case (Some vs)
      have "writes_op bctx obj (SliceOp (GSlice t) elem) (VSlice (Some vs))
          (listE (concatE (map (enc_value (typeToStructType bctx t) no_tags) vs)))"
        by (rule writes_SliceOp) (simp_all add: range_elems_def IH[OF Some])
      then show ?thesis using "5.prems"(4) unfolding e(2) v(1) Some by simp
    qed
  qed
next
  case (6 bctx name n t tags)
  have b: "isByte (typeToStructType bctx t) = gen_isByte t" using gen_isByte_iff "6.prems"(1,3) by simp
  then have "gen_isByte t" "eop = makeByteArrayOp name (GArray n t)"
    using "6.prems"(2) by (auto split: if_splits)
  then show ?case using "6.prems"(5) b writes_ByteArrayOp by (auto simp: has_type_iffs makeByteArrayOp_def)
qed auto

end
