(* ===== verification/Gen_Decode.thy ===== *)
theory Gen_Decode
  imports Gen_Write
begin

section \<open>Generating decoders, and the generated source (rlp/rlpgen/gen.go, main.go)\<close>

text \<open>
  \<open>genDecode\<close> returns the expression that holds the decoded value and the statements that compute it.
  As for encoders, there is one constructor per template.  The second half of the theory prints
  the statements and puts the file together.
\<close>

subsection \<open>The generated statements\<close>

text \<open>
  \<open>DCall\<close>, \<open>DReadBytes\<close>, \<open>DNew\<close>, \<open>DIfKind\<close>, \<open>DList\<close> and \<open>DListEnd\<close> include the test of the error and its
  return.  \<open>DIfKind k s want body\<close> asks for the kind and the size of the value ahead and runs the body
  unless it is an empty value of the kind \<open>want\<close>.
\<close>

datatype dstmt =
    DCall nat string
  | DConv nat gtype nat
  | DVar nat gtype
  | DReadBytes nat
  | DNew nat gtype
  | DIfKind nat nat kind "dstmt list"
  | DAssign nat goexp
  | DSetField nat string nat goexp
  | DAppend nat goexp
  | DBlock "dstmt list"
  | DList
  | DListEnd
  | DIfMore "dstmt list"
  | DForMore "dstmt list"
  | DComment string

definition decodeNeedsConversion :: "gtype \<Rightarrow> gtype \<Rightarrow> bool" where
  "decodeNeedsConversion resultType typ \<longleftrightarrow> \<not> AssignableTo resultType typ"

fun typ_bits :: "gtype \<Rightarrow> nat" where
  "typ_bits (GBasic b) = basic_bits b"
| "typ_bits t = 0"

fun pointer_elem :: "gtype \<Rightarrow> gtype" where
  "pointer_elem (GPointer t) = t"
| "pointer_elem t = t"

subsection \<open>Generating\<close>

text \<open>The templates of the operations without parts, and the ones around the code of the parts.\<close>

definition basicOp_genDecode :: "gtype \<Rightarrow> string \<Rightarrow> gtype \<Rightarrow> bool \<Rightarrow> genContext \<Rightarrow> goexp \<times> dstmt list \<times> genContext" where
  "basicOp_genDecode typ dm dt useBits ctx =
    (let (r, ctx1) = new_temp ctx;
         method = (if useBits then dm @ digits (typ_bits typ) else dm)
     in if decodeNeedsConversion dt typ then
          (let (conv, ctx2) = new_temp ctx1
           in (Tmp conv, [DCall r method, DConv conv typ r], qualify_imports typ ctx2))
        else (Tmp r, [DCall r method], ctx1))"

definition byteArrayOp_genDecode :: "gtype \<Rightarrow> genContext \<Rightarrow> goexp \<times> dstmt list \<times> genContext" where
  "byteArrayOp_genDecode name ctx =
    (let (r, ctx1) = new_temp ctx in (Tmp r, [DVar r name, DReadBytes r], qualify_imports name ctx1))"

definition bigIntOp_genDecode :: "bool \<Rightarrow> genContext \<Rightarrow> goexp \<times> dstmt list \<times> genContext" where
  "bigIntOp_genDecode pointer ctx =
    (let (r, ctx1) = new_temp ctx in (if pointer then Tmp r else Deref (Tmp r), [DCall r ''BigInt''], ctx1))"

definition encoderDecoderOp_genDecode :: "gtype \<Rightarrow> genContext \<Rightarrow> goexp \<times> dstmt list \<times> genContext" where
  "encoderDecoderOp_genDecode typ ctx =
    (let etyp = pointer_elem typ; (r, ctx1) = new_temp ctx
     in (Tmp r, [DNew r etyp], qualify_imports etyp ctx1))"

definition ptrOp_genDecode :: "gtype \<Rightarrow> bool \<Rightarrow> kind \<Rightarrow> goexp \<times> dstmt list \<times> genContext \<Rightarrow> goexp \<times> dstmt list \<times> genContext" where
  "ptrOp_genDecode elemTyp nilOK nilValue elem =
    (let (result, code, ctx1) = elem in
     if \<not> nilOK then (AddrOf result, code, ctx1)
     else (let (r, ctx2) = new_temp ctx1; (k, ctx3) = new_temp ctx2; (s, ctx4) = new_temp ctx3;
               want = (if nilValue = List then List else String)
           in (Tmp r, [DVar r (GPointer elemTyp), DIfKind k s want (code @ [DAssign r (AddrOf result)])],
               qualify_imports (GPointer elemTyp) ctx4)))"

definition sliceOp_dec_template :: "gtype \<Rightarrow> nat \<Rightarrow> goexp \<Rightarrow> dstmt list \<Rightarrow> dstmt list" where
  "sliceOp_dec_template typ r result code =
    [DVar r typ, DList, DForMore (code @ [DAppend r result]), DListEnd]"

fun genDecode :: "op \<Rightarrow> genContext \<Rightarrow> goexp \<times> dstmt list \<times> genContext"
  and decodeFieldsCode :: "structField list \<Rightarrow> nat \<Rightarrow> genContext \<Rightarrow> dstmt list \<times> genContext"
  and decodeOptionalFields :: "structField list \<Rightarrow> nat \<Rightarrow> genContext \<Rightarrow> dstmt list \<times> genContext" where
  "genDecode (BasicOp typ wm wt dm dt useBits) ctx = basicOp_genDecode typ dm dt useBits ctx"
| "genDecode (ByteArrayOp typ name) ctx = byteArrayOp_genDecode name ctx"
| "genDecode (BigIntOp pointer) ctx = bigIntOp_genDecode pointer ctx"
| "genDecode (EncoderDecoderOp typ) ctx = encoderDecoderOp_genDecode typ ctx"
| "genDecode (PtrOp elemTyp elem nilOK nilValue) ctx = ptrOp_genDecode elemTyp nilOK nilValue (genDecode elem ctx)"
| "genDecode (StructOp named typ flds opts) ctx =
    (let typeName = (case named of Some n \<Rightarrow> n | None \<Rightarrow> typ);
         (r, ctx1) = new_temp (qualify_imports typeName ctx);
         (code, ctx2) = decodeFieldsCode flds r ctx1;
         (ocode, ctx3) = decodeOptionalFields opts r ctx2
     in (Tmp r, [DVar r typeName, DBlock ([DList] @ code @ ocode @ [DListEnd])], ctx3))"
| "genDecode (SliceOp typ elemOp) ctx =
    (let (r, ctx1) = new_temp ctx; (result, code, ctx2) = genDecode elemOp ctx1
     in (Tmp r, sliceOp_dec_template typ r result code, qualify_imports typ ctx2))"
| "decodeFieldsCode [] r ctx = ([], ctx)"
| "decodeFieldsCode (StructField name i t elem # fs) r ctx =
    (let (result, code, ctx1) = genDecode elem ctx; (rest, ctx2) = decodeFieldsCode fs r ctx1
     in ([DComment name] @ code @ [DSetField r name i result] @ rest, ctx2))"
| "decodeOptionalFields [] r ctx = ([], ctx)"
| "decodeOptionalFields (StructField name i t elem # fs) r ctx =
    (let (result, code, ctx1) = genDecode elem ctx; (rest, ctx2) = decodeOptionalFields fs r ctx1
     in ([DComment name, DIfMore (code @ [DSetField r name i result] @ rest)], ctx2))"

subsection \<open>The text\<close>

definition nl :: string where
  "nl = [CHR 0x0A]"

definition dquote :: string where
  "dquote = [CHR 0x22]"

definition tmp_name :: "nat \<Rightarrow> string" where
  "tmp_name n = ''_tmp'' @ digits n"

fun print_exp :: "string \<Rightarrow> goexp \<Rightarrow> string" where
  "print_exp pkg Obj = ''obj''"
| "print_exp pkg (Tmp n) = tmp_name n"
| "print_exp pkg (Sel e f i) = print_exp pkg e @ ''.'' @ f"
| "print_exp pkg (Deref e) = ''(*'' @ print_exp pkg e @ '')''"
| "print_exp pkg (AddrOf e) = ''&'' @ print_exp pkg e"
| "print_exp pkg (Conv t e) = TypeString pkg t @ ''('' @ print_exp pkg e @ '')''"
| "print_exp pkg (SliceAll e) = print_exp pkg e @ ''[:]''"

fun print_nonzero :: "string \<Rightarrow> nonzero \<Rightarrow> string" where
  "print_nonzero pkg (IsTrue v) = print_exp pkg v"
| "print_nonzero pkg (NotZeroInt v) = print_exp pkg v @ '' != 0''"
| "print_nonzero pkg (NotEmptyString v) = print_exp pkg v @ '' != '' @ dquote @ dquote"
| "print_nonzero pkg (NotZeroOf v t) = print_exp pkg v @ '' != ('' @ TypeString pkg t @ ''{})''"
| "print_nonzero pkg (NotNil v) = print_exp pkg v @ '' != nil''"
| "print_nonzero pkg (LenPositive v) = ''len('' @ print_exp pkg v @ '') > 0''"

fun print_nil_kind :: "kind \<Rightarrow> string" where
  "print_nil_kind List = ''C0''"
| "print_nil_kind k = ''80''"

fun print_wstmt :: "string \<Rightarrow> wstmt \<Rightarrow> string" and print_wstmts :: "string \<Rightarrow> wstmt list \<Rightarrow> string" where
  "print_wstmt pkg (WCall m v) = ''w.'' @ m @ ''('' @ print_exp pkg v @ '')'' @ nl"
| "print_wstmt pkg (WNilKind k) = ''  w.Write([]byte{0x'' @ print_nil_kind k @ ''})'' @ nl"
| "print_wstmt pkg WEmptyString = ''  w.Write(rlp.EmptyString)''"
| "print_wstmt pkg (WNegCheck v) = ''if '' @ print_exp pkg v @ ''.Sign() == -1 {'' @ nl @
     ''  return rlp.ErrNegativeBigInt'' @ nl @ ''}'' @ nl"
| "print_wstmt pkg (WEncodeRLP v) = ''if err := '' @ print_exp pkg v @ ''.EncodeRLP(w); err != nil { return err }'' @ nl"
| "print_wstmt pkg (WIfNil v a b) = ''if '' @ print_exp pkg v @ '' == nil {'' @ nl @ print_wstmts pkg a @
     ''} else {'' @ nl @ (case a of [WNilKind k] \<Rightarrow> ''  '' | _ \<Rightarrow> []) @ print_wstmts pkg b @ ''}'' @ nl"
| "print_wstmt pkg (WList m body) = tmp_name m @ '' := w.List()'' @ nl @ print_wstmts pkg body @
     ''w.ListEnd('' @ tmp_name m @ '')'' @ nl"
| "print_wstmt pkg (WRange x v body) = ''for _, '' @ tmp_name x @ '' := range '' @ print_exp pkg v @ '' {'' @ nl @
     print_wstmts pkg body @ ''}'' @ nl"
| "print_wstmt pkg (WDefNonZero z nz) = tmp_name z @ '' := '' @ print_nonzero pkg nz @ nl"
| "print_wstmt pkg (WIfAny zs body) = ''if '' @ sep_by '' || '' (map tmp_name zs) @ '' {'' @ nl @
     print_wstmts pkg body @ ''}'' @ nl"
| "print_wstmts pkg [] = []"
| "print_wstmts pkg (s # ss) = print_wstmt pkg s @ print_wstmts pkg ss"

definition returns_err :: string where
  "returns_err = ''; err != nil { return err }'' @ nl"

fun print_dstmt :: "string \<Rightarrow> dstmt \<Rightarrow> string" and print_dstmts :: "string \<Rightarrow> dstmt list \<Rightarrow> string" where
  "print_dstmt pkg (DCall r m) = tmp_name r @ '', err := dec.'' @ m @ ''()'' @ nl @ ''if err != nil { return err }'' @ nl"
| "print_dstmt pkg (DConv c t r) = tmp_name c @ '' := '' @ TypeString pkg t @ ''('' @ tmp_name r @ '')'' @ nl"
| "print_dstmt pkg (DVar r t) = ''var '' @ tmp_name r @ '' '' @ TypeString pkg t @ nl"
| "print_dstmt pkg (DReadBytes r) = ''if err := dec.ReadBytes('' @ tmp_name r @ ''[:])'' @ returns_err"
| "print_dstmt pkg (DNew r t) = tmp_name r @ '' := new('' @ TypeString pkg t @ '')'' @ nl @
     ''if err := '' @ tmp_name r @ ''.DecodeRLP(dec)'' @ returns_err"
| "print_dstmt pkg (DIfKind k s want body) = ''if '' @ tmp_name k @ '', '' @ tmp_name s @ '', err := dec.Kind(); err != nil {'' @ nl @
     ''  return err'' @ nl @ ''} else if '' @ tmp_name s @ '' != 0 || '' @ tmp_name k @ '' != '' @
     (if want = List then ''rlp.List'' else ''rlp.String'') @ '' {'' @ nl @ print_dstmts pkg body @ ''}'' @ nl"
| "print_dstmt pkg (DAssign r v) = ''  '' @ tmp_name r @ '' = '' @ print_exp pkg v @ nl"
| "print_dstmt pkg (DSetField r f i v) = tmp_name r @ ''.'' @ f @ '' = '' @ print_exp pkg v @ nl"
| "print_dstmt pkg (DAppend r v) = ''  '' @ tmp_name r @ '' = append('' @ tmp_name r @ '', '' @ print_exp pkg v @ '')'' @ nl"
| "print_dstmt pkg (DBlock body) = ''{'' @ nl @ print_dstmts pkg body @ ''}'' @ nl"
| "print_dstmt pkg DList = ''if _, err := dec.List()'' @ returns_err"
| "print_dstmt pkg DListEnd = ''if err := dec.ListEnd()'' @ returns_err"
| "print_dstmt pkg (DIfMore body) = ''if dec.MoreDataInList() {'' @ nl @ print_dstmts pkg body @ ''}'' @ nl"
| "print_dstmt pkg (DForMore body) = ''for dec.MoreDataInList() {'' @ nl @ ''  '' @ print_dstmts pkg body @ ''}'' @ nl"
| "print_dstmt pkg (DComment f) = ''// '' @ f @ '':'' @ nl"
| "print_dstmts pkg [] = []"
| "print_dstmts pkg (s # ss) = print_dstmt pkg s @ print_dstmts pkg ss"

subsection \<open>The methods and the file\<close>

text \<open>\<open>None\<close> is the panic of \<open>nonZeroCheck\<close>.\<close>

definition generateDecoder :: "genContext \<Rightarrow> string \<Rightarrow> op \<Rightarrow> string \<times> genContext" where
  "generateDecoder ctx typ op =
    (let (result, code, ctx1) = genDecode op (addImport pathOfPackageRLP (resetTemp ctx)); pkg = gc_inPackage ctx
     in (''func (obj *'' @ typ @ '') DecodeRLP(dec *rlp.Stream) error {'' @ nl @ print_dstmts pkg code @
         ''  *obj = '' @ print_exp pkg result @ nl @ ''  return nil'' @ nl @ ''}'' @ nl, ctx1))"

definition generateEncoder :: "genContext \<Rightarrow> string \<Rightarrow> op \<Rightarrow> (string \<times> genContext) option" where
  "generateEncoder ctx typ op =
    map_option (\<lambda>(code, ctx1).
        (''func (obj *'' @ typ @ '') EncodeRLP(_w io.Writer) error {'' @ nl @ ''  w := rlp.NewEncoderBuffer(_w)'' @ nl @
         print_wstmts (gc_inPackage ctx) code @ ''  return w.Flush()'' @ nl @ ''}'' @ nl, ctx1))
      (genWrite op Obj (addImport pathOfPackageRLP (addImport ''io'' (resetTemp ctx))))"

datatype generated = GenErr gen_error | GenPanic | GenSource string

text \<open>
  \<open>generate\<close>, up to the formatting by go/format.  The type is a named one; \<open>p\<close> is the path of its
  package, \<open>q\<close> the name of the package and \<open>n\<close> its own name.
\<close>

definition generate :: "buildContext \<Rightarrow> string \<Rightarrow> string \<Rightarrow> string \<Rightarrow> gtype \<Rightarrow> bool \<Rightarrow> bool \<Rightarrow> generated" where
  "generate bctx p q n t encoder decoder =
    (case makeOp bctx None (GNamed p q n t) no_tags of Inl e \<Rightarrow> GenErr e
     | Inr op \<Rightarrow>
         (case (if encoder then generateEncoder (newGenContext p) n op else Some ([], newGenContext p)) of
            None \<Rightarrow> GenPanic
          | Some (encSource, ctx1) \<Rightarrow>
              (let (decSource, ctx2) = (if decoder then generateDecoder ctx1 n op else ([], ctx1))
               in GenSource (''package '' @ q @ nl @ nl @
                 concat (map (\<lambda>imp. ''import '' @ dquote @ imp @ dquote @ nl) (importsList ctx2)) @
                 (if encoder then nl @ encSource else []) @ (if decoder then nl @ decSource else [])))))"

text \<open>Looking up the type by its name; an object of the scope is a type name or something else.\<close>

datatype lookup_error = NoSuchIdentifier | NotAType | NotAStruct

definition lookupType :: "(string \<Rightarrow> gtype option option) \<Rightarrow> string \<Rightarrow> lookup_error + gtype" where
  "lookupType scope name = (case scope name of None \<Rightarrow> Inl NoSuchIdentifier
     | Some None \<Rightarrow> Inl NotAType
     | Some (Some t) \<Rightarrow> Inr t)"

definition lookupStructType :: "(string \<Rightarrow> gtype option option) \<Rightarrow> string \<Rightarrow> lookup_error + gtype" where
  "lookupStructType scope name = (case lookupType scope name of Inl e \<Rightarrow> Inl e
     | Inr t \<Rightarrow> (case resolveUnderlying t of GStruct fs \<Rightarrow> Inr t | _ \<Rightarrow> Inl NotAStruct))"

end
