(* ===== verification/Gen_Encoder.thy ===== *)
theory Gen_Encoder
  imports Gen_Types_Correct Gen_Decode
begin

section \<open>The generator as a whole\<close>

text \<open>
  The generator does not panic; the types it accepts are types the encoder by reflection accepts;
  and a generated \<open>EncodeRLP\<close> method delivers the bytes of the encoder by reflection to its writer.
\<close>

subsection \<open>Generating always succeeds\<close>

text \<open>\<open>big.Int\<close> is a struct, wherever it occurs.\<close>

fun big_struct :: "gtype \<Rightarrow> bool" where
  "big_struct (GNamed p q n t) \<longleftrightarrow>
    (if isBigInt (GNamed p q n t) then (case t of GStruct fs \<Rightarrow> True | _ \<Rightarrow> False) else big_struct t)"
| "big_struct (GPointer t) \<longleftrightarrow> big_struct t"
| "big_struct (GSlice t) \<longleftrightarrow> big_struct t"
| "big_struct (GArray n t) \<longleftrightarrow> big_struct t"
| "big_struct (GStruct fs) \<longleftrightarrow> (\<forall>f \<in> set fs. big_struct (gf_type f))"
| "big_struct t \<longleftrightarrow> True"

lemma gen_ok_big_struct: "gen_ok bctx t \<Longrightarrow> big_struct t"
  by (induction bctx t rule: gen_ok.induct) (auto split: if_splits)

lemma nonZeroCheck_total:
  "makeOp bctx name t tags = Inr eop \<Longrightarrow> rawValueType bctx = RawValue_type \<Longrightarrow> big_struct t \<Longrightarrow> nonZeroCheck e t \<noteq> None"
proof (induction bctx name t tags rule: makeOp.induct)
  case (1 bctx name p q n t tags)
  consider "isBigInt (GNamed p q n t)" | "GNamed p q n t = RawValue_type"
    | "\<not> isBigInt (GNamed p q n t)" "GNamed p q n t \<noteq> RawValue_type" by blast
  then show ?case
  proof cases
    case 1
    then show ?thesis using "1.prems"(3) by (auto simp: nonZeroCheck_def split: gtype.splits)
  next
    case 2
    then show ?thesis by (simp add: nonZeroCheck_def RawValue_type_def)
  next
    case 3
    then have "\<not> isDecoder bctx (GNamed p q n t)" "makeOp bctx (Some (GNamed p q n t)) t tags = Inr eop"
      using "1.prems"(1,2) by (auto simp: Let_def split: if_splits)
    then have "nonZeroCheck e t \<noteq> None" using "1.IH"[OF refl 3(1)] "1.prems"(2,3) 3 by simp
    then show ?thesis by (auto simp: nonZeroCheck_def split: gtype.splits)
  qed
next
  case (3 bctx name b tags)
  then show ?case by (cases b) (auto simp: nonZeroCheck_def makeBasicOp_def)
qed (auto simp: nonZeroCheck_def)

text \<open>The panics of \<open>typeReflectKind\<close> are for kinds that no type has.\<close>

lemma typeReflectKind_total: "typeReflectKind (resolveUnderlying t) \<noteq> None"
proof -
  have "typeReflectKind (GBasic b) \<noteq> None" for b by (cases b) auto
  then show ?thesis by (induction t rule: resolveUnderlying.induct) auto
qed

definition gen_total :: "op \<Rightarrow> bool" where
  "gen_total eop \<longleftrightarrow> (\<forall>e ctx. \<exists>code ctx'. genWrite eop e ctx = Some (code, ctx'))"

lemma gen_totalD: "gen_total eop \<Longrightarrow> \<exists>code ctx'. genWrite eop e ctx = Some (code, ctx')"
  unfolding gen_total_def by blast

lemma genFields_total: "\<forall>f \<in> set fs. gen_total (sf_elem f) \<Longrightarrow> \<exists>code ctx'. genFields fs v ctx = Some (code, ctx')"
proof (induction fs arbitrary: ctx)
  case (Cons f fs)
  obtain name i t elem where f: "f = StructField name i t elem" by (cases f)
  obtain c ctx1 where c: "genWrite elem (Sel v name i) ctx = Some (c, ctx1)"
    using gen_totalD[of elem] Cons.prems f by fastforce
  from Cons.IH[of ctx1] Cons.prems show ?case by (auto simp: f c)
qed simp

lemma genOptional_total:
  "\<forall>f \<in> set fs. gen_total (sf_elem f) \<Longrightarrow> \<exists>code ctx'. genOptional fs zs v ctx = Some (code, ctx')"
proof (induction fs arbitrary: zs ctx)
  case (Cons f fs)
  obtain name i t elem where f: "f = StructField name i t elem" by (cases f)
  obtain c ctx1 where c: "genWrite elem (Sel v name i) ctx = Some (c, ctx1)"
    using gen_totalD[of elem] Cons.prems f by fastforce
  from Cons.IH[of "tl zs" ctx1] Cons.prems show ?case by (cases zs) (auto simp: f c)
qed simp

lemma zeroChecks_total:
  "\<forall>f \<in> set fs. \<forall>e. nonZeroCheck e (sf_typ f) \<noteq> None \<Longrightarrow> \<exists>zs code ctx'. zeroChecks fs v ctx = Some (zs, code, ctx')"
proof (induction fs arbitrary: ctx)
  case (Cons f fs)
  obtain nz where nz: "nonZeroCheck (Sel v (sf_name f) (sf_index f)) (sf_typ f) = Some nz" using Cons.prems by fastforce
  let ?ctx = "nonzero_imports nz (ctx\<lparr>tempCounter := tempCounter ctx + 1\<rparr>)"
  from Cons.IH[of ?ctx] Cons.prems show ?case by (auto simp: nz new_temp_def)
qed simp

lemma gen_total_StructOp:
  assumes "\<forall>f \<in> set flds \<union> set opts. gen_total (sf_elem f)" and "\<forall>f \<in> set opts. \<forall>e. nonZeroCheck e (sf_typ f) \<noteq> None"
  shows "gen_total (StructOp named ty flds opts)"
  unfolding gen_total_def
proof (intro allI)
  fix e and ctx :: genContext
  let ?ctx = "ctx\<lparr>tempCounter := tempCounter ctx + 1\<rparr>"
  obtain c ctx2 where 1: "genFields flds e ?ctx = Some (c, ctx2)" using genFields_total[of flds e ?ctx] assms(1) by auto
  obtain zs d ctx3 where 2: "zeroChecks opts e ctx2 = Some (zs, d, ctx3)" using zeroChecks_total[OF assms(2), of e ctx2] by auto
  obtain oc ctx4 where 3: "genOptional opts zs e ctx3 = Some (oc, ctx4)" using genOptional_total[of opts zs e ctx3] assms(1) by auto
  show "\<exists>code ctx'. genWrite (StructOp named ty flds opts) e ctx = Some (code, ctx')"
    using 1 2 3 by (simp add: new_temp_def)
qed

lemma gen_total_PtrOp: "gen_total elem \<Longrightarrow> gen_total (PtrOp ty elem b k)"
  by (fastforce simp: gen_total_def Let_def split: option.splits)

lemma gen_total_SliceOp: "gen_total elem \<Longrightarrow> gen_total (SliceOp ty elem)"
  by (fastforce simp: gen_total_def new_temp_def split: option.splits)

lemma list_all2_left: "list_all2 P xs ys \<Longrightarrow> x \<in> set xs \<Longrightarrow> \<exists>y \<in> set ys. P x y"
  by (induction rule: list_all2_induct) auto

lemma list_all2_right: "list_all2 P xs ys \<Longrightarrow> y \<in> set ys \<Longrightarrow> \<exists>x \<in> set xs. P x y"
  by (induction rule: list_all2_induct) auto

lemma makeOp_total:
  "makeOp bctx name t tags = Inr eop \<Longrightarrow> rawValueType bctx = RawValue_type \<Longrightarrow> big_struct t \<Longrightarrow> gen_total eop"
proof (induction bctx name t tags arbitrary: eop rule: makeOp.induct)
  case (1 bctx name p q n t tags)
  then show ?case by (auto simp: Let_def gen_total_def makeRawValueOp_def split: if_splits)
next
  case (2 bctx name t tags)
  show ?case
  proof (cases "makeOp bctx None t no_tags")
    case (Inl e)
    then show ?thesis using "2.prems"(1) by (auto simp: Let_def makePtrOp_def gen_total_def split: if_splits)
  next
    case (Inr elem)
    then have "gen_total elem" if "\<not> isBigInt t" "\<not> isEncoder bctx (GPointer t)" "\<not> isDecoder bctx (GPointer t)"
      using "2.IH"[OF refl that] "2.prems"(2,3) by simp
    then show ?thesis using "2.prems"(1) Inr
      by (auto simp: Let_def makePtrOp_def gen_total_def[of "BigIntOp _"] gen_total_def[of "EncoderDecoderOp _"]
        gen_total_PtrOp split: if_splits)
  qed
next
  case (3 bctx name b tags)
  then show ?case by (auto simp: gen_total_def makeBasicOp_def Let_def split: if_splits)
next
  case (4 bctx name fs tags)
  let ?ops = "map (\<lambda>f. makeOp bctx None (gf_type f)) fs"
  have "makeStructOp bctx name fs ?ops = Inr eop" using "4.prems"(1) by simp
  then obtain ps flds opts where f: "ProcessFields (structType bctx fs) = Inr ps" "eop = StructOp name (GStruct fs) flds opts"
    "list_all2 (field_op fs ?ops) (filter (\<lambda>p. \<not> Optional (snd p)) ps) flds"
    "list_all2 (field_op fs ?ops) (filter (\<lambda>p. Optional (snd p)) ps) opts"
    by (rule split_fields)
  have field: "gen_total (sf_elem g) \<and> (\<forall>e. nonZeroCheck e (sf_typ g) \<noteq> None)" if g: "g \<in> set flds \<union> set opts" for g
  proof -
    obtain p where p: "p \<in> set ps" "field_op fs ?ops p g"
      using g list_all2_right[OF f(3), of g] list_all2_right[OF f(4), of g] by auto
    have i: "fst p < length fs" using ProcessFields_indices(2)[OF f(1)] p by (auto simp: structType_def)
    then have m: "makeOp bctx None (gf_type (fs ! fst p)) (snd p) = Inr (sf_elem g)" "sf_typ g = gf_type (fs ! fst p)"
      using p(2) by (auto simp: field_op_def)
    have b: "big_struct (gf_type (fs ! fst p))" using "4.prems"(3) i by simp
    show ?thesis
      using "4.IH"[OF nth_mem[OF i] m(1) "4.prems"(2) b] nonZeroCheck_total[OF m(1) "4.prems"(2) b] m(2) by simp
  qed
  show ?case unfolding f(2) by (rule gen_total_StructOp) (use field in blast)+
next
  case (5 bctx name t tags)
  show ?case
  proof (cases "makeOp bctx None t no_tags")
    case (Inl e)
    then show ?thesis using "5.prems"(1) by (auto simp: makeByteSliceOp_def makeSliceOp_def gen_total_def split: if_splits)
  next
    case (Inr elem)
    then have "gen_total elem" if "\<not> (gen_isByte t \<and> \<not> isEncoder bctx t)"
      using "5.IH"[OF that] "5.prems"(2,3) by simp
    then show ?thesis using "5.prems"(1) Inr
      by (auto simp: makeByteSliceOp_def makeSliceOp_def gen_total_def[of "BasicOp _ _ _ _ _ _"] gen_total_SliceOp split: if_splits)
  qed
next
  case (6 bctx name n t tags)
  then show ?case by (auto simp: gen_total_def makeByteArrayOp_def split: if_splits)
qed auto

subsection \<open>The types that are accepted\<close>

lemma makeOp_serializable:
  "plain_context bctx \<Longrightarrow> makeOp bctx name t tags = Inr eop \<Longrightarrow> gen_ok bctx t \<Longrightarrow> writer_error (typeToStructType bctx t) = None"
proof (induction bctx name t tags arbitrary: eop rule: makeOp.induct)
  case (1 bctx name p q n t tags)
  consider "isBigInt (GNamed p q n t)" | "GNamed p q n t = RawValue_type"
    | "\<not> isBigInt (GNamed p q n t)" "GNamed p q n t \<noteq> RawValue_type" by blast
  then show ?case
  proof cases
    case 2
    then show ?thesis using raw_value_type[OF "1.prems"(1)] by simp
  next
    case 3
    note named = named_type[OF "1.prems"(1) 3(1)]
    from "1.IH"[OF refl 3(1) _ _ "1.prems"(1)] "1.prems"(2,3) show ?thesis
      using 3(2) plain_contextD[OF "1.prems"(1)] unfolding named(1,2)[OF 3(2)] named(3) by simp
  qed simp
next
  case (2 bctx name t tags)
  show ?case
  proof (cases "isBigInt t")
    case False
    then obtain elem where "makeOp bctx None t no_tags = Inr elem"
      using "2.prems"(2) plain_contextD[OF "2.prems"(1)] by (auto simp: makePtrOp_def split: sum.splits)
    then show ?thesis using "2.IH"[OF refl False _ _ "2.prems"(1)] plain_contextD[OF "2.prems"(1)] "2.prems"(3) False by simp
  qed simp
next
  case (3 bctx name b tags)
  from basic_view[OF "3.prems"(1), of "GBasic b" b eop] "3.prems"(2) show ?case
    by (auto simp del: typeToStructType.simps)
next
  case (4 bctx name fs tags)
  let ?ops = "map (\<lambda>f. makeOp bctx None (gf_type f)) fs"
  have "makeStructOp bctx name fs ?ops = Inr eop" using "4.prems"(2) by simp
  then obtain ps flds opts where f: "ProcessFields (structType bctx fs) = Inr ps"
    "list_all2 (field_op fs ?ops) (filter (\<lambda>p. \<not> Optional (snd p)) ps) flds"
    "list_all2 (field_op fs ?ops) (filter (\<lambda>p. Optional (snd p)) ps) opts"
    by (rule split_fields)
  have "writer_error (typeToStructType bctx (gf_type (fs ! i))) = None" if p: "(i, ts) \<in> set ps" for i ts
  proof -
    have i: "i < length fs" using ProcessFields_indices(2)[OF f(1)] p by (auto simp: structType_def)
    obtain g where "field_op fs ?ops (i, ts) g"
      using p list_all2_left[OF f(2), of "(i, ts)"] list_all2_left[OF f(3), of "(i, ts)"] by (cases "Optional ts") auto
    then have "makeOp bctx None (gf_type (fs ! i)) ts = Inr (sf_elem g)" using i by (simp add: field_op_def)
    then show ?thesis using "4.IH"[OF nth_mem[OF i] "4.prems"(1)] "4.prems"(3) i by simp
  qed
  moreover have "typeToStructType bctx (GStruct fs) = TStruct (structType bctx fs)" by (simp add: structType_def)
  ultimately show ?case
    using f(1) ProcessFields_indices(2)[OF f(1)]
    by (fastforce simp: first_error_None structType_def simp del: typeToStructType.simps)
next
  case (5 bctx name t tags)
  have b: "isByte (typeToStructType bctx t) = gen_isByte t" using gen_isByte_iff "5.prems"(1,3) by simp
  show ?case
  proof (cases "gen_isByte t")
    case False
    then obtain elem where "makeOp bctx None t no_tags = Inr elem"
      using "5.prems"(2) by (cases "makeOp bctx None t no_tags") (auto simp: makeSliceOp_def)
    then show ?thesis using "5.IH"[OF _ "5.prems"(1)] "5.prems"(3) False by simp
  qed (simp add: b)
next
  case (6 bctx name n t tags)
  have "isByte (typeToStructType bctx t) = gen_isByte t" using gen_isByte_iff "6.prems"(1,3) by simp
  then show ?case using "6.prems"(2) by (auto split: if_splits)
qed auto

subsection \<open>Running the method\<close>

text \<open>The code of a struct operation, for the receiver, a pointer to the struct.\<close>

lemma generated_outputs:
  assumes "plain_context bctx" and "makeOp bctx None t no_tags = Inr eop" and "gen_ok bctx t" and "is_plain eop"
    and "has_type (typeToStructType bctx t) v"
  shows "\<exists>code ctx'. genWrite eop Obj ctx = Some (code, ctx') \<and>
    outputs (exec bctx (VPtr (Some v)) code Map.empty) (enc_spec (typeToStructType bctx t) v)"
proof -
  obtain code ctx' where c: "genWrite eop Obj ctx = Some (code, ctx')"
    using gen_totalD[OF makeOp_total[OF assms(2) plain_contextD(3)[OF assms(1)] gen_ok_big_struct[OF assms(3)]]] by blast
  have "writes_op bctx (VPtr (Some v)) eop v (enc_value (typeToStructType bctx t) no_tags v)"
    by (rule makeOp_writes[OF assms(1-3) _ assms(5)]) simp
  from writes_opD[OF this _ _ c, of Map.empty] assms(4)
  have "outputs (exec bctx (VPtr (Some v)) code Map.empty) (enc_value (typeToStructType bctx t) no_tags v)"
    by (simp add: denotes_def)
  then show ?thesis using c makeOp_serializable[OF assms(1-3)] by (simp add: enc_spec_def)
qed

text \<open>With a sink as the destination the method encodes into a buffer of its own and flushes it.\<close>

lemma run_EncodeRLP_sink:
  assumes "io_writer wr written" and "set (ew_pool w) \<subseteq> {..<length (ew_bufs w)}" and "distinct (ew_pool w)"
    and "k < length (ew_sinks w)" and out: "outputs (exec bctx obj code Map.empty) r"
    and len: "\<And>out. r = Inr out \<Longrightarrow> length out < 2 ^ 64"
  shows "case r of Inl e \<Rightarrow> run_EncodeRLP bctx wr pick (ToSink k) obj code w = Some (Inl e)
    | Inr out \<Rightarrow> \<exists>err w' n. run_EncodeRLP bctx wr pick (ToSink k) obj code w = Some (Inr (err, w')) \<and>
        written (ew_sinks w' ! k) = written (ew_sinks w ! k) @ take n out \<and> (err = None \<longrightarrow> length out \<le> n)"
proof -
  obtain a w1 where h: "NewEncoderBuffer pick (Some (ToSink k)) w = Some (EncoderBuffer (Some a) (Some (ToSink k)) True, w1)"
    "a < length (ew_bufs w1)" "ew_bufs w1 ! a = empty_buf" "ew_sinks w1 = ew_sinks w"
    using NewEncoderBuffer_sink[OF assms(2,3)] by blast
  show ?thesis
  proof (cases r)
    case (Inl e)
    then show ?thesis using out h by (simp add: run_EncodeRLP_def outputs_def)
  next
    case (Inr out)
    obtain f where f: "\<And>b. exec bctx obj code Map.empty b = Inr (f b)" "emits f out"
      using out len[OF Inr] Inr by (auto simp: outputs_def)
    let ?w2 = "upd_buf a (\<lambda>_. f empty_buf) w1"
    have "ew_bufs ?w2 ! a = f empty_buf" "k < length (ew_sinks ?w2)" using h assms(4) by simp_all
    from io_writer.eb_Flush_sink[where f = f, OF assms(1) this(1) f(2) this(2)] obtain err w' n where
      "eb_Flush wr (EncoderBuffer (Some a) (Some (ToSink k)) True) ?w2 = Some (err, zero_handle, w')"
      "written (ew_sinks w' ! k) = written (ew_sinks ?w2 ! k) @ take n out" "err = None \<longrightarrow> length out \<le> n" by blast
    then show ?thesis using h f(1) by (auto simp: Inr run_EncodeRLP_def)
  qed
qed

text \<open>Called from another encoder, with its buffer as the destination, it appends to that buffer.\<close>

lemma run_EncodeRLP_nested:
  assumes "encBufferFromWriter dst = Some a" and out: "outputs (exec bctx obj code Map.empty) r"
    and len: "\<And>out. r = Inr out \<Longrightarrow> length out < 2 ^ 64"
  shows "case r of Inl e \<Rightarrow> run_EncodeRLP bctx wr pick dst obj code w = Some (Inl e)
    | Inr out \<Rightarrow> \<exists>f. emits f out \<and> run_EncodeRLP bctx wr pick dst obj code w = Some (Inr (None, upd_buf a f w))"
proof -
  have h: "NewEncoderBuffer pick (Some dst) w = Some (EncoderBuffer (Some a) None False, w)"
    using assms(1) by (simp add: NewEncoderBuffer_def eb_Reset_def zero_handle_def)
  show ?thesis
  proof (cases r)
    case (Inl e)
    then show ?thesis using out h by (simp add: run_EncodeRLP_def outputs_def)
  next
    case (Inr out)
    obtain f where f: "\<And>b. exec bctx obj code Map.empty b = Inr (f b)" "emits f out"
      using out len[OF Inr] Inr by (auto simp: outputs_def)
    moreover have "upd_buf a (\<lambda>_. f (ew_bufs w ! a)) w = upd_buf a f w" by (simp add: upd_buf_def)
    ultimately show ?thesis using h by (auto simp: Inr run_EncodeRLP_def eb_Flush_def zero_handle_def)
  qed
qed

end
