(* ===== verification/Props_Gen.thy ===== *)
theory Props_Gen
  imports Gen_Encoder
begin

section \<open>Properties of the code generator\<close>

text \<open>
  What the generator rlpgen promises: it ends with source code or with an error, and the encoders it
  generates write what the encoder by reflection writes, except for one kind of value.
\<close>











end
