(* ===== verification/Capture.thy ===== *)
theory Capture
  imports Prelude
begin

section \<open>The change tracer (trie/trie_capture.go)\<close>

text \<open>
  \<open>trieCapture\<close> records which paths gained and which lost a node, and the blobs that were
  loaded.  A Go set of paths is a list without repetition, in insertion order, which is one
  of the orders in which Go may iterate over it; no result depends on the order.  A nil
  tracer is \<open>None\<close>, and every method checks for it.
\<close>

record trieCapture =
  inserts :: "bytes list"
  deletes :: "bytes list"
  origin :: "bytes \<rightharpoonup> bytes"

type_synonym tracer = "trieCapture option"

definition newTracer :: trieCapture where
  "newTracer = \<lparr>inserts = [], deletes = [], origin = Map.empty\<rparr>"

text \<open>\<open>set_add\<close> is \<open>m[k] = struct{}{}\<close>, \<open>removeAll\<close> is \<open>delete(m, k)\<close>.\<close>

definition set_add :: "'a \<Rightarrow> 'a list \<Rightarrow> 'a list" where
  "set_add x xs = (if x \<in> set xs then xs else xs @ [x])"

definition onRead :: "bytes \<Rightarrow> bytes \<Rightarrow> tracer \<Rightarrow> tracer" where
  "onRead path val t =
    (case t of None \<Rightarrow> None | Some c \<Rightarrow> Some (c\<lparr>origin := (origin c)(path \<mapsto> val)\<rparr>))"

definition onInsert :: "bytes \<Rightarrow> tracer \<Rightarrow> tracer" where
  "onInsert path t =
    (case t of None \<Rightarrow> None
     | Some c \<Rightarrow>
         if path \<in> set (deletes c) then Some (c\<lparr>deletes := removeAll path (deletes c)\<rparr>)
         else Some (c\<lparr>inserts := set_add path (inserts c)\<rparr>))"

definition onDelete :: "bytes \<Rightarrow> tracer \<Rightarrow> tracer" where
  "onDelete path t =
    (case t of None \<Rightarrow> None
     | Some c \<Rightarrow>
         if path \<in> set (inserts c) then Some (c\<lparr>inserts := removeAll path (inserts c)\<rparr>)
         else Some (c\<lparr>deletes := set_add path (deletes c)\<rparr>))"

definition insertList :: "tracer \<Rightarrow> bytes list" where
  "insertList t = (case t of None \<Rightarrow> [] | Some c \<Rightarrow> inserts c)"

definition deleteList :: "tracer \<Rightarrow> bytes list" where
  "deleteList t = (case t of None \<Rightarrow> [] | Some c \<Rightarrow> deletes c)"

definition getOldv :: "bytes \<Rightarrow> tracer \<Rightarrow> bytes" where
  "getOldv path t =
    (case t of None \<Rightarrow> []
     | Some c \<Rightarrow> (case origin c path of None \<Rightarrow> [] | Some v \<Rightarrow> v))"

definition capture_reset :: "tracer \<Rightarrow> tracer" where
  "capture_reset t = (case t of None \<Rightarrow> None | Some c \<Rightarrow> Some newTracer)"

definition capture_copy :: "tracer \<Rightarrow> tracer" where
  "capture_copy t =
    (case t of None \<Rightarrow> None
     | Some c \<Rightarrow> Some \<lparr>inserts = foldl (\<lambda>s k. set_add k s) [] (inserts c),
                       deletes = foldl (\<lambda>s k. set_add k s) [] (deletes c),
                       origin = origin c\<rparr>)"

subsection \<open>The tracer computes net effects\<close>

text \<open>
  What the tracer promises: after any sequence of creations and removals in which a path
  is created only while absent and removed only while present, it lists exactly the paths
  created since the start and those removed since the start.
\<close>

datatype event = Created bytes | Removed bytes

fun event_ok :: "bytes set \<Rightarrow> event \<Rightarrow> bool" where
  "event_ok S (Created p) = (p \<notin> S)"
| "event_ok S (Removed p) = (p \<in> S)"

fun event_apply :: "bytes set \<Rightarrow> event \<Rightarrow> bytes set" where
  "event_apply S (Created p) = insert p S"
| "event_apply S (Removed p) = S - {p}"

fun event_track :: "tracer \<Rightarrow> event \<Rightarrow> tracer" where
  "event_track t (Created p) = onInsert p t"
| "event_track t (Removed p) = onDelete p t"

fun events_ok :: "bytes set \<Rightarrow> event list \<Rightarrow> bool" where
  "events_ok S [] = True"
| "events_ok S (e # es) = (event_ok S e \<and> events_ok (event_apply S e) es)"

definition tracks :: "bytes set \<Rightarrow> bytes set \<Rightarrow> tracer \<Rightarrow> bool" where
  "tracks S0 S t \<longleftrightarrow> t \<noteq> None \<and> set (insertList t) = S - S0 \<and> set (deleteList t) = S0 - S
    \<and> distinct (insertList t) \<and> distinct (deleteList t)"

lemma set_set_add [simp]: "set (set_add x xs) = insert x (set xs)"
  by (auto simp: set_add_def)

lemma distinct_set_add [simp]: "distinct (set_add x xs) = distinct xs"
  by (auto simp: set_add_def)

lemma tracks_newTracer: "tracks S S (Some newTracer)"
  by (simp add: tracks_def insertList_def deleteList_def newTracer_def)

lemma tracks_step: "tracks S0 S t \<Longrightarrow> event_ok S e \<Longrightarrow> tracks S0 (event_apply S e) (event_track t e)"
  by (cases e; cases t)
    (auto simp: tracks_def onInsert_def onDelete_def insertList_def deleteList_def
      distinct_removeAll)

lemma tracks_run:
  "tracks S0 S t \<Longrightarrow> events_ok S es \<Longrightarrow>
     tracks S0 (foldl event_apply S es) (foldl event_track t es)"
  by (induction es arbitrary: S t) (auto dest: tracks_step)

lemma capture_reset_tracks: "t \<noteq> None \<Longrightarrow> tracks S S (capture_reset t)"
  by (auto simp: capture_reset_def tracks_newTracer)

lemma foldl_set_add: "distinct (acc @ xs) \<Longrightarrow> foldl (\<lambda>s k. set_add k s) acc xs = acc @ xs"
  by (induction xs arbitrary: acc) (auto simp: set_add_def)

lemma capture_copy_id:
  "distinct (insertList t) \<Longrightarrow> distinct (deleteList t) \<Longrightarrow> capture_copy t = t"
  by (cases t) (auto simp: capture_copy_def insertList_def deleteList_def foldl_set_add)

lemma getOldv_onRead:
  "getOldv p (onRead q v t) = (if t \<noteq> None \<and> p = q then v else getOldv p t)"
  by (auto simp: getOldv_def onRead_def split: option.splits)

lemma nil_tracer [simp]:
  "onRead p v None = None" "onInsert p None = None" "onDelete p None = None"
  "insertList None = []" "deleteList None = []" "getOldv p None = []"
  "capture_reset None = None" "capture_copy None = None"
  by (simp_all add: onRead_def onInsert_def onDelete_def insertList_def deleteList_def getOldv_def
      capture_reset_def capture_copy_def)

end
