(* ===== verification/Nodeset.thy ===== *)
theory Nodeset
  imports Nodes Capture
begin

section \<open>Sets of dirty nodes (trie/trie_nodeset.go)\<close>

text \<open>
  The result of committing a trie.  The Go map of a merged set, keyed by owner, is an
  association list, so that the order in which \<open>Update\<close> ranges over the owners is
  explicit; the maps keyed by path are only looked up.
\<close>

record leaf =
  leaf_blob :: bytes
  leaf_parent :: hash

record memoryNode =
  mn_hash :: hash
  mn_node :: node

record nodeWithPrev =
  memnode :: memoryNode
  oldv :: bytes

record nodesWithOrder =
  order :: "bytes list"
  nodes :: "bytes \<rightharpoonup> nodeWithPrev"

record NodeSet =
  owner :: hash
  updates :: nodesWithOrder
  deletions :: "bytes \<rightharpoonup> bytes"
  leaves :: "leaf list"

definition NewNodeSet :: "hash \<Rightarrow> NodeSet" where
  "NewNodeSet own =
    \<lparr>owner = own, updates = \<lparr>order = [], nodes = Map.empty\<rparr>, deletions = Map.empty, leaves = []\<rparr>"

definition markUpdated :: "bytes \<Rightarrow> memoryNode \<Rightarrow> bytes \<Rightarrow> NodeSet \<Rightarrow> NodeSet" where
  "markUpdated path mnode old ns =
    ns\<lparr>updates := (updates ns)
      \<lparr>order := order (updates ns) @ [path],
       nodes := (nodes (updates ns))(path \<mapsto> \<lparr>memnode = mnode, oldv = old\<rparr>)\<rparr>\<rparr>"

definition markDeleted :: "bytes \<Rightarrow> bytes \<Rightarrow> NodeSet \<Rightarrow> NodeSet" where
  "markDeleted path old ns = ns\<lparr>deletions := (deletions ns)(path \<mapsto> old)\<rparr>"

definition addLeaf :: "leaf \<Rightarrow> NodeSet \<Rightarrow> NodeSet" where
  "addLeaf l ns = ns\<lparr>leaves := leaves ns @ [l]\<rparr>"

type_synonym MergedNodeSet = "(hash \<times> NodeSet) list"

definition NewMergedNodeSet :: MergedNodeSet where
  "NewMergedNodeSet = []"

definition Merge :: "NodeSet \<Rightarrow> MergedNodeSet \<Rightarrow> go_error + MergedNodeSet" where
  "Merge other sets =
    (if map_of sets (owner other) \<noteq> None then Inl (DuplicateOwner (owner other))
     else Inr (sets @ [(owner other, other)]))"

subsection \<open>Invariants\<close>

text \<open>Every path of the order list has its node.\<close>

definition nodeset_ok :: "NodeSet \<Rightarrow> bool" where
  "nodeset_ok s \<longleftrightarrow> dom (nodes (updates s)) = set (order (updates s))"

lemma nodeset_ok_New: "nodeset_ok (NewNodeSet own)"
  by (simp add: nodeset_ok_def NewNodeSet_def)

lemma nodeset_ok_markUpdated: "nodeset_ok s \<Longrightarrow> nodeset_ok (markUpdated path m old s)"
  by (auto simp: nodeset_ok_def markUpdated_def)

lemma nodeset_ok_others [simp]:
  "nodeset_ok (markDeleted path old s) = nodeset_ok s" "nodeset_ok (addLeaf l s) = nodeset_ok s"
  by (simp_all add: nodeset_ok_def markDeleted_def addLeaf_def)

text \<open>The updated nodes of a set, in order, as \<open>Update\<close> will insert them.\<close>

definition dirty_list :: "NodeSet \<Rightarrow> (hash \<times> node) list" where
  "dirty_list s = map (\<lambda>p. case nodes (updates s) p of
      Some n \<Rightarrow> (mn_hash (memnode n), mn_node (memnode n)) | None \<Rightarrow> (zeroHash, NilNode))
    (order (updates s))"

lemma dirty_list_New [simp]: "dirty_list (NewNodeSet own) = []"
  by (simp add: dirty_list_def NewNodeSet_def)

lemma dirty_list_markUpdated:
  assumes "path \<notin> set (order (updates s))"
  shows "dirty_list (markUpdated path m old s) = dirty_list s @ [(mn_hash m, mn_node m)]"
proof -
  have "p \<in> set (order (updates s)) \<Longrightarrow> p \<noteq> path" for p using assms by auto
  then show ?thesis by (simp add: dirty_list_def markUpdated_def)
qed

lemma dirty_list_others [simp]:
  "dirty_list (markDeleted path old s) = dirty_list s" "dirty_list (addLeaf l s) = dirty_list s"
  by (simp_all add: dirty_list_def markDeleted_def addLeaf_def)

text \<open>Merging keeps the owners distinct and refuses a second set of the same owner.\<close>

definition merged_ok :: "MergedNodeSet \<Rightarrow> bool" where
  "merged_ok sets \<longleftrightarrow> distinct (map fst sets) \<and> (\<forall>(own, s) \<in> set sets. owner s = own)"

lemma merged_ok_New: "merged_ok NewMergedNodeSet"
  by (simp add: merged_ok_def NewMergedNodeSet_def)

lemma Merge_Inr_iff: "Merge s sets = Inr sets' \<longleftrightarrow> owner s \<notin> fst ` set sets \<and> sets' = sets @ [(owner s, s)]"
  by (auto simp: Merge_def map_of_eq_None_iff)

lemma merged_ok_Merge: "merged_ok sets \<Longrightarrow> Merge s sets = Inr sets' \<Longrightarrow> merged_ok sets'"
  by (auto simp: merged_ok_def Merge_Inr_iff)

lemma Merge_lookup:
  assumes "Merge s sets = Inr sets'"
  shows "map_of sets' = (map_of sets)(owner s \<mapsto> s)"
proof -
  have n: "map_of sets (owner s) = None" and e: "sets' = sets @ [(owner s, s)]"
    using assms by (simp_all add: Merge_def split: if_splits)
  show ?thesis
  proof
    fix o'
    show "map_of sets' o' = ((map_of sets)(owner s \<mapsto> s)) o'"
      using n by (cases "o' = owner s"; cases "map_of sets o'") (simp_all add: e map_add_def)
  qed
qed

end
