(* ===== verification/Memdb.thy ===== *)
theory Memdb
  imports Nodes
begin

section \<open>The key-value store (accdb/ and accdb/memorydb/memorydb.go)\<close>

text \<open>
  The in-memory database and its write batches, and the interface of \<open>accdb/acc_db.go\<close>
  and \<open>accdb/batch.go\<close> as the locale \<open>kv_store\<close>, which the memory database implements.
  A closed database has a nil map, \<open>None\<close> in the model.  Locks are not modelled: each
  operation is one step.
\<close>

definition IdealBatchSize :: nat where
  "IdealBatchSize = 100 * 1024"

record MemDB =
  kv :: "(bytes \<rightharpoonup> bytes) option"

definition memdb_New :: MemDB where
  "memdb_New = \<lparr>kv = Some Map.empty\<rparr>"

definition memdb_Has :: "MemDB \<Rightarrow> bytes \<Rightarrow> go_error + bool" where
  "memdb_Has db key =
    (case kv db of None \<Rightarrow> Inl DatabaseClosed | Some m \<Rightarrow> Inr (m key \<noteq> None))"

definition memdb_Get :: "MemDB \<Rightarrow> bytes \<Rightarrow> go_error + bytes" where
  "memdb_Get db key =
    (case kv db of None \<Rightarrow> Inl DatabaseClosed
     | Some m \<Rightarrow> (case m key of Some entry \<Rightarrow> Inr (CopyBytes entry) | None \<Rightarrow> Inl NotFound))"

definition memdb_Put :: "MemDB \<Rightarrow> bytes \<Rightarrow> bytes \<Rightarrow> go_error + MemDB" where
  "memdb_Put db key value =
    (case kv db of None \<Rightarrow> Inl DatabaseClosed
     | Some m \<Rightarrow> Inr (db\<lparr>kv := Some (m(key \<mapsto> CopyBytes value))\<rparr>))"

definition memdb_Delete :: "MemDB \<Rightarrow> bytes \<Rightarrow> go_error + MemDB" where
  "memdb_Delete db key =
    (case kv db of None \<Rightarrow> Inl DatabaseClosed
     | Some m \<Rightarrow> Inr (db\<lparr>kv := Some (m(key := None))\<rparr>))"

subsection \<open>Batches\<close>

text \<open>
  A batch keeps a pointer to its database; the model passes that database to
  \<open>batch_Submit\<close>.
\<close>

record keyvalue =
  kv_key :: bytes
  kv_value :: bytes
  kv_delete :: bool

record memBatch =
  cached :: "keyvalue list"
  bsize :: nat

definition NewBatch :: memBatch where
  "NewBatch = \<lparr>cached = [], bsize = 0\<rparr>"

definition batch_Put :: "bytes \<Rightarrow> bytes \<Rightarrow> memBatch \<Rightarrow> memBatch" where
  "batch_Put key value b =
    b\<lparr>cached := cached b @ [\<lparr>kv_key = CopyBytes key, kv_value = CopyBytes value, kv_delete = False\<rparr>],
      bsize := bsize b + (length key + length value)\<rparr>"

definition batch_Delete :: "bytes \<Rightarrow> memBatch \<Rightarrow> memBatch" where
  "batch_Delete key b =
    b\<lparr>cached := cached b @ [\<lparr>kv_key = CopyBytes key, kv_value = [], kv_delete = True\<rparr>],
      bsize := bsize b + length key\<rparr>"

definition ValueSize :: "memBatch \<Rightarrow> nat" where
  "ValueSize b = bsize b"

text \<open>Deleting from a nil map does nothing in Go; storing into one panics.\<close>

definition submit_entry :: "MemDB \<Rightarrow> keyvalue \<Rightarrow> go_error + MemDB" where
  "submit_entry db e =
    (if kv_delete e then
       Inr (case kv db of None \<Rightarrow> db | Some m \<Rightarrow> db\<lparr>kv := Some (m(kv_key e := None))\<rparr>)
     else case kv db of None \<Rightarrow> Inl Panic
       | Some m \<Rightarrow> Inr (db\<lparr>kv := Some (m(kv_key e \<mapsto> kv_value e))\<rparr>))"

definition batch_Submit :: "memBatch \<Rightarrow> MemDB \<Rightarrow> go_error + MemDB" where
  "batch_Submit b db = foldE submit_entry db (cached b)"

definition batch_Reset :: "memBatch \<Rightarrow> memBatch" where
  "batch_Reset b = b\<lparr>cached := [], bsize := 0\<rparr>"

text \<open>Replaying a batch into any writer, given by its two operations and its state.\<close>

definition batch_Write ::
  "('s \<Rightarrow> bytes \<Rightarrow> bytes \<Rightarrow> go_error + 's) \<Rightarrow> ('s \<Rightarrow> bytes \<Rightarrow> go_error + 's) \<Rightarrow>
    memBatch \<Rightarrow> 's \<Rightarrow> go_error + 's" where
  "batch_Write wput wdelete b w =
    foldE (\<lambda>w e. if kv_delete e then wdelete w (kv_key e) else wput w (kv_key e) (kv_value e))
      w (cached b)"

subsection \<open>The interface\<close>

text \<open>
  The last operation a list of logged operations holds for a key: none, a removal, or a
  value.
\<close>

fun last_op :: "(bytes \<times> bytes option) list \<Rightarrow> bytes \<Rightarrow> bytes option option" where
  "last_op [] k = None"
| "last_op ((k', op) # log) k =
    (case last_op log k of Some r \<Rightarrow> Some r | None \<Rightarrow> if k' = k then Some op else None)"

lemma last_op_append:
  "last_op (xs @ ys) k = (case last_op ys k of Some r \<Rightarrow> Some r | None \<Rightarrow> last_op xs k)"
  by (induction xs) (auto split: option.splits)

lemma last_op_puts: "last_op (map (\<lambda>(k, v). (k, Some v)) kvs) k = map_option Some (map_of (rev kvs) k)"
  by (induction kvs) (auto simp: map_add_def split: option.splits)

text \<open>
  What the trie database relies on: a batch logs its operations in order, and submitting it
  to an open store makes the store answer by the last logged operation on a key, and as
  before on every other key.
\<close>

locale kv_store =
  fixes opened :: "'d \<Rightarrow> bool"
    and lookup :: "'d \<Rightarrow> bytes \<Rightarrow> bytes option"
    and new_batch :: 'b
    and put :: "bytes \<Rightarrow> bytes \<Rightarrow> 'b \<Rightarrow> 'b"
    and delete :: "bytes \<Rightarrow> 'b \<Rightarrow> 'b"
    and reset :: "'b \<Rightarrow> 'b"
    and submit :: "'b \<Rightarrow> 'd \<Rightarrow> go_error + 'd"
    and log :: "'b \<Rightarrow> (bytes \<times> bytes option) list"
  assumes log_new: "log new_batch = []"
    and log_put: "log (put k v b) = log b @ [(k, Some v)]"
    and log_delete: "log (delete k b) = log b @ [(k, None)]"
    and log_reset: "log (reset b) = []"
    and submit_open: "opened d \<Longrightarrow> \<exists>d'. submit b d = Inr d' \<and> opened d'"
    and submit_lookup: "opened d \<Longrightarrow> submit b d = Inr d' \<Longrightarrow>
      lookup d' k = (case last_op (log b) k of None \<Rightarrow> lookup d k | Some r \<Rightarrow> r)"
begin

lemma log_puts: "log (foldl (\<lambda>b (k, v). put k v b) b kvs) = log b @ map (\<lambda>(k, v). (k, Some v)) kvs"
  by (induction kvs arbitrary: b) (auto simp: log_put)

lemma submit_puts:
  assumes "opened d"
  shows "\<exists>d'. submit (foldl (\<lambda>b (k, v). put k v b) new_batch kvs) d = Inr d' \<and> opened d' \<and>
    lookup d' = lookup d ++ map_of (rev kvs)"
proof -
  let ?b = "foldl (\<lambda>b (k, v). put k v b) new_batch kvs"
  obtain d' where d: "submit ?b d = Inr d'" "opened d'" using submit_open[OF assms] by blast
  have "lookup d' k = (lookup d ++ map_of (rev kvs)) k" for k
    by (simp add: submit_lookup[OF assms d(1)] log_puts log_new last_op_puts map_add_def
        split: option.split)
  with d show ?thesis by blast
qed

lemma submit_new: "opened d \<Longrightarrow> submit new_batch d = Inr d' \<Longrightarrow> lookup d' k = lookup d k"
  by (simp add: submit_lookup log_new)

lemma submit_put:
  "opened d \<Longrightarrow> submit (put k v b) d = Inr d' \<Longrightarrow> lookup d' k = Some v"
  by (simp add: submit_lookup log_put last_op_append)

lemma submit_delete:
  "opened d \<Longrightarrow> submit (delete k b) d = Inr d' \<Longrightarrow> lookup d' k = None"
  by (simp add: submit_lookup log_delete last_op_append)

lemma submit_twice:
  "opened d \<Longrightarrow> submit b d = Inr d' \<Longrightarrow> submit b d' = Inr d'' \<Longrightarrow> lookup d'' k = lookup d' k"
  using submit_open[of d b] by (auto simp: submit_lookup split: option.splits)

end

subsection \<open>The memory database implements it\<close>

definition memdb_lookup :: "MemDB \<Rightarrow> bytes \<rightharpoonup> bytes" where
  "memdb_lookup db k = (case memdb_Get db k of Inl _ \<Rightarrow> None | Inr v \<Rightarrow> Some v)"

definition memdb_open :: "MemDB \<Rightarrow> bool" where
  "memdb_open db \<longleftrightarrow> kv db \<noteq> None"

definition batch_log :: "memBatch \<Rightarrow> (bytes \<times> bytes option) list" where
  "batch_log b = map (\<lambda>e. (kv_key e, if kv_delete e then None else Some (kv_value e))) (cached b)"

lemma memdb_lookup_kv: "memdb_lookup \<lparr>kv = Some m\<rparr> = m"
  by (auto simp: memdb_lookup_def memdb_Get_def CopyBytes_def fun_eq_iff split: option.splits)

lemma memdb_open_iff: "memdb_open db \<longleftrightarrow> (\<exists>m. db = \<lparr>kv = Some m\<rparr>)"
  by (cases db) (auto simp: memdb_open_def)

lemma submit_entries:
  "\<exists>m'. foldE submit_entry \<lparr>kv = Some m\<rparr> es = Inr \<lparr>kv = Some m'\<rparr> \<and>
     (\<forall>k. m' k = (case last_op (map (\<lambda>e. (kv_key e, if kv_delete e then None
       else Some (kv_value e))) es) k of None \<Rightarrow> m k | Some r \<Rightarrow> r))"
proof (induction es arbitrary: m)
  case (Cons e es)
  define m1 where "m1 = (if kv_delete e then m(kv_key e := None) else m(kv_key e \<mapsto> kv_value e))"
  have e: "submit_entry \<lparr>kv = Some m\<rparr> e = Inr \<lparr>kv = Some m1\<rparr>"
    by (simp add: submit_entry_def m1_def)
  obtain m' where m': "foldE submit_entry \<lparr>kv = Some m1\<rparr> es = Inr \<lparr>kv = Some m'\<rparr>"
      "\<And>k. m' k = (case last_op (map (\<lambda>e. (kv_key e, if kv_delete e then None
         else Some (kv_value e))) es) k of None \<Rightarrow> m1 k | Some r \<Rightarrow> r)"
    using Cons[of m1] by blast
  show ?case
    by (rule exI[of _ m']) (simp add: e m'(1), simp add: m'(2) m1_def split: option.split)
qed simp

interpretation mem: kv_store memdb_open memdb_lookup NewBatch batch_Put batch_Delete batch_Reset
  batch_Submit batch_log
proof unfold_locales
  fix d b assume "memdb_open d"
  then obtain m where d: "d = \<lparr>kv = Some m\<rparr>" by (auto simp: memdb_open_iff)
  show "\<exists>d'. batch_Submit b d = Inr d' \<and> memdb_open d'"
    using submit_entries[of m "cached b"] by (auto simp: d batch_Submit_def memdb_open_def)
  fix d' k assume s: "batch_Submit b d = Inr d'"
  obtain m' where "foldE submit_entry \<lparr>kv = Some m\<rparr> (cached b) = Inr \<lparr>kv = Some m'\<rparr>"
      and m': "\<And>k. m' k = (case last_op (batch_log b) k of None \<Rightarrow> m k | Some r \<Rightarrow> r)"
    using submit_entries[of m "cached b"] unfolding batch_log_def by blast
  with s have "d' = \<lparr>kv = Some m'\<rparr>" by (simp add: d batch_Submit_def)
  then show "memdb_lookup d' k = (case last_op (batch_log b) k of None \<Rightarrow> memdb_lookup d k | Some r \<Rightarrow> r)"
    by (simp add: d memdb_lookup_kv m' split: option.split)
qed (simp_all add: batch_log_def NewBatch_def batch_Put_def batch_Delete_def batch_Reset_def CopyBytes_def)

text \<open>Has agrees with Get, and the direct writers with lookup.\<close>

lemma memdb_Has_lookup: "memdb_open db \<Longrightarrow> memdb_Has db k = Inr (memdb_lookup db k \<noteq> None)"
  by (auto simp: memdb_open_iff memdb_Has_def memdb_lookup_kv)

lemma memdb_Put_lookup: "memdb_Put db k v = Inr db' \<Longrightarrow> memdb_lookup db' = (memdb_lookup db)(k \<mapsto> v)"
  by (cases db) (auto simp: memdb_Put_def memdb_lookup_kv CopyBytes_def split: option.splits)

lemma memdb_Delete_lookup:
  "memdb_Delete db k = Inr db' \<Longrightarrow> memdb_lookup db' = (memdb_lookup db)(k := None)"
  by (cases db) (auto simp: memdb_Delete_def memdb_lookup_kv split: option.splits)

text \<open>Replaying a batch into an open database is submitting it.\<close>

lemma submit_entry_writer:
  "memdb_open db \<Longrightarrow> (if kv_delete e then memdb_Delete db (kv_key e)
     else memdb_Put db (kv_key e) (kv_value e)) = submit_entry db e"
  by (auto simp: memdb_open_iff memdb_Delete_def memdb_Put_def submit_entry_def CopyBytes_def)

lemma submit_entry_open: "memdb_open db \<Longrightarrow> submit_entry db e = Inr db' \<Longrightarrow> memdb_open db'"
  by (auto simp: memdb_open_iff submit_entry_def split: if_splits)

lemma Write_entries:
  "memdb_open db \<Longrightarrow> foldE (\<lambda>w e. if kv_delete e then memdb_Delete w (kv_key e)
     else memdb_Put w (kv_key e) (kv_value e)) db es = foldE submit_entry db es"
  by (induction es arbitrary: db) (auto simp: submit_entry_writer submit_entry_open split: sum.splits)

lemma batch_Write_memdb:
  "memdb_open db \<Longrightarrow> batch_Write memdb_Put memdb_Delete b db = batch_Submit b db"
  by (simp add: batch_Write_def batch_Submit_def Write_entries)

text \<open>The size of a batch is the number of bytes queued.\<close>

definition batch_ok :: "memBatch \<Rightarrow> bool" where
  "batch_ok b \<longleftrightarrow> bsize b = sum_list (map (\<lambda>e. length (kv_key e) + length (kv_value e)) (cached b))"

lemma batch_ok_ops [simp]:
  "batch_ok NewBatch" "batch_ok b \<Longrightarrow> batch_ok (batch_Put k v b)"
  "batch_ok b \<Longrightarrow> batch_ok (batch_Delete k b)" "batch_ok (batch_Reset b)"
  by (simp_all add: batch_ok_def NewBatch_def batch_Put_def batch_Delete_def batch_Reset_def CopyBytes_def)

end
