(* ===== verification/Triedb.thy ===== *)
theory Triedb
  imports Nodeset Memdb Node_Decode "HOL-Library.AList"
begin

section \<open>The trie database (trie/trie_db.go, trie/trie_db_cleaner.go)\<close>

text \<open>
  The cache of dirty nodes in front of the key-value store.  The map of dirty nodes is a
  partial function; a write through the entry of an absent hash is a nil pointer
  dereference and panics.  The children map of an entry is an association list, a nil map
  being the empty one (the code treats the two alike).  \<open>dereference\<close> and \<open>commit\<close> recurse
  along references and take fuel; lemma \<open>commit_run\<close> shows how much is enough.
  \<open>sync.RWMutex\<close> is not modelled.
\<close>

record cachedNode =
  c_node :: node
  parents :: uint32
  children :: "(hash \<times> uint16) list"
  flushPrev :: hash
  flushNext :: hash

record TrieDB =
  diskdb :: MemDB
  dirties :: "hash \<rightharpoonup> cachedNode"
  oldest :: hash
  newest :: hash

definition new_cachedNode :: "node \<Rightarrow> cachedNode" where
  "new_cachedNode n =
    \<lparr>c_node = n, parents = 0, children = [], flushPrev = zeroHash, flushNext = zeroHash\<rparr>"

definition NewTrieDB :: "MemDB \<Rightarrow> TrieDB" where
  "NewTrieDB disk =
    \<lparr>diskdb = disk, dirties = [zeroHash \<mapsto> new_cachedNode NilNode], oldest = zeroHash,
     newest = zeroHash\<rparr>"

definition NewTrieDBWithConfig :: "MemDB \<Rightarrow> TrieDB" where
  "NewTrieDBWithConfig disk =
    \<lparr>diskdb = disk, dirties = [zeroHash \<mapsto> new_cachedNode NilNode], oldest = zeroHash,
     newest = zeroHash\<rparr>"

subsection \<open>Reading\<close>

text \<open>The decoders that panic on an error (\<open>trie/trie_node_dec.go\<close>).\<close>

definition decodeNode :: "bytes option \<Rightarrow> bytes \<Rightarrow> decode_error + node" where
  "decodeNode h buf = decodeNodeUnsafe h (CopyBytes buf)"

definition mustDecodeNode :: "bytes option \<Rightarrow> bytes \<Rightarrow> go_error + node" where
  "mustDecodeNode h buf = (case decodeNode h buf of Inl _ \<Rightarrow> Inl Panic | Inr n \<Rightarrow> Inr n)"

definition mustDecodeNodeUnsafe :: "bytes option \<Rightarrow> bytes \<Rightarrow> go_error + node" where
  "mustDecodeNodeUnsafe h buf =
    (case decodeNodeUnsafe h buf of Inl _ \<Rightarrow> Inl Panic | Inr n \<Rightarrow> Inr n)"

definition cached_rlp :: "cachedNode \<Rightarrow> go_error + bytes" where
  "cached_rlp c = (case c_node c of RawNode b \<Rightarrow> Inr b | n \<Rightarrow> nodeToBytes n)"

definition cached_obj :: "cachedNode \<Rightarrow> hash \<Rightarrow> go_error + node" where
  "cached_obj c h =
    (case c_node c of RawNode b \<Rightarrow> mustDecodeNodeUnsafe (Some h) b
     | n \<Rightarrow> expandNode (Some h) n)"

definition forChilds :: "cachedNode \<Rightarrow> go_error + hash list" where
  "forChilds c =
    (case c_node c of RawNode b \<Rightarrow> Inr (map fst (children c))
     | n \<Rightarrow> (case forGatherChildren n of Inl e \<Rightarrow> Inl e
             | Inr hs \<Rightarrow> Inr (map fst (children c) @ hs)))"

text \<open>An empty blob in the store stands for a nil slice, which reads as no node.\<close>

definition db_node :: "TrieDB \<Rightarrow> hash \<Rightarrow> go_error + node" where
  "db_node db h =
    (case dirties db h of Some c \<Rightarrow> cached_obj c h
     | None \<Rightarrow>
         (case memdb_Get (diskdb db) h of Inl _ \<Rightarrow> Inr NilNode
          | Inr enc \<Rightarrow> if enc = [] then Inr NilNode else mustDecodeNodeUnsafe (Some h) enc))"

definition db_nodeBlob :: "TrieDB \<Rightarrow> hash \<Rightarrow> go_error + bytes" where
  "db_nodeBlob db h =
    (if h = zeroHash then Inl NotFound
     else case dirties db h of Some c \<Rightarrow> cached_rlp c
       | None \<Rightarrow>
           (let enc = (case memdb_Get (diskdb db) h of Inl _ \<Rightarrow> [] | Inr enc \<Rightarrow> enc) in
            if length enc = 0 then Inl NotFound else Inr enc))"

definition Node :: "TrieDB \<Rightarrow> hash \<Rightarrow> bytes \<Rightarrow> hash \<Rightarrow> go_error + node" where
  "Node db _ _ h = db_node db h"

text \<open>\<open>NodeBlob\<close> drops the error of \<open>nodeBlob\<close> and returns its nil slice; a panic stays.\<close>

definition NodeBlob :: "TrieDB \<Rightarrow> hash \<Rightarrow> bytes \<Rightarrow> hash \<Rightarrow> go_error + bytes" where
  "NodeBlob db _ _ h =
    (case db_nodeBlob db h of Inl NotFound \<Rightarrow> Inr [] | r \<Rightarrow> r)"

definition Nodes :: "TrieDB \<Rightarrow> hash set" where
  "Nodes db = dom (dirties db) - {zeroHash}"

subsection \<open>Inserting and linking\<close>

definition upd_entry :: "hash \<Rightarrow> (cachedNode \<Rightarrow> cachedNode) \<Rightarrow> TrieDB \<Rightarrow> go_error + TrieDB" where
  "upd_entry h f db =
    (case dirties db h of None \<Rightarrow> Inl Panic
     | Some c \<Rightarrow> Inr (db\<lparr>dirties := (dirties db)(h \<mapsto> f c)\<rparr>))"

definition incr_parents :: "TrieDB \<Rightarrow> hash \<Rightarrow> TrieDB" where
  "incr_parents db child =
    (case dirties db child of None \<Rightarrow> db
     | Some c \<Rightarrow> db\<lparr>dirties := (dirties db)(child \<mapsto> c\<lparr>parents := parents c + 1\<rparr>)\<rparr>)"

definition db_insert :: "hash \<Rightarrow> node \<Rightarrow> TrieDB \<Rightarrow> go_error + TrieDB" where
  "db_insert h n db =
    (if dirties db h \<noteq> None then Inr db
     else let entry = new_cachedNode n in
       case forChilds entry of Inl e \<Rightarrow> Inl e
       | Inr cs \<Rightarrow>
           (let db1 = foldl incr_parents db cs;
                db2 = db1\<lparr>dirties := (dirties db1)(h \<mapsto> entry\<lparr>flushPrev := newest db1\<rparr>)\<rparr>
            in if oldest db2 = zeroHash then Inr (db2\<lparr>oldest := h, newest := h\<rparr>)
               else case upd_entry (newest db2) (\<lambda>e. e\<lparr>flushNext := h\<rparr>) db2 of
                 Inl e \<Rightarrow> Inl e
               | Inr db3 \<Rightarrow> Inr (db3\<lparr>newest := h\<rparr>)))"

definition reference :: "hash \<Rightarrow> hash \<Rightarrow> TrieDB \<Rightarrow> go_error + TrieDB" where
  "reference child parent db =
    (if dirties db child = None then Inr db
     else case dirties db parent of None \<Rightarrow> Inl Panic
       | Some p \<Rightarrow>
           if map_of (children p) child \<noteq> None \<and> parent \<noteq> zeroHash then Inr db
           else upd_entry parent (\<lambda>p. p\<lparr>children := AList.update child
                  (case map_of (children p) child of None \<Rightarrow> 1 | Some c \<Rightarrow> c + 1) (children p)\<rparr>)
                (incr_parents db child))"

text \<open>
  \<open>Update\<close> inserts the nodes of every owner but the zero one, in the order of the map, then
  those of the zero owner, and then links account leaves to the storage tries.  Decoding
  the account of a leaf (\<open>rlp.DecodeBytes\<close> into \<open>types.StateAccount\<close>) is the parameter
  \<open>account_root\<close>, which returns the storage root.
\<close>

definition owner_order :: "MergedNodeSet \<Rightarrow> hash list" where
  "owner_order sets =
    filter (\<lambda>own. own \<noteq> zeroHash) (map fst sets) @
    (if map_of sets zeroHash \<noteq> None then [zeroHash] else [])"

definition insert_set :: "MergedNodeSet \<Rightarrow> TrieDB \<Rightarrow> hash \<Rightarrow> go_error + TrieDB" where
  "insert_set sets db own =
    (case map_of sets own of None \<Rightarrow> Inl Panic
     | Some sub \<Rightarrow>
         foldE (\<lambda>db path.
             case nodes (updates sub) path of None \<Rightarrow> Inl (MissingUpdate own path)
             | Some n \<Rightarrow> db_insert (mn_hash (memnode n)) (mn_node (memnode n)) db)
           db (order (updates sub)))"

definition link_leaf :: "(bytes \<Rightarrow> rlp_error + hash) \<Rightarrow> TrieDB \<Rightarrow> leaf \<Rightarrow> go_error + TrieDB" where
  "link_leaf account_root db l =
    (case account_root (leaf_blob l) of Inl e \<Rightarrow> Inl (RlpError e)
     | Inr root \<Rightarrow> if root \<noteq> emptyRoot then reference root (leaf_parent l) db else Inr db)"

definition Update :: "(bytes \<Rightarrow> rlp_error + hash) \<Rightarrow> MergedNodeSet \<Rightarrow> TrieDB \<Rightarrow> go_error + TrieDB" where
  "Update account_root sets db =
    (case foldE (insert_set sets) db (owner_order sets) of Inl e \<Rightarrow> Inl e
     | Inr db1 \<Rightarrow>
         (case map_of sets zeroHash of None \<Rightarrow> Inr db1
          | Some s \<Rightarrow> foldE (link_leaf account_root) db1 (leaves s)))"

subsection \<open>Dropping references\<close>

text \<open>Taking an entry out of the flush-list, shared by \<open>dereference\<close> and the cleaner.\<close>

definition unlink :: "hash \<Rightarrow> cachedNode \<Rightarrow> TrieDB \<Rightarrow> go_error + TrieDB" where
  "unlink h node db =
    (if h = oldest db then
       upd_entry (flushNext node) (\<lambda>e. e\<lparr>flushPrev := zeroHash\<rparr>) (db\<lparr>oldest := flushNext node\<rparr>)
     else if h = newest db then
       upd_entry (flushPrev node) (\<lambda>e. e\<lparr>flushNext := zeroHash\<rparr>) (db\<lparr>newest := flushPrev node\<rparr>)
     else
       (case upd_entry (flushPrev node) (\<lambda>e. e\<lparr>flushNext := flushNext node\<rparr>) db of
          Inl e \<Rightarrow> Inl e
        | Inr db1 \<Rightarrow> upd_entry (flushNext node) (\<lambda>e. e\<lparr>flushPrev := flushPrev node\<rparr>) db1))"

text \<open>Dropping one count of \<open>child\<close> from the children map of \<open>parent\<close>.\<close>

definition drop_child :: "hash \<Rightarrow> cachedNode \<Rightarrow> cachedNode" where
  "drop_child child p =
    (case map_of (children p) child of None \<Rightarrow> p
     | Some c \<Rightarrow>
         if c > 0 then
           (if c - 1 = 0 then p\<lparr>children := AList.delete child (children p)\<rparr>
            else p\<lparr>children := AList.update child (c - 1) (children p)\<rparr>)
         else p)"

text \<open>
  The range over the children map of the node runs while the recursive calls delete from
  that map: an entry deleted before it is reached is skipped.
\<close>

fun dereference :: "nat \<Rightarrow> hash \<Rightarrow> hash \<Rightarrow> TrieDB \<Rightarrow> go_error + TrieDB" where
  "dereference 0 child parent db = Inl OutOfFuel"
| "dereference (Suc fuel) child parent db =
    (case upd_entry parent (drop_child child) db of Inl e \<Rightarrow> Inl e
     | Inr db1 \<Rightarrow>
         (case dirties db1 child of None \<Rightarrow> Inr db1
          | Some node0 \<Rightarrow>
              (let node = (if parents node0 > 0 then node0\<lparr>parents := parents node0 - 1\<rparr> else node0);
                   db2 = db1\<lparr>dirties := (dirties db1)(child \<mapsto> node)\<rparr>
               in if parents node \<noteq> 0 then Inr db2
                  else case unlink child node db2 of Inl e \<Rightarrow> Inl e
                    | Inr db3 \<Rightarrow>
                        (case forChilds node of Inl e \<Rightarrow> Inl e
                         | Inr cs \<Rightarrow>
                             (case foldE (\<lambda>db (i, h).
                                  if i < length (children node) \<and>
                                     (case dirties db child of None \<Rightarrow> False
                                      | Some c \<Rightarrow> map_of (children c) h = None)
                                  then Inr db else dereference fuel h child db)
                                db3 (zip [0..<length cs] cs) of
                                Inl e \<Rightarrow> Inl e
                              | Inr db4 \<Rightarrow> Inr (db4\<lparr>dirties := (dirties db4)(child := None)\<rparr>))))))"

subsection \<open>Committing to disk\<close>

definition cleaner_Put :: "TrieDB \<Rightarrow> bytes \<Rightarrow> bytes \<Rightarrow> go_error + TrieDB" where
  "cleaner_Put db key blob =
    (let h = BytesToHash key in
     case dirties db h of None \<Rightarrow> Inr db
     | Some node \<Rightarrow>
         (case unlink h node db of Inl e \<Rightarrow> Inl e
          | Inr db1 \<Rightarrow> Inr (db1\<lparr>dirties := (dirties db1)(h := None)\<rparr>)))"

definition cleaner_Delete :: "TrieDB \<Rightarrow> bytes \<Rightarrow> go_error + TrieDB" where
  "cleaner_Delete db key = Inl Panic"

definition db_submit :: "memBatch \<Rightarrow> TrieDB \<Rightarrow> go_error + TrieDB \<times> memBatch" where
  "db_submit batch db =
    (case batch_Submit batch (diskdb db) of Inl e \<Rightarrow> Inl e
     | Inr disk \<Rightarrow>
         (case batch_Write cleaner_Put cleaner_Delete batch (db\<lparr>diskdb := disk\<rparr>) of
            Inl e \<Rightarrow> Inl e
          | Inr db1 \<Rightarrow> Inr (db1, batch_Reset batch)))"

fun db_commit :: "nat \<Rightarrow> hash \<Rightarrow> TrieDB \<times> memBatch \<Rightarrow> go_error + TrieDB \<times> memBatch" where
  "db_commit 0 h (db, batch) = Inl OutOfFuel"
| "db_commit (Suc fuel) h (db, batch) =
    (case dirties db h of None \<Rightarrow> Inr (db, batch)
     | Some node \<Rightarrow>
         (case forChilds node of Inl e \<Rightarrow> Inl e
          | Inr cs \<Rightarrow>
              (case foldE (\<lambda>st child. db_commit fuel child st) (db, batch) cs of Inl e \<Rightarrow> Inl e
               | Inr (db1, batch1) \<Rightarrow>
                   (case cached_rlp node of Inl e \<Rightarrow> Inl e
                    | Inr blob \<Rightarrow>
                        (let batch2 = batch_Put h blob batch1 in
                         if ValueSize batch2 \<ge> IdealBatchSize then db_submit batch2 db1
                         else Inr (db1, batch2))))))"

definition Commit :: "nat \<Rightarrow> hash \<Rightarrow> TrieDB \<Rightarrow> go_error + TrieDB" where
  "Commit fuel h db =
    (case db_commit fuel h (db, NewBatch) of Inl e \<Rightarrow> Inl e
     | Inr (db1, batch) \<Rightarrow>
         (case db_submit batch db1 of Inl e \<Rightarrow> Inl e | Inr (db2, _) \<Rightarrow> Inr db2))"

end
