(* ===== verification/Triedb_Flush.thy ===== *)
theory Triedb_Flush
  imports Triedb
begin

section \<open>The flush-list of the trie database\<close>

text \<open>
  The dirty nodes other than the metaroot form a doubly linked list in insertion order,
  with \<open>oldest\<close> and \<open>newest\<close> at its ends.  \<open>flush_list db L\<close> says that \<open>L\<close> is that
  list.  The head's back link and, for an empty list, \<open>newest\<close> are unconstrained: the code
  leaves stale values there, and never reads them.  Every operation keeps the invariant and,
  because of it, never follows a dangling link.
\<close>

definition link_next :: "(hash \<rightharpoonup> cachedNode) \<Rightarrow> hash \<Rightarrow> hash" where
  "link_next d h = flushNext (the (d h))"

definition link_prev :: "(hash \<rightharpoonup> cachedNode) \<Rightarrow> hash \<Rightarrow> hash" where
  "link_prev d h = flushPrev (the (d h))"

definition linked :: "(hash \<rightharpoonup> cachedNode) \<Rightarrow> hash \<Rightarrow> hash \<Rightarrow> bool" where
  "linked d x y \<longleftrightarrow> link_next d x = y \<and> link_prev d y = x"

definition chain :: "(hash \<rightharpoonup> cachedNode) \<Rightarrow> hash list \<Rightarrow> bool" where
  "chain d L \<longleftrightarrow> successively (linked d) L \<and> (L \<noteq> [] \<longrightarrow> link_next d (last L) = zeroHash)"

definition flush_list :: "TrieDB \<Rightarrow> hash list \<Rightarrow> bool" where
  "flush_list db L \<longleftrightarrow> distinct L \<and> zeroHash \<notin> set L \<and>
     dom (dirties db) = insert zeroHash (set L) \<and> chain (dirties db) L \<and>
     oldest db = (if L = [] then zeroHash else hd L) \<and> (L \<noteq> [] \<longrightarrow> newest db = last L)"

text \<open>What linking and unlinking leave alone.\<close>

definition core :: "cachedNode \<Rightarrow> node \<times> uint32 \<times> (hash \<times> uint16) list" where
  "core c = (c_node c, parents c, children c)"

definition same_cores :: "TrieDB \<Rightarrow> TrieDB \<Rightarrow> bool" where
  "same_cores db db' \<longleftrightarrow> diskdb db' = diskdb db \<and>
     (\<forall>h. map_option core (dirties db' h) = map_option core (dirties db h))"

lemma link_simps [simp]:
  "link_next (d(h \<mapsto> c)) k = (if k = h then flushNext c else link_next d k)"
  "link_prev (d(h \<mapsto> c)) k = (if k = h then flushPrev c else link_prev d k)"
  by (simp_all add: link_next_def link_prev_def)

lemma link_remove [simp]:
  "k \<noteq> h \<Longrightarrow> link_next (d(h := None)) k = link_next d k"
  "k \<noteq> h \<Longrightarrow> link_prev (d(h := None)) k = link_prev d k"
  by (simp_all add: link_next_def link_prev_def)

lemma chain_cong:
  assumes "\<And>x. x \<in> set L \<Longrightarrow> link_next d' x = link_next d x"
    and "\<And>x. x \<in> set (tl L) \<Longrightarrow> link_prev d' x = link_prev d x"
  shows "chain d' L = chain d L"
proof -
  have "successively (linked d') L = successively (linked d) L"
    using assms
  proof (induction L rule: induct_list012)
    case (3 x y zs)
    then have "successively (linked d') (y # zs) = successively (linked d) (y # zs)"
      by (intro 3(2)) auto
    with 3(3,4) show ?case by (simp add: linked_def)
  qed simp_all
  then show ?thesis using assms(1) by (auto simp: chain_def)
qed

lemma chain_append:
  assumes "A \<noteq> []" and "B \<noteq> []"
  shows "chain d (A @ B) \<longleftrightarrow> successively (linked d) A \<and> linked d (last A) (hd B) \<and> chain d B"
  using assms by (auto simp: chain_def successively_append_iff)

lemma chain_Cons: "chain d (x # L) \<longleftrightarrow>
    (if L = [] then link_next d x = zeroHash else linked d x (hd L) \<and> chain d L)"
  by (auto simp: chain_def successively_Cons)

lemma flush_list_dom: "flush_list db L \<Longrightarrow> x \<in> set L \<Longrightarrow> \<exists>c. dirties db x = Some c"
  by (auto simp: flush_list_def)

lemma flush_list_zero: "flush_list db L \<Longrightarrow> \<exists>c. dirties db zeroHash = Some c"
  by (auto simp: flush_list_def)

lemma flush_list_nonzero: "flush_list db L \<Longrightarrow> h \<in> set L \<Longrightarrow> h \<noteq> zeroHash"
  by (auto simp: flush_list_def)

lemma flush_list_cong:
  assumes "\<And>h. map_option (\<lambda>c. (flushPrev c, flushNext c)) (dirties db' h) =
      map_option (\<lambda>c. (flushPrev c, flushNext c)) (dirties db h)"
    and "oldest db' = oldest db" and "newest db' = newest db"
  shows "flush_list db' L = flush_list db L"
proof -
  have n: "dirties db' h = None \<longleftrightarrow> dirties db h = None" for h
    using assms(1)[of h] by (cases "dirties db' h"; cases "dirties db h") simp_all
  then have d: "dom (dirties db') = dom (dirties db)" by (simp add: dom_def)
  have "link_next (dirties db') h = link_next (dirties db) h \<and>
      link_prev (dirties db') h = link_prev (dirties db) h" for h
    using assms(1)[of h] n[of h]
    by (cases "dirties db h"; cases "dirties db' h") (simp_all add: link_next_def link_prev_def)
  then have "chain (dirties db') L = chain (dirties db) L" by (intro chain_cong) blast+
  then show ?thesis using assms(2,3) d by (simp add: flush_list_def)
qed

lemma flush_list_new: "flush_list (NewTrieDB disk) []"
  by (simp add: flush_list_def NewTrieDB_def chain_def)

lemma same_cores_refl [simp]: "same_cores db db"
  by (simp add: same_cores_def)

lemma same_cores_trans: "same_cores a b \<Longrightarrow> same_cores b c \<Longrightarrow> same_cores a c"
  by (simp add: same_cores_def)

lemma upd_entry_links:
  assumes "dirties db h = Some c" and "\<And>c. core (f c) = core c"
  shows "upd_entry h f db = Inr (db\<lparr>dirties := (dirties db)(h \<mapsto> f c)\<rparr>)"
    and "same_cores db (db\<lparr>dirties := (dirties db)(h \<mapsto> f c)\<rparr>)"
  using assms by (simp_all add: upd_entry_def same_cores_def)

lemma successively_linked_end:
  assumes "successively (linked d) A" and "A \<noteq> []" and "distinct A" and "h \<notin> set A"
    and "d (last A) = Some c" and "flushPrev c' = flushPrev c"
    and "\<And>x. x \<in> set A \<Longrightarrow> x \<noteq> last A \<Longrightarrow> d' x = d x" and "d' (last A) = Some c'"
  shows "successively (linked d') A"
proof -
  obtain A' where A: "A = A' @ [last A]" using assms(2) by (metis append_butlast_last_id)
  then have lA: "last A \<notin> set A'" using assms(3) by (metis distinct_append disjoint_iff list.set_intros(1))
  have m: "linked d' x y" if "x \<in> set A'" "y \<in> set A" "linked d x y" for x y
  proof -
    have "set A = insert (last A) (set A')" using arg_cong[OF A, of set] by simp
    then have x: "d' x = d x" using that(1) lA assms(7)[of x] by auto
    have "link_prev d' y = link_prev d y"
      using that(2) assms(5-8) by (cases "y = last A") (simp_all add: link_prev_def)
    with x that(3) show ?thesis by (simp add: linked_def link_next_def)
  qed
  have sub: "set A' \<subseteq> set A" "last A \<in> set A" using arg_cong[OF A, of set] by auto
  have "successively (linked d) (A' @ [last A])" using A assms(1) by metis
  then have s: "successively (linked d) A'" "A' \<noteq> [] \<Longrightarrow> linked d (last A') (last A)"
    by (auto simp: successively_append_iff)
  have "successively (linked d') A'"
    using s(1) sub(1) m by (intro successively_mono[OF s(1)]) blast
  moreover have "A' = [] \<or> linked d' (last A') (last A)"
    using s(2) sub(2) m[of "last A'" "last A"] by (cases "A' = []") simp_all
  ultimately have "successively (linked d') (A' @ [last A])" by (simp add: successively_append_iff)
  then show ?thesis using A by metis
qed

subsection \<open>Appending\<close>

lemma incr_parents_flush [simp]: "flush_list (incr_parents db h) L = flush_list db L"
  by (rule flush_list_cong) (auto simp: incr_parents_def split: option.splits)

lemma incr_parents_foldl_flush [simp]: "flush_list (foldl incr_parents db cs) L = flush_list db L"
  by (induction cs arbitrary: db) simp_all

lemma incr_parents_fields [simp]:
  "oldest (incr_parents db h) = oldest db" "newest (incr_parents db h) = newest db"
  "diskdb (incr_parents db h) = diskdb db" "dom (dirties (incr_parents db h)) = dom (dirties db)"
  by (auto simp: incr_parents_def split: option.splits)

lemma foldl_incr_parents_fields [simp]:
  "oldest (foldl incr_parents db cs) = oldest db" "newest (foldl incr_parents db cs) = newest db"
  "diskdb (foldl incr_parents db cs) = diskdb db"
  "dom (dirties (foldl incr_parents db cs)) = dom (dirties db)"
  by (induction cs arbitrary: db) simp_all

lemma flush_list_append:
  assumes L: "flush_list db L" and h: "h \<notin> dom (dirties db)"
    and e: "flushNext e = zeroHash" "flushPrev e = newest db"
  defines "db2 \<equiv> db\<lparr>dirties := (dirties db)(h \<mapsto> e)\<rparr>"
  shows "\<exists>db'. (if oldest db2 = zeroHash then Inr (db2\<lparr>oldest := h, newest := h\<rparr>)
      else case upd_entry (newest db2) (\<lambda>e. e\<lparr>flushNext := h\<rparr>) db2 of
        Inl e \<Rightarrow> Inl e | Inr db3 \<Rightarrow> Inr (db3\<lparr>newest := h\<rparr>)) = Inr db' \<and>
      flush_list db' (L @ [h]) \<and> same_cores db2 db'"
proof (cases "L = []")
  case True
  have "flush_list (db2\<lparr>oldest := h, newest := h\<rparr>) (L @ [h])"
    using assms True by (auto simp: flush_list_def chain_def)
  moreover have "oldest db2 = zeroHash" using L True by (simp add: flush_list_def db2_def)
  ultimately show ?thesis by (auto simp: same_cores_def)
next
  case False
  have d: "dom (dirties db) = insert zeroHash (set L)" and new: "newest db = last L"
    and old: "oldest db = hd L"
    using L False by (auto simp: flush_list_def)
  have hd0: "hd L \<noteq> zeroHash" using flush_list_nonzero[OF L hd_in_set[OF False]] .
  have hL: "h \<notin> set L" "h \<noteq> zeroHash" using h d by auto
  have lL: "last L \<in> set L" using False by simp
  then have lh: "last L \<noteq> h" using hL by blast
  then obtain c where c: "dirties db2 (last L) = Some c"
    using flush_list_dom[OF L lL] by (auto simp: db2_def)
  let ?db' = "db2\<lparr>dirties := (dirties db2)(last L \<mapsto> c\<lparr>flushNext := h\<rparr>), newest := h\<rparr>"
  have u: "upd_entry (newest db2) (\<lambda>e. e\<lparr>flushNext := h\<rparr>) db2 =
      Inr (db2\<lparr>dirties := (dirties db2)(last L \<mapsto> c\<lparr>flushNext := h\<rparr>)\<rparr>)"
    using c new by (simp add: upd_entry_def db2_def)
  have dist: "distinct L" "zeroHash \<notin> set L" and sL: "successively (linked (dirties db)) L"
    using L by (auto simp: flush_list_def chain_def)
  have c0: "dirties db (last L) = Some c" using c lh by (simp add: db2_def)
  have "successively (linked (dirties ?db')) L"
    using hL by (intro successively_linked_end[OF sL False dist(1) hL(1) c0]) (auto simp: db2_def)
  then have "chain (dirties ?db') (L @ [h])"
    using False hL lL new e by (auto simp: chain_def successively_append_iff linked_def db2_def)
  then have "flush_list ?db' (L @ [h])"
    using L False hL dist d lL by (auto simp: flush_list_def db2_def)
  moreover have "same_cores db2 ?db'" using c by (auto simp: same_cores_def core_def)
  moreover have "oldest db2 \<noteq> zeroHash" using old hd0 by (simp add: db2_def)
  ultimately show ?thesis by (simp add: u)
qed

subsection \<open>Removing\<close>

lemma flush_list_split:
  assumes "flush_list db (A @ h # B)"
  shows "h \<notin> set A" "h \<notin> set B" "set A \<inter> set B = {}" "distinct A" "distinct B"
    "zeroHash \<notin> set A" "zeroHash \<notin> set B" "h \<noteq> zeroHash"
    "dom (dirties db) = insert zeroHash (insert h (set A \<union> set B))"
  using assms by (auto simp: flush_list_def)

lemma chain_drop_first:
  assumes "chain d (h # B)" and "distinct (h # B)" and nc: "flushNext c = link_next d (link_next d h)"
  shows "chain (d(link_next d h \<mapsto> c, h := None)) B"
proof (cases "B = []")
  case False
  then have n: "link_next d h = hd B" using assms(1) by (simp add: chain_Cons linked_def)
  have "chain d B" using assms(1) False by (simp add: chain_Cons)
  moreover have "link_next (d(link_next d h \<mapsto> c, h := None)) x = link_next d x" if "x \<in> set B" for x
  proof -
    have "x \<noteq> h" using that assms(2) by auto
    then show ?thesis using n nc by simp
  qed
  moreover have "link_prev (d(link_next d h \<mapsto> c, h := None)) x = link_prev d x" if "x \<in> set (tl B)" for x
  proof -
    have "x \<noteq> h" "x \<noteq> hd B" using that assms(2) False by (cases B; auto)+
    then show ?thesis using n by simp
  qed
  ultimately show ?thesis using chain_cong by blast
qed (simp add: chain_def)

lemma link_chain_end:
  assumes "successively (linked d) A" and "A \<noteq> []" and "d (last A) = Some c"
    and "distinct A" and "h \<notin> set A"
  shows "chain (d(last A \<mapsto> c\<lparr>flushNext := zeroHash\<rparr>, h := None)) A"
proof -
  let ?d = "d(last A \<mapsto> c\<lparr>flushNext := zeroHash\<rparr>, h := None)"
  have l: "last A \<noteq> h" using assms(2,5) by auto
  have "successively (linked ?d) A"
    using assms l by (intro successively_linked_end[OF assms(1,2,4,5,3)]) auto
  then show ?thesis using l by (simp add: chain_def link_next_def)
qed

lemma link_chain_middle:
  assumes "successively (linked d) A" and "chain d B" and "A \<noteq> []" and "B \<noteq> []"
    and c: "d (last A) = Some c" and e: "d (hd B) = Some e"
    and "distinct A" and "distinct B" and "set A \<inter> set B = {}" and "h \<notin> set A" and "h \<notin> set B"
  shows "chain (d(last A \<mapsto> c\<lparr>flushNext := hd B\<rparr>, hd B \<mapsto> e\<lparr>flushPrev := last A\<rparr>, h := None)) (A @ B)"
    (is "chain ?d _")
proof -
  have l: "last A \<noteq> h" "hd B \<noteq> h" "last A \<noteq> hd B" "hd B \<notin> set A"
    using assms(3,4,9-11) by (auto dest: last_in_set hd_in_set)
  have l2: "last A \<notin> set B" using assms(3,9) by (auto dest: last_in_set)
  have "successively (linked ?d) A"
    using l assms(10)
    by (intro successively_linked_end[OF assms(1,3,7,10) c, of "c\<lparr>flushNext := hd B\<rparr>"]) auto
  moreover have "linked ?d (last A) (hd B)" using l by (simp add: linked_def link_next_def link_prev_def)
  moreover have "chain ?d B"
  proof (subst chain_cong)
    fix x assume "x \<in> set B"
    then show "link_next ?d x = link_next d x"
      using l2 assms(11) e by (auto simp: link_next_def)
  next
    fix x assume "x \<in> set (tl B)"
    then have "x \<in> set B" "x \<noteq> hd B" using assms(4,8) by (cases B; auto)+
    then show "link_prev ?d x = link_prev d x"
      using l2 assms(11) by (auto simp: link_prev_def)
  qed (rule assms(2))
  ultimately show ?thesis using assms(3,4) by (simp add: chain_append)
qed

text \<open>
  Unlinking a node of the list never fails, and deleting its entry afterwards leaves the
  list without it.
\<close>

lemma unlink_flush_list:
  assumes L: "flush_list db (A @ h # B)" and h: "dirties db h = Some node"
  shows "\<exists>db'. unlink h node db = Inr db' \<and> same_cores db db' \<and>
    flush_list (db'\<lparr>dirties := (dirties db')(h := None)\<rparr>) (A @ B)"
proof -
  note s = flush_list_split[OF L]
  have nx: "flushNext node = link_next (dirties db) h" and pv: "flushPrev node = link_prev (dirties db) h"
    using h by (simp_all add: link_next_def link_prev_def)
  have ch: "chain (dirties db) (A @ h # B)" using L by (simp add: flush_list_def)
  show ?thesis
  proof (cases "A = []")
    case True
    then have old: "oldest db = h" and chB: "chain (dirties db) (h # B)"
      using L ch by (simp_all add: flush_list_def)
    have n: "flushNext node = (if B = [] then zeroHash else hd B)"
      using chB nx by (simp add: chain_Cons linked_def split: if_splits)
    then obtain c where c: "dirties db (flushNext node) = Some c" and nh: "flushNext node \<noteq> h"
      using flush_list_zero[OF L] flush_list_dom[OF L, of "hd B"] s
      by (cases B) auto
    let ?db' = "db\<lparr>oldest := flushNext node,
      dirties := (dirties db)(flushNext node \<mapsto> c\<lparr>flushPrev := zeroHash\<rparr>)\<rparr>"
    have u: "unlink h node db = Inr ?db'" using old c by (simp add: unlink_def upd_entry_def)
    have "chain ((dirties ?db')(h := None)) B"
      using chain_drop_first[OF chB, of "c\<lparr>flushPrev := zeroHash\<rparr>"] s c
      by (simp add: nx link_next_def)
    moreover have "dom ((dirties ?db')(h := None)) = insert zeroHash (set B)"
      using s n True nh by (auto split: if_splits)
    ultimately have "flush_list (?db'\<lparr>dirties := (dirties ?db')(h := None)\<rparr>) (A @ B)"
      using L s True n by (auto simp: flush_list_def)
    moreover have "same_cores db ?db'" using c by (auto simp: same_cores_def core_def)
    ultimately show ?thesis using u by blast
  next
    case False
    have old: "h \<noteq> oldest db" using L s False by (auto simp: flush_list_def)
    have sA: "successively (linked (dirties db)) A" and lA: "linked (dirties db) (last A) h"
      and chB: "chain (dirties db) (h # B)"
      using ch False by (simp_all add: chain_append)
    have p: "flushPrev node = last A" using lA pv by (simp add: linked_def)
    have lastA: "last A \<in> set A" using False by simp
    then obtain c where c: "dirties db (last A) = Some c"
      using flush_list_dom[OF L] by fastforce
    show ?thesis
    proof (cases "B = []")
      case True
      then have new: "h = newest db" using L by (simp add: flush_list_def)
      let ?db' = "db\<lparr>newest := last A, dirties := (dirties db)(last A \<mapsto> c\<lparr>flushNext := zeroHash\<rparr>)\<rparr>"
      have u: "unlink h node db = Inr ?db'" using old new p c by (simp add: unlink_def upd_entry_def)
      have "chain ((dirties ?db')(h := None)) A"
        using link_chain_end[OF sA False c] s by simp
      then have "flush_list (?db'\<lparr>dirties := (dirties ?db')(h := None)\<rparr>) (A @ B)"
        using L s True False lastA by (auto simp: flush_list_def)
      moreover have "same_cores db ?db'" using c by (auto simp: same_cores_def core_def)
      ultimately show ?thesis using u by blast
    next
      case B: False
      have new: "h \<noteq> newest db" using L s B by (auto simp: flush_list_def)
      have n: "flushNext node = hd B" and chB': "chain (dirties db) B"
        using chB nx B by (simp_all add: chain_Cons linked_def)
      have hdB: "hd B \<in> set B" using B by simp
      then obtain e where e: "dirties db (hd B) = Some e" using flush_list_dom[OF L] by fastforce
      have ne: "last A \<noteq> hd B" using s lastA hdB by auto
      let ?db' = "db\<lparr>dirties := (dirties db)(last A \<mapsto> c\<lparr>flushNext := hd B\<rparr>,
        hd B \<mapsto> e\<lparr>flushPrev := last A\<rparr>)\<rparr>"
      have u: "unlink h node db = Inr ?db'"
        using old new p c n e ne by (simp add: unlink_def upd_entry_def)
      have "chain ((dirties ?db')(h := None)) (A @ B)"
        using link_chain_middle[OF sA chB' False B c e] s by simp
      then have "flush_list (?db'\<lparr>dirties := (dirties ?db')(h := None)\<rparr>) (A @ B)"
        using L s False B lastA hdB by (auto simp: flush_list_def)
      moreover have "same_cores db ?db'" using c e ne by (auto simp: same_cores_def core_def)
      ultimately show ?thesis using u by blast
    qed
  qed
qed

subsection \<open>The operations keep the list\<close>

lemma forChilds_same: "core c = core c' \<Longrightarrow> forChilds c = forChilds c'"
  by (auto simp: forChilds_def core_def split: node.split sum.split)

lemma db_insert_new:
  assumes "flush_list db L" and "dirties db h = None" and "forChilds (new_cachedNode n) = Inr cs"
  defines "db1 \<equiv> foldl incr_parents db cs"
  shows "\<exists>db'. db_insert h n db = Inr db' \<and> flush_list db' (L @ [h]) \<and>
    same_cores (db1\<lparr>dirties := (dirties db1)(h \<mapsto> new_cachedNode n)\<rparr>) db'"
proof -
  let ?e = "(new_cachedNode n)\<lparr>flushPrev := newest db1\<rparr>"
  let ?db2 = "db1\<lparr>dirties := (dirties db1)(h \<mapsto> ?e)\<rparr>"
  have "flush_list db1 L" "h \<notin> dom (dirties db1)" using assms(1,2) by (auto simp: db1_def)
  moreover have "flushNext ?e = zeroHash" "flushPrev ?e = newest db1" by (simp_all add: new_cachedNode_def)
  ultimately obtain db' where "flush_list db' (L @ [h])" and s: "same_cores ?db2 db'"
    and e: "(if oldest ?db2 = zeroHash then Inr (?db2\<lparr>oldest := h, newest := h\<rparr>)
      else case upd_entry (newest ?db2) (\<lambda>e. e\<lparr>flushNext := h\<rparr>) ?db2 of
        Inl e \<Rightarrow> Inl e | Inr db3 \<Rightarrow> Inr (db3\<lparr>newest := h\<rparr>)) = Inr db'"
    using flush_list_append[of db1 L h ?e] by blast
  moreover have "db_insert h n db = Inr db'"
    unfolding e[symmetric] by (simp add: db_insert_def Let_def db1_def assms(2,3))
  moreover have "same_cores (db1\<lparr>dirties := (dirties db1)(h \<mapsto> new_cachedNode n)\<rparr>) db'"
    using s by (simp add: same_cores_def core_def)
  ultimately show ?thesis by blast
qed

lemma db_insert_flush:
  assumes "flush_list db L" and "db_insert h n db = Inr db'"
  shows "flush_list db' (if h \<in> dom (dirties db) then L else L @ [h])"
proof (cases "dirties db h")
  case None
  then obtain cs where cs: "forChilds (new_cachedNode n) = Inr cs"
    using assms(2) by (auto simp: db_insert_def Let_def split: sum.splits)
  then show ?thesis using db_insert_new[OF assms(1) None cs] assms(2) None by (simp add: domIff)
next
  case (Some c)
  then show ?thesis using assms by (auto simp: db_insert_def)
qed

lemma forChilds_new: "forGatherChildren n = Inr hs \<Longrightarrow> \<exists>cs. forChilds (new_cachedNode n) = Inr cs"
  by (cases n) (simp_all add: forChilds_def new_cachedNode_def)

lemma db_insert_ok:
  assumes "flush_list db L" and "forGatherChildren n = Inr hs"
  shows "\<exists>db'. db_insert h n db = Inr db'"
proof (cases "dirties db h")
  case None
  obtain cs where "forChilds (new_cachedNode n) = Inr cs" using forChilds_new[OF assms(2)] by blast
  then show ?thesis using db_insert_new[OF assms(1) None] by blast
qed (simp add: db_insert_def)

lemma upd_entry_children_flush:
  assumes "upd_entry h f db = Inr db'" and "\<And>c. flushPrev (f c) = flushPrev c"
    and "\<And>c. flushNext (f c) = flushNext c"
  shows "flush_list db' L = flush_list db L"
  by (rule flush_list_cong) (use assms in \<open>auto simp: upd_entry_def split: option.splits\<close>)

lemma reference_flush: "reference c p db = Inr db' \<Longrightarrow> flush_list db' L = flush_list db L"
  by (auto simp: reference_def upd_entry_children_flush split: if_splits option.splits)

lemma reference_ok: "p \<in> dom (dirties db) \<Longrightarrow> \<exists>db'. reference c p db = Inr db'"
proof -
  assume "p \<in> dom (dirties db)"
  then obtain e e' where "dirties db p = Some e" and "dirties (incr_parents db c) p = Some e'"
    using incr_parents_fields(4)[of db c] by blast
  then show ?thesis by (simp add: reference_def upd_entry_def)
qed

lemma remove1_split: "h \<notin> set A \<Longrightarrow> remove1 h (A @ h # B) = A @ B"
  by (simp add: remove1_append)

lemma cleaner_Put_flush:
  assumes L: "flush_list db L" and h: "BytesToHash key \<noteq> zeroHash"
  shows "\<exists>db'. cleaner_Put db key v = Inr db' \<and> flush_list db' (remove1 (BytesToHash key) L) \<and>
    diskdb db' = diskdb db \<and>
    (\<forall>k. map_option core (dirties db' k) =
       (if k = BytesToHash key then None else map_option core (dirties db k)))"
proof (cases "dirties db (BytesToHash key)")
  case None
  then have "BytesToHash key \<notin> set L" using L by (auto simp: flush_list_def)
  with None L show ?thesis by (simp add: cleaner_Put_def remove1_idem)
next
  case (Some node)
  then have "BytesToHash key \<in> set L" using L h by (auto simp: flush_list_def)
  then obtain A B where AB: "L = A @ BytesToHash key # B" by (auto simp: in_set_conv_decomp)
  then show ?thesis
    using unlink_flush_list[OF L[unfolded AB] Some] flush_list_split(1)[OF L[unfolded AB]] Some
    by (auto simp: cleaner_Put_def same_cores_def remove1_split)
qed

end
