(* ===== verification/Triedb_Commit.thy ===== *)
theory Triedb_Commit
  imports Triedb_Flush
begin

section \<open>Committing moves nodes to disk without losing any\<close>

text \<open>
  \<open>Commit\<close> walks the references below a node, children first, queues every dirty node in
  a batch, and flushes the batch whenever it has reached the ideal size.  The theorems here
  say that the walk ends, that every hash reads the same before and after, and that the
  nodes reachable from the committed one end up on disk and leave the cache.
\<close>

text \<open>What a hash reads as: the dirty entry's encoding, or else what the store holds.\<close>

definition blob_view :: "TrieDB \<Rightarrow> hash \<Rightarrow> bytes" where
  "blob_view db h =
    (case dirties db h of
       Some c \<Rightarrow> (case cached_rlp c of Inl _ \<Rightarrow> [] | Inr b \<Rightarrow> b)
     | None \<Rightarrow> (case memdb_lookup (diskdb db) h of None \<Rightarrow> [] | Some b \<Rightarrow> b))"

lemma memdb_Get_lookup:
  "(case memdb_Get d h of Inl _ \<Rightarrow> [] | Inr enc \<Rightarrow> enc) =
     (case memdb_lookup d h of None \<Rightarrow> [] | Some b \<Rightarrow> b)"
  by (simp add: memdb_lookup_def split: sum.split)

lemma NodeBlob_view:
  assumes "h \<noteq> zeroHash" and "\<And>c. dirties db h = Some c \<Longrightarrow> \<exists>b. cached_rlp c = Inr b"
  shows "NodeBlob db own path h = Inr (blob_view db h)"
  using assms
  by (auto simp: NodeBlob_def db_nodeBlob_def blob_view_def memdb_Get_lookup Let_def
      split: option.splits)

subsection \<open>Well-formed caches\<close>

text \<open>
  Every dirty node but the metaroot has a 32-byte hash, an encoding, and references that
  are acyclic: \<open>rank\<close> decreases along them.  The flush-list order is such a rank when
  children are inserted before their parents.
\<close>

definition entry_ok :: "(hash \<Rightarrow> nat) \<Rightarrow> TrieDB \<Rightarrow> hash \<Rightarrow> cachedNode \<Rightarrow> bool" where
  "entry_ok rank db h c \<longleftrightarrow> length h = HashLength \<and> (\<exists>b. cached_rlp c = Inr b) \<and>
     (\<exists>cs. forChilds c = Inr cs \<and>
       (\<forall>j \<in> set cs. j \<noteq> zeroHash \<and> (j \<in> dom (dirties db) \<longrightarrow> rank j < rank h)))"

definition cache_ok :: "(hash \<Rightarrow> nat) \<Rightarrow> TrieDB \<Rightarrow> bool" where
  "cache_ok rank db \<longleftrightarrow> (\<exists>L. flush_list db L) \<and> memdb_open (diskdb db) \<and>
     (\<forall>h c. dirties db h = Some c \<longrightarrow> h \<noteq> zeroHash \<longrightarrow> entry_ok rank db h c)"

text \<open>The hashes a commit of \<open>h\<close> walks over.\<close>

inductive reach :: "TrieDB \<Rightarrow> hash \<Rightarrow> hash \<Rightarrow> bool" for db h where
  reach_refl: "reach db h h"
| reach_step: "reach db h k \<Longrightarrow> dirties db k = Some c \<Longrightarrow> forChilds c = Inr cs \<Longrightarrow>
    j \<in> set cs \<Longrightarrow> reach db h j"

text \<open>A hash is saved when it is not dirty any more or is queued in the batch.\<close>

definition saved :: "TrieDB \<times> memBatch \<Rightarrow> hash \<Rightarrow> bool" where
  "saved st h \<longleftrightarrow> dirties (fst st) h = None \<or> h \<in> kv_key ` set (cached (snd st))"

definition queued_ok :: "TrieDB \<Rightarrow> keyvalue \<Rightarrow> bool" where
  "queued_ok db0 e \<longleftrightarrow> \<not> kv_delete e \<and> kv_key e \<noteq> zeroHash \<and> length (kv_key e) = HashLength \<and>
     (\<exists>c. dirties db0 (kv_key e) = Some c \<and> cached_rlp c = Inr (kv_value e))"

text \<open>The state of a commit that started in \<open>db0\<close>.\<close>

definition commit_inv :: "TrieDB \<Rightarrow> TrieDB \<times> memBatch \<Rightarrow> bool" where
  "commit_inv db0 st \<longleftrightarrow>
     (\<exists>L. flush_list (fst st) L) \<and> memdb_open (diskdb (fst st)) \<and>
     (\<forall>e \<in> set (cached (snd st)). queued_ok db0 e) \<and>
     (\<forall>h c. dirties (fst st) h = Some c \<longrightarrow> (\<exists>c0. dirties db0 h = Some c0 \<and> core c = core c0)) \<and>
     (\<forall>h c0. dirties db0 h = Some c0 \<longrightarrow> dirties (fst st) h = None \<longrightarrow>
        h \<noteq> zeroHash \<and> (\<exists>b. cached_rlp c0 = Inr b \<and> memdb_lookup (diskdb (fst st)) h = Some b)) \<and>
     (\<forall>h. h \<notin> dom (dirties db0) \<longrightarrow>
        memdb_lookup (diskdb (fst st)) h = memdb_lookup (diskdb db0) h) \<and>
     (\<forall>h c cs j. dirties db0 h = Some c \<longrightarrow> saved st h \<longrightarrow> forChilds c = Inr cs \<longrightarrow>
        j \<in> set cs \<longrightarrow> saved st j)"

lemma cached_rlp_core: "core c = core c' \<Longrightarrow> cached_rlp c = cached_rlp c'"
  by (simp add: cached_rlp_def core_def split: node.split)

subsection \<open>Submitting a batch\<close>

lemma last_op_unique:
  "(\<And>op. (k, op) \<in> set log \<Longrightarrow> op = r) \<Longrightarrow>
     last_op log k = (if k \<in> fst ` set log then Some r else None)"
  by (induction log) (auto split: option.split, metis fst_conv image_eqI)

lemma queued_lookup:
  assumes "\<forall>e \<in> set (cached b). queued_ok db0 e" and "memdb_open d" and "batch_Submit b d = Inr d'"
  shows "memdb_lookup d' h =
    (if h \<in> kv_key ` set (cached b)
     then (case dirties db0 h of None \<Rightarrow> None
           | Some c \<Rightarrow> (case cached_rlp c of Inl _ \<Rightarrow> None | Inr v \<Rightarrow> Some v))
     else memdb_lookup d h)"
proof -
  let ?r = "case dirties db0 h of None \<Rightarrow> None
    | Some c \<Rightarrow> (case cached_rlp c of Inl _ \<Rightarrow> None | Inr v \<Rightarrow> Some v)"
  have "op = ?r" if "(h, op) \<in> set (batch_log b)" for op
    using that assms(1) by (fastforce simp: batch_log_def queued_ok_def)
  moreover have "fst ` set (batch_log b) = kv_key ` set (cached b)"
    by (force simp: batch_log_def)
  ultimately have "last_op (batch_log b) h =
      (if h \<in> kv_key ` set (cached b) then Some ?r else None)"
    using last_op_unique[of h "batch_log b" ?r] by simp
  then show ?thesis using mem.submit_lookup[OF assms(2,3), of h] by simp
qed

lemma clean_entries:
  assumes "flush_list db L" and "\<forall>e \<in> set es. queued_ok db0 e"
  shows "\<exists>db' L'. foldE (\<lambda>w e. if kv_delete e then cleaner_Delete w (kv_key e)
        else cleaner_Put w (kv_key e) (kv_value e)) db es = Inr db' \<and>
    flush_list db' L' \<and> diskdb db' = diskdb db \<and>
    (\<forall>k. map_option core (dirties db' k) =
       (if k \<in> kv_key ` set es then None else map_option core (dirties db k)))"
  using assms
proof (induction es arbitrary: db L)
  case (Cons e es)
  have e: "\<not> kv_delete e" "BytesToHash (kv_key e) = kv_key e" "kv_key e \<noteq> zeroHash"
    using Cons.prems(2) by (simp_all add: queued_ok_def BytesToHash_id HashLength_def)
  obtain db1 where 1: "cleaner_Put db (kv_key e) (kv_value e) = Inr db1"
      "flush_list db1 (remove1 (kv_key e) L)" "diskdb db1 = diskdb db"
      "\<And>k. map_option core (dirties db1 k) = (if k = kv_key e then None else map_option core (dirties db k))"
    using cleaner_Put_flush[OF Cons.prems(1), of "kv_key e" "kv_value e"] e by auto
  show ?case
    using Cons.IH[OF 1(2)] Cons.prems(2) 1 e(1) by fastforce
qed auto

lemma commit_invD:
  assumes "commit_inv db0 (db, b)"
  shows "\<exists>L. flush_list db L" "memdb_open (diskdb db)" "\<forall>e \<in> set (cached b). queued_ok db0 e"
    and "dirties db h = Some c \<Longrightarrow> \<exists>c0. dirties db0 h = Some c0 \<and> core c = core c0"
    and "dirties db0 h = Some c0 \<Longrightarrow> dirties db h = None \<Longrightarrow>
      h \<noteq> zeroHash \<and> (\<exists>v. cached_rlp c0 = Inr v \<and> memdb_lookup (diskdb db) h = Some v)"
    and "h \<notin> dom (dirties db0) \<Longrightarrow> memdb_lookup (diskdb db) h = memdb_lookup (diskdb db0) h"
    and "dirties db0 h = Some c0 \<Longrightarrow> saved (db, b) h \<Longrightarrow> forChilds c0 = Inr cs \<Longrightarrow> j \<in> set cs \<Longrightarrow>
      saved (db, b) j"
  using assms unfolding commit_inv_def fst_conv snd_conv by blast+

lemma map_option_core_None: "map_option core x = None \<longleftrightarrow> x = None"
  by (cases x) simp_all

lemma submit_run:
  assumes inv: "commit_inv db0 (db, b)"
  shows "\<exists>db'. db_submit b db = Inr (db', batch_Reset b) \<and> commit_inv db0 (db', batch_Reset b) \<and>
    (\<forall>k. dirties db' k = None \<longleftrightarrow> saved (db, b) k)"
proof -
  note d = commit_invD[OF inv]
  let ?K = "kv_key ` set (cached b)"
  obtain L where L: "flush_list db L" using d(1) by blast
  obtain disk where disk: "batch_Submit b (diskdb db) = Inr disk" "memdb_open disk"
    using mem.submit_open[OF d(2)] by blast
  note look = queued_lookup[OF d(3) d(2) disk(1)]
  have "flush_list (db\<lparr>diskdb := disk\<rparr>) L" using L by (simp add: flush_list_def)
  from clean_entries[OF this d(3)]
  obtain db' L' where run: "batch_Write cleaner_Put cleaner_Delete b (db\<lparr>diskdb := disk\<rparr>) = Inr db'"
    and L': "flush_list db' L'" and dd: "diskdb db' = disk"
    and core': "\<And>k. map_option core (dirties db' k) =
      (if k \<in> ?K then None else map_option core (dirties db k))"
    by (auto simp: batch_Write_def)
  have none: "dirties db' k = None \<longleftrightarrow> saved (db, b) k" for k
    using core'[of k] map_option_core_None[of "dirties db' k"] map_option_core_None[of "dirties db k"]
    by (auto simp: saved_def split: if_splits)
  have old: "\<exists>c1. dirties db k = Some c1 \<and> core c = core c1" if "dirties db' k = Some c" for k c
    using core'[of k] that by (cases "dirties db k") (auto split: if_splits)
  have saved': "saved (db', batch_Reset b) k \<longleftrightarrow> saved (db, b) k" for k
    using none[of k] by (simp add: saved_def batch_Reset_def)
  have "commit_inv db0 (db', batch_Reset b)"
    unfolding commit_inv_def fst_conv snd_conv
  proof (intro conjI allI impI)
    show "\<exists>L. flush_list db' L" "memdb_open (diskdb db')"
      "\<forall>e \<in> set (cached (batch_Reset b)). queued_ok db0 e"
      using L' dd disk(2) by (auto simp: batch_Reset_def)
  next
    fix h c assume "dirties db' h = Some c"
    then show "\<exists>c0. dirties db0 h = Some c0 \<and> core c = core c0" using old d(4) by metis
  next
    fix h c0 assume c0: "dirties db0 h = Some c0" and "dirties db' h = None"
    then have s: "saved (db, b) h" using none by simp
    show "h \<noteq> zeroHash"
      using s d(3) d(5)[OF c0] by (auto simp: saved_def queued_ok_def)
    show "\<exists>v. cached_rlp c0 = Inr v \<and> memdb_lookup (diskdb db') h = Some v"
    proof (cases "h \<in> ?K")
      case True
      then obtain e where "e \<in> set (cached b)" "kv_key e = h" by blast
      then obtain v where "cached_rlp c0 = Inr v" using d(3) c0 by (auto simp: queued_ok_def)
      then show ?thesis using look[of h] True c0 dd by simp
    next
      case False
      then show ?thesis using s look[of h] d(5)[OF c0] dd by (simp add: saved_def)
    qed
  next
    fix h assume h: "h \<notin> dom (dirties db0)"
    then have "h \<notin> ?K" using d(3) by (auto simp: queued_ok_def)
    then show "memdb_lookup (diskdb db') h = memdb_lookup (diskdb db0) h"
      using look[of h] d(6)[OF h] dd by simp
  next
    fix h c cs j
    assume "dirties db0 h = Some c" "saved (db', batch_Reset b) h" "forChilds c = Inr cs" "j \<in> set cs"
    then show "saved (db', batch_Reset b) j" using d(7) saved' by blast
  qed
  then show ?thesis using none run disk(1) by (auto simp: db_submit_def)
qed

subsection \<open>The walk\<close>

lemma commit_children:
  assumes "commit_inv db0 st"
    and "\<And>c st. c \<in> set cs \<Longrightarrow> commit_inv db0 st \<Longrightarrow>
      \<exists>st'. f st c = Inr st' \<and> commit_inv db0 st' \<and> (\<forall>k. saved st k \<longrightarrow> saved st' k) \<and> saved st' c"
  shows "\<exists>st'. foldE f st cs = Inr st' \<and> commit_inv db0 st' \<and> (\<forall>k. saved st k \<longrightarrow> saved st' k) \<and>
    (\<forall>c \<in> set cs. saved st' c)"
  using assms
proof (induction cs arbitrary: st)
  case (Cons c cs)
  obtain st1 where 1: "f st c = Inr st1" "commit_inv db0 st1" "\<forall>k. saved st k \<longrightarrow> saved st1 k" "saved st1 c"
    using Cons.prems(2)[OF _ Cons.prems(1), of c] by auto
  obtain st2 where 2: "foldE f st1 cs = Inr st2" "commit_inv db0 st2"
      "\<forall>k. saved st1 k \<longrightarrow> saved st2 k" "\<forall>c \<in> set cs. saved st2 c"
    using Cons.IH[OF 1(2)] Cons.prems(2) by auto
  show ?case using 1 2 by auto
qed simp

text \<open>Queueing a node whose children are saved.\<close>

lemma put_inv:
  assumes inv: "commit_inv db0 (db, b)" and h: "dirties db0 h = Some c0" "h \<noteq> zeroHash" "length h = HashLength"
    and r: "cached_rlp c0 = Inr v"
    and cs: "forChilds c0 = Inr cs" "\<forall>j \<in> set cs. saved (db, b) j"
  shows "commit_inv db0 (db, batch_Put h v b)"
proof -
  note d = commit_invD[OF inv]
  have sv: "saved (db, batch_Put h v b) k \<longleftrightarrow> k = h \<or> saved (db, b) k" for k
    by (auto simp: saved_def batch_Put_def CopyBytes_def)
  show ?thesis
    unfolding commit_inv_def fst_conv snd_conv
  proof (intro conjI allI impI)
    show "\<exists>L. flush_list db L" "memdb_open (diskdb db)" using d(1,2) .
    show "\<forall>e \<in> set (cached (batch_Put h v b)). queued_ok db0 e"
      using d(3) h r by (auto simp: batch_Put_def queued_ok_def CopyBytes_def)
  next
    fix k c cs' j
    assume a: "dirties db0 k = Some c" "saved (db, batch_Put h v b) k" "forChilds c = Inr cs'" "j \<in> set cs'"
    show "saved (db, batch_Put h v b) j"
    proof (cases "k = h")
      case True
      then show ?thesis using a h(1) cs by (auto simp: sv)
    next
      case False
      then show ?thesis using a d(7) by (auto simp: sv)
    qed
  qed (use d(4-6) in blast)+
qed

lemma saved_batch_Put: "saved (db, b) k \<Longrightarrow> saved (db, batch_Put h v b) k" "saved (db, batch_Put h v b) h"
  by (auto simp: saved_def batch_Put_def CopyBytes_def)

lemma flush_step:
  assumes "commit_inv db0 (db, b)"
  shows "\<exists>st'. (if ValueSize b \<ge> IdealBatchSize then db_submit b db else Inr (db, b)) = Inr st' \<and>
    commit_inv db0 st' \<and> (\<forall>k. saved (db, b) k \<longrightarrow> saved st' k)"
  using assms submit_run[OF assms] by (auto simp: saved_def)

lemma commit_run:
  assumes wf: "\<And>k c. dirties db0 k = Some c \<Longrightarrow> k \<noteq> zeroHash \<Longrightarrow> entry_ok rank db0 k c"
    and "commit_inv db0 st" and "h \<noteq> zeroHash" and "h \<in> dom (dirties db0) \<Longrightarrow> Suc (rank h) < fuel" and "0 < fuel"
  shows "\<exists>st'. db_commit fuel h st = Inr st' \<and> commit_inv db0 st' \<and>
    (\<forall>k. saved st k \<longrightarrow> saved st' k) \<and> saved st' h"
  using assms(2-)
proof (induction fuel arbitrary: h st)
  case (Suc fuel)
  obtain db b where st: "st = (db, b)" by (cases st)
  note inv = Suc.prems(1)[unfolded st]
  show ?case
  proof (cases "dirties db h")
    case None
    then show ?thesis using inv by (auto simp: st saved_def)
  next
    case (Some node)
    then obtain c0 where c0: "dirties db0 h = Some c0" "core node = core c0"
      using commit_invD(4)[OF inv] by blast
    then obtain cs v where ok: "length h = HashLength" "cached_rlp c0 = Inr v" "forChilds c0 = Inr cs"
      "\<forall>j \<in> set cs. j \<noteq> zeroHash \<and> (j \<in> dom (dirties db0) \<longrightarrow> rank j < rank h)"
      using wf[OF c0(1) Suc.prems(2)] by (auto simp: entry_ok_def)
    have node: "cached_rlp node = Inr v" "forChilds node = Inr cs"
      using c0(2) ok cached_rlp_core forChilds_same by metis+
    have "\<exists>st'. foldE (\<lambda>st child. db_commit fuel child st) (db, b) cs = Inr st' \<and> commit_inv db0 st' \<and>
        (\<forall>k. saved (db, b) k \<longrightarrow> saved st' k) \<and> (\<forall>c \<in> set cs. saved st' c)"
      using Suc.prems(3) c0(1) ok(4)
      by (intro commit_children[OF inv] Suc.IH) fastforce+
    then obtain db1 b1 where 1: "foldE (\<lambda>st child. db_commit fuel child st) (db, b) cs = Inr (db1, b1)"
        "commit_inv db0 (db1, b1)" "\<forall>k. saved (db, b) k \<longrightarrow> saved (db1, b1) k" "\<forall>c \<in> set cs. saved (db1, b1) c"
      by auto
    have inv2: "commit_inv db0 (db1, batch_Put h v b1)"
      using put_inv[OF 1(2) c0(1) Suc.prems(2) ok(1-3)] 1(4) by blast
    show ?thesis
      using flush_step[OF inv2] Some node 1 saved_batch_Put by (fastforce simp: st Let_def)
  qed
qed simp

subsection \<open>What a commit promises\<close>

lemma commit_inv_start:
  assumes "cache_ok rank db"
  shows "commit_inv db (db, NewBatch)"
proof -
  have "\<exists>L. flush_list db L" "memdb_open (diskdb db)" using assms by (simp_all add: cache_ok_def)
  then show ?thesis
    unfolding commit_inv_def fst_conv snd_conv by (auto simp: NewBatch_def saved_def domIff)
qed

lemma commit_inv_view:
  assumes inv: "commit_inv db0 (db, b)"
  shows "blob_view db k = blob_view db0 k"
proof (cases "dirties db k")
  case (Some c)
  then obtain c0 where "dirties db0 k = Some c0" "core c = core c0" using commit_invD(4)[OF inv] by blast
  with Some show ?thesis using cached_rlp_core[of c c0] by (simp add: blob_view_def)
next
  case None
  show ?thesis
  proof (cases "dirties db0 k")
    case (Some c0)
    then obtain v where "cached_rlp c0 = Inr v" "memdb_lookup (diskdb db) k = Some v"
      using commit_invD(5)[OF inv] None by blast
    then show ?thesis using None Some by (simp add: blob_view_def)
  next
    case n0: None
    then have "memdb_lookup (diskdb db) k = memdb_lookup (diskdb db0) k"
      using commit_invD(6)[OF inv] by (simp add: domIff)
    then show ?thesis using None n0 by (simp add: blob_view_def)
  qed
qed

lemma commit_inv_reach:
  assumes "commit_inv db0 (db, b)" and "reach db0 h k" and "saved (db, b) h"
  shows "saved (db, b) k"
  using assms(2)
proof (induction rule: reach.induct)
  case (reach_step k c cs j)
  then show ?case using commit_invD(7)[OF assms(1)] by blast
qed (rule assms(3))

lemma Commit_run:
  assumes ok: "cache_ok rank db" and h: "h \<noteq> zeroHash" "Suc (rank h) < fuel"
  obtains db' b where "Commit fuel h db = Inr db'" "commit_inv db (db', b)" "cached b = []"
    "\<And>k. reach db h k \<Longrightarrow> dirties db' k = None"
proof -
  have wf: "entry_ok rank db k c" if "dirties db k = Some c" "k \<noteq> zeroHash" for k c
    using ok that by (simp add: cache_ok_def)
  obtain db1 b1 where 1: "db_commit fuel h (db, NewBatch) = Inr (db1, b1)" "commit_inv db (db1, b1)"
      "saved (db1, b1) h"
    using commit_run[OF wf commit_inv_start[OF ok] h(1), of fuel] h(2) by auto
  obtain db2 where 2: "db_submit b1 db1 = Inr (db2, batch_Reset b1)"
      "commit_inv db (db2, batch_Reset b1)" "\<And>k. dirties db2 k = None \<longleftrightarrow> saved (db1, b1) k"
    using submit_run[OF 1(2)] by blast
  show ?thesis
  proof (rule that)
    show "Commit fuel h db = Inr db2" using 1(1) 2(1) by (simp add: Commit_def)
    show "commit_inv db (db2, batch_Reset b1)" by (rule 2(2))
    show "cached (batch_Reset b1) = []" by (simp add: batch_Reset_def)
    show "dirties db2 k = None" if "reach db h k" for k
      using commit_inv_reach[OF 1(2) that 1(3)] 2(3) by blast
  qed
qed

lemma Commit_keeps_view:
  assumes "cache_ok rank db" and "h \<noteq> zeroHash" and "Suc (rank h) < fuel"
  shows "\<exists>db'. Commit fuel h db = Inr db' \<and> (\<forall>k. blob_view db' k = blob_view db k) \<and>
    (\<exists>L. flush_list db' L) \<and> memdb_open (diskdb db')"
  using Commit_run[OF assms] commit_inv_view commit_invD(1,2) by metis

lemma Commit_persists:
  assumes "cache_ok rank db" and "h \<noteq> zeroHash" and "Suc (rank h) < fuel"
  shows "\<exists>db'. Commit fuel h db = Inr db' \<and>
    (\<forall>k c. reach db h k \<longrightarrow> dirties db k = Some c \<longrightarrow> dirties db' k = None \<and>
       (\<exists>v. cached_rlp c = Inr v \<and> memdb_lookup (diskdb db') k = Some v))"
  using Commit_run[OF assms] commit_invD(5) by metis

end
