(* ===== verification/Props_Db.thy ===== *)
theory Props_Db
  imports Triedb_Commit
begin

section \<open>Properties of the stores\<close>

text \<open>
  The properties of the tracer, of the node sets, of the key-value store and of the trie
  database.  The small databases at the start are the inputs of the instances.
\<close>

subsection \<open>A small database\<close>

text \<open>Two dirty nodes: the second refers to the first by hash.\<close>

definition hash_a :: hash where
  "hash_a = replicate 32 0xAA"

definition hash_b :: hash where
  "hash_b = replicate 32 0xBB"

definition leaf_node :: node where
  "leaf_node = RawShortNode [0x20] (ValueNode [1])"

definition top_node :: node where
  "top_node = RawShortNode [0x11] (HashNode hash_a)"

definition two_nodes :: TrieDB where
  "two_nodes =
    \<lparr>diskdb = memdb_New,
     dirties = [zeroHash \<mapsto> new_cachedNode NilNode,
       hash_a \<mapsto> (new_cachedNode leaf_node)\<lparr>parents := 1, flushNext := hash_b\<rparr>,
       hash_b \<mapsto> (new_cachedNode top_node)\<lparr>flushPrev := hash_a\<rparr>],
     oldest = hash_a, newest = hash_b\<rparr>"

lemma hash_ab [simp]:
  "length hash_a = 32" "length hash_b = 32" "hash_a \<noteq> zeroHash" "hash_b \<noteq> zeroHash"
  "hash_a \<noteq> hash_b" "BytesToHash hash_a = hash_a"
  by (simp_all add: hash_a_def hash_b_def zeroHash_def BytesToHash_id HashLength_def)

lemma hash_ba [simp]: "zeroHash \<noteq> hash_a" "zeroHash \<noteq> hash_b" "hash_b \<noteq> hash_a"
  using hash_ab(3,4,5) by (metis)+

lemma forChilds_ab [simp]:
  "forChilds (new_cachedNode leaf_node) = Inr []"
  "forChilds (new_cachedNode top_node) = Inr [hash_a]"
  by (simp_all add: forChilds_def new_cachedNode_def leaf_node_def top_node_def)

text \<open>It is what two insertions into an empty database give.\<close>

lemma two_nodes_inserted:
  "foldE (\<lambda>db (h, n). db_insert h n db) (NewTrieDB memdb_New) [(hash_a, leaf_node), (hash_b, top_node)]
     = Inr two_nodes"
  by (simp add: db_insert_def NewTrieDB_def upd_entry_def incr_parents_def two_nodes_def Let_def
      new_cachedNode_def forChilds_def leaf_node_def top_node_def fun_upd_twist)

lemma two_nodes_list: "flush_list two_nodes [hash_a, hash_b]"
  by (auto simp: flush_list_def two_nodes_def chain_def linked_def link_next_def link_prev_def
      new_cachedNode_def)

definition ab_rank :: "hash \<Rightarrow> nat" where
  "ab_rank h = (if h = hash_b then 1 else 0)"

lemma two_nodes_ok: "cache_ok ab_rank two_nodes"
proof -
  have b: "nodeToBytes leaf_node = Inr (node_bytes leaf_node)"
    "nodeToBytes top_node = Inr (node_bytes top_node)"
    by (rule nodeToBytes_node_bytes;
        simp add: leaf_node_def top_node_def rlp_str_def rlp_list_def rlp_head_def)+
  have "entry_ok ab_rank two_nodes hash_a ((new_cachedNode leaf_node)\<lparr>parents := 1, flushNext := hash_b\<rparr>)"
    using b(1) by (simp add: entry_ok_def HashLength_def cached_rlp_def forChilds_def new_cachedNode_def
        leaf_node_def)
  moreover have "entry_ok ab_rank two_nodes hash_b ((new_cachedNode top_node)\<lparr>flushPrev := hash_a\<rparr>)"
    using b(2) by (simp add: entry_ok_def HashLength_def cached_rlp_def forChilds_def new_cachedNode_def
        top_node_def ab_rank_def)
  ultimately show ?thesis
    using two_nodes_list
    by (auto simp: cache_ok_def two_nodes_def memdb_open_def memdb_New_def split: if_splits)
qed

subsection \<open>The tracer and the node sets\<close>

text \<open>C21: After any sequence of creations and removals of nodes that is possible from the
  set \<open>S\<close> of present paths, the tracer lists exactly the paths present now but not at the
  start as inserts, and exactly those present at the start but not now as deletes.\<close>

theorem tracer_net_effect:
  assumes "events_ok S es"
  shows "set (insertList (foldl event_track (Some newTracer) es)) = foldl event_apply S es - S \<and>
    set (deleteList (foldl event_track (Some newTracer) es)) = S - foldl event_apply S es"
  using tracks_run[OF tracks_newTracer assms] by (simp add: tracks_def)

theorem tracer_net_effect_witness:
  "insertList (foldl event_track (Some newTracer) [Created [1], Removed [2], Created [2], Removed [1]]) = [] \<and>
   deleteList (foldl event_track (Some newTracer) [Created [1], Removed [2], Created [2], Removed [1]]) = []"
proof -
  have "events_ok {[2]} [Created [1], Removed [2], Created [2], Removed [1]]" by simp
  from tracer_net_effect[OF this] have
    "set (insertList (foldl event_track (Some newTracer) [Created [1], Removed [2], Created [2], Removed [1]])) = {}"
    "set (deleteList (foldl event_track (Some newTracer) [Created [1], Removed [2], Created [2], Removed [1]])) = {}"
    by auto
  then show ?thesis by (simp only: set_empty)
qed

text \<open>C25: Merging a node set fails exactly when a set of the same owner is there already;
  otherwise the merged sets answer for the new owner with the new set, for the others as
  before, and the owners stay distinct and in order.\<close>

theorem Merge_contract:
  assumes "merged_ok sets"
  shows "(Merge s sets = Inl (DuplicateOwner (owner s)) \<longleftrightarrow> owner s \<in> fst ` set sets) \<and>
    (Merge s sets = Inr sets' \<longleftrightarrow> owner s \<notin> fst ` set sets \<and> sets' = sets @ [(owner s, s)] \<and>
       map_of sets' = (map_of sets)(owner s \<mapsto> s) \<and> merged_ok sets')"
  using assms merged_ok_Merge[OF assms] Merge_lookup[of s sets sets'] Merge_Inr_iff[of s sets sets']
  by (auto simp: Merge_def map_of_eq_None_iff)

theorem Merge_contract_witness:
  "Merge (NewNodeSet hash_a) [(hash_a, NewNodeSet hash_a)] = Inl (DuplicateOwner hash_a)"
proof -
  have "merged_ok [(hash_a, NewNodeSet hash_a)]" by (simp add: merged_ok_def NewNodeSet_def)
  from Merge_contract[OF this, of "NewNodeSet hash_a"] show ?thesis
    by (simp add: NewNodeSet_def)
qed

subsection \<open>The key-value store\<close>

text \<open>C19: Submitting a batch to an open database always succeeds and makes the database
  answer, for every key, by the last operation queued for the key, and as before when there
  is none; replaying the batch into the database by single writes does the same.\<close>

theorem batch_Submit_semantics:
  assumes "memdb_open db"
  shows "\<exists>db'. batch_Submit b db = Inr db' \<and> memdb_open db' \<and>
    batch_Write memdb_Put memdb_Delete b db = Inr db' \<and>
    (\<forall>k. memdb_lookup db' k =
       (case last_op (batch_log b) k of None \<Rightarrow> memdb_lookup db k | Some r \<Rightarrow> r))"
  using mem.submit_open[OF assms, of b] mem.submit_lookup[OF assms, of b]
    batch_Write_memdb[OF assms, of b] by auto

theorem batch_Submit_semantics_witness:
  "\<exists>db'. batch_Submit (batch_Delete [1] (batch_Put [1] [7] NewBatch)) memdb_New = Inr db' \<and>
     memdb_lookup db' [1] = None"
proof -
  have "memdb_open memdb_New" by (simp add: memdb_open_def memdb_New_def)
  from batch_Submit_semantics[OF this, of "batch_Delete [1] (batch_Put [1] [7] NewBatch)"]
  show ?thesis by (auto simp: batch_log_def batch_Put_def batch_Delete_def NewBatch_def CopyBytes_def)
qed

text \<open>On an open database the single operations agree with the lookup function: \<open>Has\<close>
  says whether there is a value, \<open>Put\<close> and \<open>Delete\<close> change the one key, and on a closed
  database all four report the error.\<close>

theorem memdb_operations:
  "(case kv db of
      None \<Rightarrow> memdb_Has db k = Inl DatabaseClosed \<and> memdb_Get db k = Inl DatabaseClosed \<and>
        memdb_Put db k v = Inl DatabaseClosed \<and> memdb_Delete db k = Inl DatabaseClosed
    | Some m \<Rightarrow> memdb_Has db k = Inr (m k \<noteq> None) \<and>
        memdb_Get db k = (case m k of None \<Rightarrow> Inl NotFound | Some x \<Rightarrow> Inr x) \<and>
        memdb_Put db k v = Inr \<lparr>kv = Some (m(k \<mapsto> v))\<rparr> \<and>
        memdb_Delete db k = Inr \<lparr>kv = Some (m(k := None))\<rparr>)"
  by (cases db)
    (auto simp: memdb_Has_def memdb_Get_def memdb_Put_def memdb_Delete_def CopyBytes_def
      split: option.split)

subsection \<open>The trie database\<close>

text \<open>C16: Inserting a node keeps the flush-list a doubly linked list of exactly the dirty
  hashes in insertion order: a new hash goes to its end, and inserting a hash that is
  there already leaves the list unchanged.\<close>

theorem db_insert_keeps_flush_list:
  assumes "flush_list db L" and "db_insert h n db = Inr db'"
  shows "flush_list db' (if h \<in> dom (dirties db) then L else L @ [h])"
  using assms by (rule db_insert_flush)

theorem db_insert_keeps_flush_list_witness:
  "\<exists>db. db_insert hash_a leaf_node (NewTrieDB memdb_New) = Inr db \<and> flush_list db [hash_a]"
proof -
  obtain db where db: "db_insert hash_a leaf_node (NewTrieDB memdb_New) = Inr db"
    using db_insert_new[OF flush_list_new, of memdb_New hash_a leaf_node "[]"]
    by (auto simp: NewTrieDB_def)
  from db_insert_keeps_flush_list[OF flush_list_new db] db show ?thesis
    by (simp add: NewTrieDB_def)
qed

text \<open>C17: The cleaner takes a node that reached the disk out of the cache and out of the
  flush-list, wherever it stands in the list, without a dangling link and without touching
  the nodes, counters and children of the other entries.\<close>

theorem cleaner_Put_removes:
  assumes "flush_list db L" and "BytesToHash key \<noteq> zeroHash"
  shows "\<exists>db'. cleaner_Put db key v = Inr db' \<and> flush_list db' (remove1 (BytesToHash key) L) \<and>
    diskdb db' = diskdb db \<and>
    (\<forall>k. map_option core (dirties db' k) =
       (if k = BytesToHash key then None else map_option core (dirties db k)))"
  using assms by (rule cleaner_Put_flush)

theorem cleaner_Put_removes_witness:
  "\<exists>db'. cleaner_Put two_nodes hash_a [] = Inr db' \<and> flush_list db' [hash_b]"
proof -
  have "BytesToHash hash_a \<noteq> zeroHash" by simp
  from cleaner_Put_removes[OF two_nodes_list this, of "[]"] show ?thesis by auto
qed

text \<open>C11: Committing a well-formed cache returns, and never changes what a hash reads as:
  every blob is in the cache or on disk, before, and after.\<close>

theorem Commit_preserves_blobs:
  assumes "cache_ok rank db" and "h \<noteq> zeroHash" and "Suc (rank h) < fuel"
  shows "\<exists>db'. Commit fuel h db = Inr db' \<and> (\<forall>k. blob_view db' k = blob_view db k) \<and>
    (\<exists>L. flush_list db' L) \<and> memdb_open (diskdb db')"
  using assms by (rule Commit_keeps_view)

theorem Commit_preserves_blobs_witness:
  "\<exists>db'. Commit 3 hash_b two_nodes = Inr db' \<and> blob_view db' hash_a = blob_view two_nodes hash_a"
  using Commit_preserves_blobs[OF two_nodes_ok hash_ab(4), of 3] by (auto simp: ab_rank_def)

text \<open>C12: After a commit every dirty node reachable from the committed hash is on disk with
  its encoding and has left the cache.\<close>

theorem Commit_writes_reachable:
  assumes "cache_ok rank db" and "h \<noteq> zeroHash" and "Suc (rank h) < fuel"
  shows "\<exists>db'. Commit fuel h db = Inr db' \<and>
    (\<forall>k c. reach db h k \<longrightarrow> dirties db k = Some c \<longrightarrow> dirties db' k = None \<and>
       (\<exists>v. cached_rlp c = Inr v \<and> memdb_lookup (diskdb db') k = Some v))"
  using assms by (rule Commit_persists)

theorem Commit_writes_reachable_witness:
  "\<exists>db' v. Commit 3 hash_b two_nodes = Inr db' \<and> memdb_lookup (diskdb db') hash_a = Some v"
proof -
  have "dirties two_nodes hash_b = Some ((new_cachedNode top_node)\<lparr>flushPrev := hash_a\<rparr>)"
    by (simp add: two_nodes_def)
  moreover have "forChilds ((new_cachedNode top_node)\<lparr>flushPrev := hash_a\<rparr>) = Inr [hash_a]"
    by (simp add: forChilds_def new_cachedNode_def top_node_def)
  ultimately have "reach two_nodes hash_b hash_a"
    using reach_step[OF reach_refl] by fastforce
  moreover have "\<exists>c. dirties two_nodes hash_a = Some c" by (simp add: two_nodes_def)
  ultimately show ?thesis
    using Commit_writes_reachable[OF two_nodes_ok hash_ab(4), of 3] by (fastforce simp: ab_rank_def)
qed

end
