(* ===== verification/Trie_Ops.thy ===== *)
theory Trie_Ops
  imports Triedb
begin

section \<open>The trie (trie/trie.go, trie/trie_reader.go)\<close>

text \<open>
  Reading, inserting and deleting.  The methods run in a small state monad: they carry the
  tracer of the trie, also past an error, and return a Go error or a result.  The recursion
  follows the nodes of the trie, which may have to be loaded from the database, so the
  recursive methods take fuel; \<open>trie_fuel\<close> is what the entry points pass, and
  \<open>tryGet_rep\<close>, \<open>insert_rep\<close> and \<open>delete_rep\<close> (theory \<open>Trie_Correct\<close>) show that it is
  enough for every trie that represents a map.  On a corrupt database, where a loaded short
  node may have an empty key, the code itself need not end.
\<close>

subsection \<open>The monad\<close>

type_synonym 'a trie_m = "tracer \<Rightarrow> (go_error + 'a) \<times> tracer"

definition tm_ret :: "'a \<Rightarrow> 'a trie_m" where
  "tm_ret x = (\<lambda>t. (Inr x, t))"

definition tm_fail :: "go_error \<Rightarrow> 'a trie_m" where
  "tm_fail e = (\<lambda>t. (Inl e, t))"

definition tm_lift :: "go_error + 'a \<Rightarrow> 'a trie_m" where
  "tm_lift r = (\<lambda>t. (r, t))"

definition tm_track :: "(tracer \<Rightarrow> tracer) \<Rightarrow> unit trie_m" where
  "tm_track f = (\<lambda>t. (Inr (), f t))"

definition tm_bind :: "'a trie_m \<Rightarrow> ('a \<Rightarrow> 'b trie_m) \<Rightarrow> 'b trie_m" where
  "tm_bind m f = (\<lambda>t. case m t of (Inl e, t') \<Rightarrow> (Inl e, t') | (Inr x, t') \<Rightarrow> f x t')"

subsection \<open>State and node access\<close>

record Trie =
  root :: node
  reader :: "TrieDB option"
  capture :: tracer

type_synonym ID = hash

definition TrieID :: "hash \<Rightarrow> ID" where
  "TrieID h = h"

definition newFlag :: nodeFlag where
  "newFlag = \<lparr>fl_hash = None, dirty = True\<rparr>"

text \<open>
  The node and blob readers of a trie.  The database methods return no error, so a left
  value can only be a panic.
\<close>

definition trie_node :: "TrieDB option \<Rightarrow> bytes \<Rightarrow> hash \<Rightarrow> go_error + node" where
  "trie_node rd path h =
    (case rd of None \<Rightarrow> Inl (MissingNodeError h path)
     | Some db \<Rightarrow>
         (case Node db zeroHash path h of Inl e \<Rightarrow> Inl e
          | Inr n \<Rightarrow> if n = NilNode then Inl (MissingNodeError h path) else Inr n))"

definition trie_nodeBlob :: "TrieDB option \<Rightarrow> bytes \<Rightarrow> hash \<Rightarrow> go_error + bytes" where
  "trie_nodeBlob rd path h =
    (case rd of None \<Rightarrow> Inl (MissingNodeError h path)
     | Some db \<Rightarrow>
         (case NodeBlob db zeroHash path h of Inl e \<Rightarrow> Inl e
          | Inr blob \<Rightarrow> if length blob = 0 then Inl (MissingNodeError h path) else Inr blob))"

definition resolveAndTrack :: "TrieDB option \<Rightarrow> bytes \<Rightarrow> bytes \<Rightarrow> node trie_m" where
  "resolveAndTrack rd n prefix =
    tm_bind (tm_lift (trie_nodeBlob rd prefix (BytesToHash n))) (\<lambda>blob.
    tm_bind (tm_track (onRead prefix blob)) (\<lambda>_.
    tm_lift (mustDecodeNode (Some n) blob)))"

definition resolve :: "TrieDB option \<Rightarrow> node \<Rightarrow> bytes \<Rightarrow> node trie_m" where
  "resolve rd n prefix =
    (case n of HashNode h \<Rightarrow> resolveAndTrack rd h prefix | _ \<Rightarrow> tm_ret n)"

text \<open>Reading and writing \<open>Children[i]\<close>; an index past the array panics.\<close>

definition get_child :: "node list \<Rightarrow> byte \<Rightarrow> go_error + node" where
  "get_child cs i = (if unat i < length cs then Inr (cs ! unat i) else Inl Panic)"

definition set_child :: "node list \<Rightarrow> byte \<Rightarrow> node \<Rightarrow> go_error + node list" where
  "set_child cs i c = (if unat i < length cs then Inr (cs[unat i := c]) else Inl Panic)"

subsection \<open>Get\<close>

fun tryGet :: "nat \<Rightarrow> TrieDB option \<Rightarrow> node \<Rightarrow> bytes \<Rightarrow> nat \<Rightarrow> (bytes option \<times> node \<times> bool) trie_m" where
  "tryGet 0 rd n key pos = tm_fail OutOfFuel"
| "tryGet (Suc fuel) rd n key pos =
    (case n of
       NilNode \<Rightarrow> tm_ret (None, NilNode, False)
     | ValueNode v \<Rightarrow> tm_ret (Some v, n, False)
     | ShortNode k v fl \<Rightarrow>
         if length key < pos + length k \<or> k \<noteq> subslice pos (pos + length k) key
         then tm_ret (None, n, False)
         else tm_bind (tryGet fuel rd v key (pos + length k)) (\<lambda>(value, newnode, didResolve).
           tm_ret (value, if didResolve then ShortNode k newnode fl else n, didResolve))
     | FullNode cs fl \<Rightarrow>
         if pos \<ge> length key then tm_fail Panic
         else tm_bind (tm_lift (get_child cs (key ! pos))) (\<lambda>c.
           tm_bind (tryGet fuel rd c key (pos + 1)) (\<lambda>(value, newnode, didResolve).
             tm_ret (value, if didResolve then FullNode (cs[unat (key ! pos) := newnode]) fl else n,
               didResolve)))
     | HashNode h \<Rightarrow>
         tm_bind (resolveAndTrack rd h (take pos key)) (\<lambda>child.
           tm_bind (tryGet fuel rd child key pos) (\<lambda>(value, newnode, _). tm_ret (value, newnode, True)))
     | _ \<Rightarrow> tm_fail Panic)"

subsection \<open>Insert\<close>

fun trie_insert :: "nat \<Rightarrow> TrieDB option \<Rightarrow> node \<Rightarrow> bytes \<Rightarrow> bytes \<Rightarrow> node \<Rightarrow> (bool \<times> node) trie_m" where
  "trie_insert 0 rd n prefix key value = tm_fail OutOfFuel"
| "trie_insert (Suc fuel) rd n prefix key value =
    (if length key = 0 then
       (case n of
          ValueNode v \<Rightarrow> (case value of ValueNode v' \<Rightarrow> tm_ret (v \<noteq> v', value) | _ \<Rightarrow> tm_fail Panic)
        | _ \<Rightarrow> tm_ret (True, value))
     else
       case n of
         ShortNode k v fl \<Rightarrow>
           (let matchlen = prefixLen key k in
            if matchlen = length k then
              tm_bind (trie_insert fuel rd v (prefix @ take matchlen key) (drop matchlen key) value)
                (\<lambda>(dirt, nn). if \<not> dirt then tm_ret (False, n)
                   else tm_ret (True, ShortNode k nn newFlag))
            else
              tm_bind (trie_insert fuel rd NilNode (prefix @ take (matchlen + 1) k)
                  (drop (matchlen + 1) k) v) (\<lambda>(_, c1).
              tm_bind (tm_lift (set_child no_children (k ! matchlen) c1)) (\<lambda>cs1.
              if matchlen \<ge> length key then tm_fail Panic else
              tm_bind (trie_insert fuel rd NilNode (prefix @ take (matchlen + 1) key)
                  (drop (matchlen + 1) key) value) (\<lambda>(_, c2).
              tm_bind (tm_lift (set_child cs1 (key ! matchlen) c2)) (\<lambda>cs2.
              let branch = FullNode cs2 newFlag in
              if matchlen = 0 then tm_ret (True, branch)
              else tm_bind (tm_track (onInsert (prefix @ take matchlen key))) (\<lambda>_.
                tm_ret (True, ShortNode (take matchlen key) branch newFlag)))))))
       | FullNode cs fl \<Rightarrow>
           tm_bind (tm_lift (get_child cs (key ! 0))) (\<lambda>c.
           tm_bind (trie_insert fuel rd c (prefix @ [key ! 0]) (drop 1 key) value) (\<lambda>(dirt, nn).
             if \<not> dirt then tm_ret (False, n)
             else tm_ret (True, FullNode (cs[unat (key ! 0) := nn]) newFlag)))
       | NilNode \<Rightarrow>
           tm_bind (tm_track (onInsert prefix)) (\<lambda>_. tm_ret (True, ShortNode key value newFlag))
       | HashNode h \<Rightarrow>
           tm_bind (resolveAndTrack rd h prefix) (\<lambda>rn.
           tm_bind (trie_insert fuel rd rn prefix key value) (\<lambda>(dirt, nn).
             if \<not> dirt then tm_ret (False, rn) else tm_ret (True, nn)))
       | _ \<Rightarrow> tm_fail Panic)"

subsection \<open>Delete\<close>

text \<open>
  The position of the only child left in a full node: \<open>Some (Inr pos)\<close>; no child left is
  \<open>None\<close> (\<open>pos = -1\<close>), two or more \<open>Some (Inl ())\<close> (\<open>pos = -2\<close>).
\<close>

fun only_child :: "nat \<Rightarrow> node list \<Rightarrow> (unit + nat) option \<Rightarrow> (unit + nat) option" where
  "only_child i [] pos = pos"
| "only_child i (c # cs) pos =
    (if c \<noteq> NilNode then
       (case pos of None \<Rightarrow> only_child (Suc i) cs (Some (Inr i)) | Some _ \<Rightarrow> Some (Inl ()))
     else only_child (Suc i) cs pos)"

fun trie_delete :: "nat \<Rightarrow> TrieDB option \<Rightarrow> node \<Rightarrow> bytes \<Rightarrow> bytes \<Rightarrow> (bool \<times> node) trie_m" where
  "trie_delete 0 rd n prefix key = tm_fail OutOfFuel"
| "trie_delete (Suc fuel) rd n prefix key =
    (case n of
       ShortNode k v fl \<Rightarrow>
         (let matchlen = prefixLen key k in
          if matchlen < length k then tm_ret (False, n)
          else if matchlen = length key then
            tm_bind (tm_track (onDelete prefix)) (\<lambda>_. tm_ret (True, NilNode))
          else
            tm_bind (trie_delete fuel rd v (prefix @ take (length k) key) (drop (length k) key))
              (\<lambda>(dirt, child).
                 if \<not> dirt then tm_ret (False, n)
                 else case child of
                     ShortNode ck cv cfl \<Rightarrow>
                       tm_bind (tm_track (onDelete (prefix @ k))) (\<lambda>_.
                         tm_ret (True, ShortNode (prefixConcat k ck) cv newFlag))
                   | _ \<Rightarrow> tm_ret (True, ShortNode k child newFlag)))
     | FullNode cs fl \<Rightarrow>
         if key = [] then tm_fail Panic
         else
           tm_bind (tm_lift (get_child cs (key ! 0))) (\<lambda>c.
           tm_bind (trie_delete fuel rd c (prefix @ [key ! 0]) (drop 1 key)) (\<lambda>(dirt, nn).
             if \<not> dirt then tm_ret (False, n)
             else
               let cs' = cs[unat (key ! 0) := nn] in
               if nn \<noteq> NilNode then tm_ret (True, FullNode cs' newFlag)
               else
                 (case only_child 0 cs' None of
                    Some (Inr pos) \<Rightarrow>
                      if pos \<noteq> 16 then
                        tm_bind (resolve rd (cs' ! pos) (prefix @ [of_nat pos])) (\<lambda>cnode.
                          case cnode of
                            ShortNode ck cv cfl \<Rightarrow>
                              tm_bind (tm_track (onDelete (prefix @ [of_nat pos]))) (\<lambda>_.
                                tm_ret (True, ShortNode ([of_nat pos] @ ck) cv newFlag))
                          | _ \<Rightarrow> tm_ret (True, ShortNode [of_nat pos] (cs' ! pos) newFlag))
                      else tm_ret (True, ShortNode [of_nat pos] (cs' ! pos) newFlag)
                  | _ \<Rightarrow> tm_ret (True, FullNode cs' newFlag))))
     | ValueNode v \<Rightarrow> tm_ret (True, NilNode)
     | NilNode \<Rightarrow> tm_ret (False, NilNode)
     | HashNode h \<Rightarrow>
         tm_bind (resolveAndTrack rd h prefix) (\<lambda>rn.
         tm_bind (trie_delete fuel rd rn prefix key) (\<lambda>(dirt, nn).
           if \<not> dirt then tm_ret (False, rn) else tm_ret (True, nn)))
     | _ \<Rightarrow> tm_fail Panic)"

subsection \<open>Entry points\<close>

definition trie_fuel :: "bytes \<Rightarrow> nat" where
  "trie_fuel key = 2 * length key + 2"

text \<open>
  \<open>New\<close> takes the database by pointer; a nil pointer is \<open>None\<close>.  It creates a trie without
  a tracer.
\<close>

definition trie_New :: "ID \<Rightarrow> TrieDB option \<Rightarrow> go_error + Trie" where
  "trie_New idt db =
    (let trie = \<lparr>root = NilNode, reader = db, capture = None\<rparr> in
     if idt \<noteq> zeroHash \<and> idt \<noteq> emptyRoot then
       (case resolveAndTrack (reader trie) idt [] (capture trie) of
          (Inl e, _) \<Rightarrow> Inl e
        | (Inr rootnode, t) \<Rightarrow> Inr (trie\<lparr>root := rootnode, capture := t\<rparr>))
     else Inr trie)"

definition NewEmpty :: "TrieDB option \<Rightarrow> go_error + Trie" where
  "NewEmpty db = trie_New (TrieID zeroHash) db"

definition TryGet :: "bytes \<Rightarrow> Trie \<Rightarrow> (go_error + bytes option) \<times> Trie" where
  "TryGet key t =
    (let k = keybytesToHex key in
     case tryGet (trie_fuel k) (reader t) (root t) k 0 (capture t) of
       (Inl e, c) \<Rightarrow> (Inl e, t\<lparr>capture := c\<rparr>)
     | (Inr (value, newroot, didResolve), c) \<Rightarrow>
         (Inr value, (if didResolve then t\<lparr>root := newroot\<rparr> else t)\<lparr>capture := c\<rparr>))"

text \<open>\<open>Get\<close> and \<open>Update\<close> swallow the error; a panic is not an error value and stays.\<close>

definition trie_Get :: "bytes \<Rightarrow> Trie \<Rightarrow> (go_error + bytes option) \<times> Trie" where
  "trie_Get key t =
    (case TryGet key t of
       (Inl e, t') \<Rightarrow> (if e = Panic \<or> e = OutOfFuel then Inl e else Inr None, t')
     | (Inr res, t') \<Rightarrow> (Inr res, t'))"

definition tryUpdate :: "bytes \<Rightarrow> bytes \<Rightarrow> Trie \<Rightarrow> (go_error + unit) \<times> Trie" where
  "tryUpdate key value t =
    (let k = keybytesToHex key in
     case (if length value \<noteq> 0
           then trie_insert (trie_fuel k) (reader t) (root t) [] k (ValueNode value) (capture t)
           else trie_delete (trie_fuel k) (reader t) (root t) [] k (capture t)) of
       (Inl e, c) \<Rightarrow> (Inl e, t\<lparr>capture := c\<rparr>)
     | (Inr (_, n), c) \<Rightarrow> (Inr (), t\<lparr>root := n, capture := c\<rparr>))"

definition trie_Update :: "bytes \<Rightarrow> bytes \<Rightarrow> Trie \<Rightarrow> (go_error + unit) \<times> Trie" where
  "trie_Update key value t =
    (case tryUpdate key value t of
       (Inl e, t') \<Rightarrow> (if e = Panic \<or> e = OutOfFuel then Inl e else Inr (), t')
     | (Inr u, t') \<Rightarrow> (Inr u, t'))"

end
