(* ===== verification/Trie_Rep.thy ===== *)
theory Trie_Rep
  imports Merkle Trie_Ops
begin

section \<open>Live tries represent abstract tries\<close>

text \<open>
  \<open>rep H view r n a\<close>: the live node \<open>n\<close> stands for the abstract trie \<open>a\<close>, where a hash
  node stands for a trie stored in a database with the given view.  The flag of a node may
  cache the hash of its encoding; only nodes that are referred to by hash carry one, except
  that the root (\<open>r\<close>) is always hashed.  A clean node with a hash is stored, and a clean
  node without one was embedded in the node it was decoded with.
\<close>

definition flag_ok ::
  "(bytes \<Rightarrow> bytes) \<Rightarrow> (hash \<Rightarrow> bytes) \<Rightarrow> bool \<Rightarrow> nodeFlag \<Rightarrow> atrie \<Rightarrow> bool" where
  "flag_ok H view r fl a \<longleftrightarrow>
     (\<forall>h. fl_hash fl = Some h \<longrightarrow>
        h = H (blob H a) \<and> (r \<or> hashed H a) \<and> (\<not> dirty fl \<longrightarrow> stored H view a)) \<and>
     (fl_hash fl = None \<longrightarrow> \<not> dirty fl \<longrightarrow> \<not> r \<and> \<not> hashed H a)"

text \<open>
  A loaded node is sealed when it and every node loaded below it carry their hash wherever
  they are referred to by hash.  A node that carries a hash has sealed children: whoever
  changes a node drops the hashes on the path to it.
\<close>

primrec sealed :: "(bytes \<Rightarrow> bytes) \<Rightarrow> atrie \<Rightarrow> bool \<Rightarrow> node \<Rightarrow> bool" where
  "sealed H AEmpty = (\<lambda>r n. True)"
| "sealed H (AVal v) = (\<lambda>r n. True)"
| "sealed H (AShort k c) = (\<lambda>r n. case n of
      ShortNode _ m fl \<Rightarrow> (r \<or> hashed H (AShort k c) \<longrightarrow> fl_hash fl \<noteq> None) \<and> sealed H c False m
    | _ \<Rightarrow> True)"
| "sealed H (AFull cs) = (\<lambda>r n. case n of
      FullNode ns fl \<Rightarrow> (r \<or> hashed H (AFull cs) \<longrightarrow> fl_hash fl \<noteq> None) \<and>
        list_all2 (\<lambda>m s. s False m) ns (map (sealed H) cs)
    | _ \<Rightarrow> True)"

lemma sealed_AFull:
  "sealed H (AFull cs) r (FullNode ns fl) \<longleftrightarrow> (r \<or> hashed H (AFull cs) \<longrightarrow> fl_hash fl \<noteq> None) \<and>
     list_all2 (\<lambda>m c. sealed H c False m) ns cs"
  by (simp add: list_all2_map2)

declare sealed.simps(4) [simp del]

lemma sealed_leaf [simp]:
  "sealed H a r NilNode" "sealed H a r (HashNode h)" "sealed H a r (ValueNode v)"
  by (cases a; simp add: sealed.simps(4))+

inductive rep :: "(bytes \<Rightarrow> bytes) \<Rightarrow> (hash \<Rightarrow> bytes) \<Rightarrow> bool \<Rightarrow> node \<Rightarrow> atrie \<Rightarrow> bool"
  for H view where
  rep_Nil: "rep H view r NilNode AEmpty"
| rep_Value: "rep H view r (ValueNode v) (AVal v)"
| rep_Short: "rep H view False n c \<Longrightarrow> flag_ok H view r fl (AShort k c) \<Longrightarrow>
    (fl_hash fl \<noteq> None \<Longrightarrow> sealed H c False n) \<Longrightarrow>
    rep H view r (ShortNode k n fl) (AShort k c)"
| rep_Full: "list_all2 (rep H view False) ns cs \<Longrightarrow> flag_ok H view r fl (AFull cs) \<Longrightarrow>
    (fl_hash fl \<noteq> None \<Longrightarrow> list_all2 (\<lambda>m c. sealed H c False m) ns cs) \<Longrightarrow>
    rep H view r (FullNode ns fl) (AFull cs)"
| rep_Hash: "is_node a \<Longrightarrow> r \<or> hashed H a \<Longrightarrow> h = H (blob H a) \<Longrightarrow> stored H view a \<Longrightarrow>
    rep H view r (HashNode h) a"

inductive_cases rep_NilE: "rep H view r NilNode a"
inductive_cases rep_ValueE: "rep H view r (ValueNode v) a"
inductive_cases rep_ShortE: "rep H view r (ShortNode k n fl) a"
inductive_cases rep_FullE: "rep H view r (FullNode ns fl) a"
inductive_cases rep_HashE: "rep H view r (HashNode h) a"

inductive_simps rep_node_simps:
  "rep H view r NilNode a" "rep H view r (ValueNode v) a"
  "rep H view r (ShortNode k n fl) a" "rep H view r (FullNode ns fl) a"
  "rep H view r (HashNode h) a"
  "rep H view r (RawNode b) a" "rep H view r (RawFullNode ns) a" "rep H view r (RawShortNode k n) a"

inductive_simps rep_atrie_simps:
  "rep H view r n AEmpty" "rep H view r n (AVal v)"

lemma rep_Empty_iff: "rep H view r n AEmpty \<longleftrightarrow> n = NilNode"
  by (auto simp: rep_atrie_simps)

lemma rep_Nil_iff: "rep H view r NilNode a \<longleftrightarrow> a = AEmpty"
  by (auto simp: rep_node_simps)

lemma newFlag_hash [simp]: "fl_hash newFlag = None"
  by (simp add: newFlag_def)

lemma flag_ok_newFlag [simp]: "flag_ok H view r newFlag a"
  by (simp add: flag_ok_def newFlag_def)

lemma flag_ok_none [simp]:
  "flag_ok H view r \<lparr>fl_hash = None, dirty = d\<rparr> a \<longleftrightarrow> d \<or> \<not> r \<and> \<not> hashed H a"
  by (auto simp: flag_ok_def)

subsection \<open>Loading\<close>

text \<open>The view of a trie's reader, and the reader interface on it.\<close>

definition trie_view :: "TrieDB option \<Rightarrow> hash \<Rightarrow> bytes" where
  "trie_view rd h = (case trie_nodeBlob rd [] h of Inl _ \<Rightarrow> [] | Inr b \<Rightarrow> b)"

lemma trie_nodeBlob_path: "trie_nodeBlob rd [] h = Inr b \<Longrightarrow> trie_nodeBlob rd path h = Inr b"
  by (auto simp: trie_nodeBlob_def NodeBlob_def split: option.splits sum.splits if_splits)

interpretation db_reader: node_reader "trie_nodeBlob rd" "trie_view rd" for rd
proof unfold_locales
  fix h path assume "trie_view rd h \<noteq> []"
  then have "trie_nodeBlob rd [] h = Inr (trie_view rd h)"
    by (auto simp: trie_view_def split: sum.splits)
  then show "trie_nodeBlob rd path h = Inr (trie_view rd h)" by (rule trie_nodeBlob_path)
qed

lemma rep_dref:
  assumes "kids_stored H view a" and "hashed H a \<longrightarrow> view (H (blob H a)) = blob H a"
  shows "rep H view False (dref H a) a"
proof -
  have d: "kids_stored H view a \<Longrightarrow> \<not> hashed H a \<Longrightarrow> rep H view False (dnode H None a) a" for a
  proof (induction a)
    case (AShort k c)
    then show ?case
      by (cases "hashed H c") (auto simp: dnode_simps dref_def rep_node_simps stored_def hashed_def[of H c])
  next
    case (AFull cs)
    have "rep H view False (dref H c) c" if "c \<in> set cs" for c
      using AFull that by (cases "hashed H c") (auto simp: dref_def rep_node_simps stored_def hashed_def[of H c])
    then show ?case
      using AFull.prems by (auto simp: dnode_simps rep_node_simps list_all2_conv_all_nth)
  qed (simp_all add: rep.intros)
  show ?thesis using assms d by (auto simp: dref_def rep_node_simps stored_def hashed_def[of H a])
qed

lemma sealed_dref: "sealed H a False (dref H a)"
proof -
  have "\<not> hashed H a \<Longrightarrow> sealed H a False (dnode H None a)" for a
  proof (induction a)
    case (AShort k c)
    then show ?case by (auto simp: dnode_simps dref_def)
  next
    case (AFull cs)
    then show ?case by (auto simp: dnode_simps dref_def sealed_AFull list_all2_conv_all_nth)
  qed simp_all
  then show ?thesis by (simp add: dref_def)
qed

lemma sealed_dnode: "sealed H a r (dnode H (Some h) a)"
  by (cases a) (simp_all add: dnode_simps sealed_AFull list_all2_conv_all_nth sealed_dref)

lemma rep_dnode:
  assumes "is_node a" and "stored H view a" and "r \<or> hashed H a"
  shows "rep H view r (dnode H (Some (H (blob H a))) a) a"
proof (cases a)
  case (AShort k c)
  then show ?thesis using assms rep_dref[of H view c]
    by (auto simp: dnode_simps rep_node_simps flag_ok_def stored_def sealed_dref)
next
  case (AFull cs)
  then show ?thesis using assms rep_dref[of H view]
    by (auto simp: dnode_simps rep_node_simps flag_ok_def stored_def list_all2_conv_all_nth sealed_dref)
qed (use assms(1) in simp_all)

lemma resolveAndTrack_rep:
  assumes H: "hash_fun H" and wf: "wf_anode a" "small a"
    and r: "rep H (trie_view rd) r (HashNode h) a"
  shows "resolveAndTrack rd h prefix c =
      (Inr (dnode H (Some h) a), onRead prefix (blob H a) c) \<and>
    rep H (trie_view rd) r (dnode H (Some h) a) a"
proof -
  have a: "is_node a" "r \<or> hashed H a" "h = H (blob H a)" "stored H (trie_view rd) a"
    using r by (auto elim: rep_HashE)
  have "BytesToHash h = h" using a(3) H by (simp add: BytesToHash_id)
  then have "trie_nodeBlob rd prefix (BytesToHash h) = Inr (blob H a)"
    using db_reader.read_stored[OF a(4)] a(3) by simp
  moreover have "mustDecodeNode (Some h) (blob H a) = Inr (dnode H (Some h) a)"
    using decode_blob[OF H wf] by (simp add: mustDecodeNode_def decodeNode_def CopyBytes_def)
  ultimately show ?thesis
    using rep_dnode[OF a(1,4,2)] a(3)
    by (simp add: resolveAndTrack_def tm_bind_def tm_lift_def tm_track_def)
qed

lemma dnode_not_hash: "dnode H h a \<noteq> HashNode b"
  by (cases a) (simp_all add: dnode_simps)

end
