(* ===== verification/Trie_Correct.thy ===== *)
theory Trie_Correct
  imports Trie_Rep
begin

section \<open>The trie operations refine the abstract trie\<close>

text \<open>
  Simulation of \<open>tryGet\<close>, \<open>trie_insert\<close> and \<open>trie_delete\<close> by \<open>alookup\<close>,
  \<open>ainsert\<close> and \<open>adelete\<close>, for every live trie that represents an abstract one.  With
  \<open>2 * n + 2\<close> units of fuel for a key of \<open>n\<close> nibbles the operations always return: each
  recursive call either loads a node or consumes at least one nibble, and never loads twice
  in a row.
\<close>

lemma tm_simps [trie_simps]:
  "m c = (Inr x, c') \<Longrightarrow> tm_bind m f c = f x c'"
  "tm_ret x c = (Inr x, c)"
  "tm_lift (Inr x) c = (Inr x, c)"
  "tm_track g c = (Inr (), g c)"
  by (simp_all add: tm_bind_def tm_ret_def tm_lift_def tm_track_def)

definition enough :: "node \<Rightarrow> nat \<Rightarrow> nat \<Rightarrow> bool" where
  "enough n len fuel \<longleftrightarrow> 2 * len + (case n of HashNode _ \<Rightarrow> 2 | _ \<Rightarrow> 1) \<le> fuel"

lemma enough_pos: "enough n len fuel \<Longrightarrow> \<exists>f. fuel = Suc f"
  by (cases fuel) (auto simp: enough_def split: node.splits)

lemma enough_less: "enough n len (Suc f) \<Longrightarrow> len' < len \<Longrightarrow> enough n' len' f"
  by (auto simp: enough_def split: node.splits)

lemma enough_dnode: "enough (HashNode h) len (Suc f) \<Longrightarrow> enough (dnode H b a) len f"
  by (auto simp: enough_def dnode_not_hash split: node.splits)

lemma enough_trie_fuel: "enough n (length k) (trie_fuel k)"
  by (auto simp: enough_def trie_fuel_def split: node.splits)

text \<open>The abstract node that a live node stands for decides which branch the code takes.\<close>

lemma list_all2_get_child:
  "list_all2 R ns cs \<Longrightarrow> unat x < length cs \<Longrightarrow> get_child ns x = Inr (ns ! unat x)"
  by (simp add: get_child_def list_all2_lengthD)

lemma list_all2_update:
  "list_all2 R ns cs \<Longrightarrow> R n c \<Longrightarrow> list_all2 R (ns[i := n]) (cs[i := c])"
  by (rule list_all2_update_cong)

lemma wf_sub: "sub_ok False a \<Longrightarrow> is_node a \<Longrightarrow> wf_anode a"
  by (cases a) auto

lemma sub_ok_node: "sub_ok t a \<Longrightarrow> is_node a \<Longrightarrow> \<not> t \<and> wf_anode a"
  by (cases a) auto

subsection \<open>Get\<close>

lemma take_drop_key: "take (length k) (drop pos key) = k \<longleftrightarrow> \<not> (length key < pos + length k \<or> k \<noteq> subslice pos (pos + length k) key)"
  if "k \<noteq> []"
proof
  assume e: "take (length k) (drop pos key) = k"
  then have "length k \<le> length (drop pos key)" by (metis length_take min.cobounded2 min.commute)
  then have "pos + length k \<le> length key" using that by (cases "pos \<le> length key") auto
  with e show "\<not> (length key < pos + length k \<or> k \<noteq> subslice pos (pos + length k) key)"
    by (simp add: subslice_def)
qed (simp add: subslice_def)

lemma tryGet_rep:
  assumes H: "hash_fun H" and "rep H (trie_view rd) r n a" and "sub_ok t a" and "small a"
    and "key_ok t (drop pos key)" and "enough n (length key - pos) fuel"
  shows "\<exists>n' d c'. tryGet fuel rd n key pos c = (Inr (alookup a (drop pos key), n', d), c') \<and>
    rep H (trie_view rd) r n' a \<and> (sealed H a r n \<longrightarrow> sealed H a r n')"
  using assms(2-)
proof (induction fuel arbitrary: r n a t pos c)
  case 0
  then show ?case using enough_pos by blast
next
  case (Suc f)
  show ?case
    using Suc.prems(1)
  proof (cases rule: rep.cases)
    case (rep_Value v)
    then have "t" using Suc.prems(2) by simp
    then show ?thesis using rep_Value Suc.prems(4) by (auto simp: trie_simps key_ok_def rep.intros)
  next
    case (rep_Short m c' fl k)
    then have wf: "wf_anode (AShort k c')" and t: "\<not> t" using Suc.prems(2) by auto
    then have k: "hex_key k" "k \<noteq> []" "sub_ok (hasTerm k) c'" by (auto simp: wf_AShort)
    show ?thesis
    proof (cases "take (length k) (drop pos key) = k")
      case True
      have e: "drop pos key = k @ drop (pos + length k) key"
        using append_take_drop_id[of "length k" "drop pos key"] True by (simp add: add.commute)
      then have "key_ok (hasTerm k) (drop (pos + length k) key)"
        using key_ok_append[of k "drop (pos + length k) key"] Suc.prems(4) t k by simp
      moreover have "enough m (length key - (pos + length k)) f"
      proof -
        have "0 < length k" using k(2) by simp
        then have "length key - (pos + length k) < length key - pos"
          using arg_cong[OF e, of length] by (simp only: length_drop length_append)
        then show ?thesis using Suc.prems(5) enough_less by blast
      qed
      moreover have "small c'" using Suc.prems(3) rep_Short small_AShort by blast
      ultimately obtain n' d c1 where
        "tryGet f rd m key (pos + length k) c = (Inr (alookup c' (drop (pos + length k) key), n', d), c1)"
        "rep H (trie_view rd) False n' c'" "sealed H c' False m \<longrightarrow> sealed H c' False n'"
        using Suc.IH[OF rep_Short(3) k(3)] by blast
      then show ?thesis
        using rep_Short True take_drop_key[OF k(2), of pos key]
        by (auto simp: trie_simps rep_node_simps add.commute)
    next
      case False
      then show ?thesis using rep_Short take_drop_key[OF k(2), of pos key]
        by (auto simp: trie_simps intro: rep.intros)
    qed
  next
    case (rep_Full ns cs fl)
    then have wf: "wf_anode (AFull cs)" and t: "\<not> t" using Suc.prems(2) by auto
    then obtain x rest where x: "drop pos key = x # rest" "unat x < 17" "key_ok (unat x = 16) rest"
      using Suc.prems(4) key_ok_cases by metis
    then have pos: "pos < length key" by (cases "pos < length key") auto
    have kx: "key ! pos = x" "drop (pos + 1) key = rest"
      using x(1) Cons_nth_drop_Suc[OF pos] by simp_all
    have l: "length cs = 17" "sub_ok (unat x = 16) (cs ! unat x)" using wf x by (auto simp: wf_AFull)
    have sm: "small (cs ! unat x)" using small_AFull[of cs] Suc.prems(3) rep_Full l(1) x(2) by simp
    have child: "rep H (trie_view rd) False (ns ! unat x) (cs ! unat x)"
      using rep_Full(3) l(1) x(2) by (simp add: list_all2_conv_all_nth)
    have en: "enough (ns ! unat x) (length key - (pos + 1)) f"
      using pos by (intro enough_less[OF Suc.prems(5)]) simp
    have ko: "key_ok (unat x = 16) (drop (pos + 1) key)" using x(3) kx(2) by simp
    obtain n' d c1 where
      "tryGet f rd (ns ! unat x) key (pos + 1) c = (Inr (alookup (cs ! unat x) rest, n', d), c1)"
      "rep H (trie_view rd) False n' (cs ! unat x)"
      "sealed H (cs ! unat x) False (ns ! unat x) \<longrightarrow> sealed H (cs ! unat x) False n'"
      using Suc.IH[OF child l(2) sm ko en, of c] unfolding kx(2) by blast
    moreover have "get_child ns (key ! pos) = Inr (ns ! unat x)"
      using list_all2_get_child[OF rep_Full(3)] l(1) x(2) kx(1) by simp
    moreover have "list_all2 (rep H (trie_view rd) False) (ns[unat x := n']) cs"
      using calculation(2) list_all2_update[OF rep_Full(3), of n' "cs ! unat x" "unat x"] by simp
    moreover have "list_all2 (\<lambda>m c. sealed H c False m) ns cs \<Longrightarrow>
        list_all2 (\<lambda>m c. sealed H c False m) (ns[unat x := n']) cs"
      using calculation(3) list_all2_update[of "\<lambda>m c. sealed H c False m" ns cs n' "cs ! unat x" "unat x"] l(1) x(2)
      by (simp add: list_all2_conv_all_nth)
    ultimately show ?thesis
      using rep_Full pos kx x l by (auto simp: trie_simps rep_node_simps sealed_AFull)
  next
    case (rep_Hash h)
    then have wf: "wf_anode a" and t: "\<not> t" using Suc.prems(2) sub_ok_node by blast+
    have "rep H (trie_view rd) r (HashNode h) a" using Suc.prems(1) rep_Hash by simp
    note res = resolveAndTrack_rep[OF H wf Suc.prems(3) this, of "take pos key" c]
    have en: "enough (dnode H (Some h) a) (length key - pos) f"
      using Suc.prems(5) rep_Hash enough_dnode by blast
    obtain n' d c1 where
      "tryGet f rd (dnode H (Some h) a) key pos (onRead (take pos key) (blob H a) c) =
        (Inr (alookup a (drop pos key), n', d), c1)"
      "rep H (trie_view rd) r n' a" "sealed H a r n'"
      using Suc.IH[OF conjunct2[OF res] Suc.prems(2-4) en] sealed_dnode by blast
    then show ?thesis using conjunct1[OF res] rep_Hash(1) by (auto simp: trie_simps)
  qed (auto simp: trie_simps rep.intros)
qed

subsection \<open>Insert\<close>

definition place :: "bytes \<Rightarrow> node \<Rightarrow> node" where
  "place k n = (if k = [] then n else ShortNode k n newFlag)"

lemma place_simps: "place [] n = n" "k \<noteq> [] \<Longrightarrow> place k n = ShortNode k n newFlag"
  by (simp_all add: place_def)

lemma insert_nil [trie_simps]:
  "0 < fuel \<Longrightarrow> trie_insert fuel rd NilNode prefix key value c =
     (Inr (True, place key value), if key = [] then c else onInsert prefix c)"
  by (cases fuel) (auto simp: tm_simps place_def)

lemma rep_place: "rep H view False n a \<Longrightarrow> (k = [] \<Longrightarrow> rep H view r n a) \<Longrightarrow>
    rep H view r (place k n) (aplace k a)"
  by (simp add: place_def aplace_def rep_node_simps)

lemma list_all2_no_children: "list_all2 (rep H view False) no_children no_achildren"
  by (simp add: no_children_def no_achildren_def list_all2_conv_all_nth rep.intros)

lemma rep_branch:
  "rep H view False n a \<Longrightarrow> rep H view False m b \<Longrightarrow>
     rep H view r (FullNode (no_children[i := n, j := m]) newFlag) (AFull (no_achildren[i := a, j := b]))"
  using list_all2_no_children by (auto intro!: rep_Full list_all2_update)

lemma set_child_ok: "unat i < length cs \<Longrightarrow> set_child cs i c = Inr (cs[unat i := c])"
  by (simp add: set_child_def)

lemma length_no_children [simp]: "length no_children = 17"
  by (simp add: no_children_def)

text \<open>The branch of \<open>insert\<close> that splits a short node.\<close>

lemma insert_split:
  assumes f: "0 < f" and m: "prefixLen key k = length p" "k = p @ x # a" "key = p @ y # b"
    and xy: "unat x < 17" "unat y < 17"
  shows "\<exists>c'. trie_insert (Suc f) rd (ShortNode k n fl) prefix key value c =
    (Inr (True, place p (FullNode (no_children[unat x := place a n, unat y := place b value]) newFlag)), c')"
proof -
  have n: "prefixLen key k \<noteq> length k" "length key \<noteq> 0" "\<not> length key \<le> length p"
    using m by simp_all
  have d: "drop (length p + 1) k = a" "drop (length p + 1) key = b" "k ! length p = x" "key ! length p = y"
      "take (length p) key = p" using m(2,3) by simp_all
  note s = set_child_ok[of x no_children "place a n"]
    set_child_ok[of y "no_children[unat x := place a n]" "place b value"]
  show ?thesis
    using n s xy d f
    by (cases "p = []") (simp_all add: m(1) trie_simps Let_def place_simps)
qed

lemma insert_rep:
  assumes H: "hash_fun H" and v: "v \<noteq> []"
    and "rep H (trie_view rd) r n a" and "sub_ok t a" and "small a"
    and "key_ok t key" and "enough n (length key) fuel"
  shows "\<exists>d n' c'. trie_insert fuel rd n prefix key (ValueNode v) c = (Inr (d, n'), c') \<and>
    (if d then rep H (trie_view rd) r n' (ainsert a key v)
     else rep H (trie_view rd) r n' a \<and> ainsert a key v = a)"
  using assms(3-)
proof (induction fuel arbitrary: r n a t key prefix c)
  case 0
  then show ?case using enough_pos by blast
next
  case (Suc f)
  let ?V = "trie_view rd"
  show ?case
  proof (cases t)
    case True
    then have "key = []" using Suc.prems(4) by (simp add: key_ok_def)
    moreover have "n = NilNode \<and> a = AEmpty \<or> (\<exists>w. n = ValueNode w \<and> a = AVal w)"
      using Suc.prems(1,2) True by (auto simp: sub_ok_def rep_atrie_simps)
    ultimately consider "key = []" "n = NilNode" "a = AEmpty"
      | w where "key = []" "n = ValueNode w" "a = AVal w" by blast
    then show ?thesis
    proof cases
      case 1
      then show ?thesis by (auto simp: trie_simps aplace_def rep_Value)
    next
      case (2 w)
      then show ?thesis by (cases "w = v") (auto simp: trie_simps aplace_def rep_Value)
    qed
  next
    case False
    then have ne: "key \<noteq> []" and ko: "key_ok False key" using Suc.prems(4) by (auto simp: key_ok_def)
    then have fpos: "0 < f" using Suc.prems(5) by (cases key) (auto simp: enough_def)
    show ?thesis
      using Suc.prems(1)
    proof (cases rule: rep.cases)
      case rep_Nil
      have e: "trie_insert (Suc f) rd n prefix key (ValueNode v) c =
          (Inr (True, place key (ValueNode v)), if key = [] then c else onInsert prefix c)"
        unfolding rep_Nil(1) by (rule insert_nil) simp
      show ?thesis unfolding e using rep_Nil(2) rep_place[OF rep_Value rep_Value] by auto
    next
      case (rep_Value w)
      then show ?thesis using Suc.prems(2) False by simp
    next
      case (rep_Short m c' fl k)
      then have wf: "wf_anode (AShort k c')" using Suc.prems(2) by auto
      then have k: "hex_key k" "k \<noteq> []" "sub_ok (hasTerm k) c'" by (auto simp: wf_AShort)
      show ?thesis
        using ko k(1,2)
      proof (cases rule: short_key_cases)
        case (full rest)
        have sm: "small c'" using Suc.prems(3) rep_Short small_AShort by blast
        have en: "enough m (length rest) f"
          using full(2) k(2) by (intro enough_less[OF Suc.prems(5)]) simp
        obtain d n' c1 where ih: "trie_insert f rd m (prefix @ k) rest (ValueNode v) c = (Inr (d, n'), c1)"
          "if d then rep H ?V False n' (ainsert c' rest v) else rep H ?V False n' c' \<and> ainsert c' rest v = c'"
          using Suc.IH[OF rep_Short(3) k(3) sm full(3) en] by blast
        show ?thesis
          using rep_Short full(1,2) ih ne
          by (cases d) (auto simp: trie_simps rep_node_simps)
      next
        case (split p x y a' b)
        let ?b = "FullNode (no_children[unat x := place a' m, unat y := place b (ValueNode v)]) newFlag"
        obtain c1 where e: "trie_insert (Suc f) rd (ShortNode k m fl) prefix key (ValueNode v) c =
            (Inr (True, place p ?b), c1)"
          using insert_split[OF fpos split(1-3,6,7)] by blast
        have "rep H ?V r (place p ?b) (aplace p (AFull (no_achildren[unat x := aplace a' c',
            unat y := aplace b (AVal v)])))"
          by (intro rep_place rep_branch rep_Short(3) rep_Value)
        also have "aplace p (AFull (no_achildren[unat x := aplace a' c', unat y := aplace b (AVal v)])) =
            ainsert (AShort k c') key v"
          using split(1-4) ne by simp
        finally show ?thesis unfolding rep_Short(1,2) e by auto
      qed
    next
      case (rep_Full ns cs fl)
      then have wf: "wf_anode (AFull cs)" using Suc.prems(2) by auto
      obtain x rest where x: "key = x # rest" "unat x < 17" "key_ok (unat x = 16) rest"
        using ko key_ok_cases by metis
      have l: "length cs = 17" "sub_ok (unat x = 16) (cs ! unat x)" using wf x by (auto simp: wf_AFull)
      have sm: "small (cs ! unat x)" using small_AFull[of cs] Suc.prems(3) rep_Full l(1) x(2) by simp
      have child: "rep H ?V False (ns ! unat x) (cs ! unat x)"
        using rep_Full(3) l(1) x(2) by (simp add: list_all2_conv_all_nth)
      have en: "enough (ns ! unat x) (length rest) f"
        using x(1) by (intro enough_less[OF Suc.prems(5)]) simp
      obtain d n' c1 where ih:
        "trie_insert f rd (ns ! unat x) (prefix @ [x]) rest (ValueNode v) c = (Inr (d, n'), c1)"
        "if d then rep H ?V False n' (ainsert (cs ! unat x) rest v)
         else rep H ?V False n' (cs ! unat x) \<and> ainsert (cs ! unat x) rest v = cs ! unat x"
        using Suc.IH[OF child l(2) sm x(3) en] by blast
      have "get_child ns (key ! 0) = Inr (ns ! unat x)"
        using list_all2_get_child[OF rep_Full(3)] l(1) x by simp
      then show ?thesis
        using rep_Full ih x l list_all2_update[OF rep_Full(3), of n' "ainsert (cs ! unat x) rest v" "unat x"]
        by (cases d) (auto simp: trie_simps rep_node_simps)
    next
      case (rep_Hash h)
      then have wf: "wf_anode a" using Suc.prems(2) sub_ok_node by blast
      have "rep H ?V r (HashNode h) a" using Suc.prems(1) rep_Hash by simp
      note res = resolveAndTrack_rep[OF H wf Suc.prems(3) this, of prefix c]
      have en: "enough (dnode H (Some h) a) (length key) f"
        using Suc.prems(5) rep_Hash enough_dnode by blast
      obtain d n' c1 where ih:
        "trie_insert f rd (dnode H (Some h) a) prefix key (ValueNode v) (onRead prefix (blob H a) c) =
          (Inr (d, n'), c1)"
        "if d then rep H ?V r n' (ainsert a key v) else rep H ?V r n' a \<and> ainsert a key v = a"
        using Suc.IH[OF conjunct2[OF res] Suc.prems(2-4) en] by blast
      have e: "trie_insert (Suc f) rd n prefix key (ValueNode v) c =
          (Inr (d, if d then n' else dnode H (Some h) a), c1)"
        using conjunct1[OF res] ih(1) ne by (simp add: rep_Hash(1) trie_simps)
      show ?thesis unfolding e using ih(2) conjunct2[OF res] by (cases d) auto
    qed
  qed
qed

end
