(* ===== verification/Trie_Delete.thy ===== *)
theory Trie_Delete
  imports Trie_Correct
begin

section \<open>Delete refines the abstract delete\<close>

text \<open>
  The simulation of \<open>trie_delete\<close> by \<open>adelete\<close>, including the reduction of a full node
  with one child left, for which the code loads that child when it is a hash node.
\<close>

lemma filter_nth_Cons:
  "filter (\<lambda>j. P ((x # xs) ! j)) [0..<Suc n] =
    (if P x then [0] else []) @ map Suc (filter (\<lambda>j. P (xs ! j)) [0..<n])"
proof -
  have "[0..<Suc n] = 0 # map Suc [0..<n]" by (simp add: map_Suc_upt upt_conv_Cons)
  then show ?thesis by (simp add: filter_map comp_def)
qed

lemma only_child_Some:
  "only_child i cs (Some (Inr p)) = (if \<forall>c \<in> set cs. c = NilNode then Some (Inr p) else Some (Inl ()))"
  by (induction cs arbitrary: i) auto

lemma list_012: obtains "xs = []" | x where "xs = [x]" | x y ys where "xs = x # y # ys"
  by (metis list.exhaust)

lemma only_child_filter:
  "only_child i cs None =
    (case filter (\<lambda>j. cs ! j \<noteq> NilNode) [0..<length cs] of
       [] \<Rightarrow> None | [p] \<Rightarrow> Some (Inr (i + p)) | _ \<Rightarrow> Some (Inl ()))"
proof (induction cs arbitrary: i)
  case (Cons c cs)
  have all: "(\<forall>c \<in> set cs. c = NilNode) \<longleftrightarrow> filter (\<lambda>j. cs ! j \<noteq> NilNode) [0..<length cs] = []"
    by (auto simp: filter_empty_conv all_set_conv_all_nth)
  define F where "F = filter (\<lambda>j. cs ! j \<noteq> NilNode) [0..<length cs]"
  have f: "filter (\<lambda>j. (c # cs) ! j \<noteq> NilNode) [0..<length (c # cs)] =
      (if c \<noteq> NilNode then [0] else []) @ map Suc F"
    unfolding length_Cons F_def by (rule filter_nth_Cons)
  have ih: "only_child (Suc i) cs None =
      (case F of [] \<Rightarrow> None | [p] \<Rightarrow> Some (Inr (Suc i + p)) | _ \<Rightarrow> Some (Inl ()))"
    unfolding F_def by (rule Cons.IH)
  show ?case unfolding f using ih all
    by (cases "c = NilNode"; cases F rule: list_012) (simp_all add: only_child_Some F_def[symmetric])
qed simp

lemma list_all2_filter:
  assumes "list_all2 (rep H view r) ns cs"
  shows "filter (\<lambda>j. ns ! j \<noteq> NilNode) [0..<length ns] = filter (\<lambda>j. cs ! j \<noteq> AEmpty) [0..<length cs]"
proof -
  have l: "length ns = length cs" using assms by (rule list_all2_lengthD)
  have "ns ! j = NilNode \<longleftrightarrow> cs ! j = AEmpty" if "j < length cs" for j
    using list_all2_nthD2[OF assms that] rep_Empty_iff rep_Nil_iff by metis
  then show ?thesis unfolding l by (intro filter_cong) auto
qed

text \<open>The child that is left, loaded when it is a hash node.\<close>

lemma resolve_rep:
  assumes "hash_fun H" and "rep H (trie_view rd) False n a" and "sub_ok t a" and "small a"
  shows "\<exists>n' c'. resolve rd n prefix c = (Inr n', c') \<and> rep H (trie_view rd) False n' a \<and>
    (\<forall>h. n' \<noteq> HashNode h)"
proof (cases n)
  case (HashNode h)
  then have "is_node a" using assms(2) by (auto elim: rep_HashE)
  then have "wf_anode a" using assms(3) sub_ok_node by blast
  then show ?thesis
    using resolveAndTrack_rep[OF assms(1) _ assms(4), of rd False h prefix c] assms(2) HashNode
    by (auto simp: resolve_def dnode_not_hash)
qed (use assms(2) in \<open>auto simp: resolve_def tm_ret_def\<close>)

lemma collapse_rep:
  assumes H: "hash_fun H" and ns: "list_all2 (rep H (trie_view rd) False) ns cs"
    and l: "length cs = 17" and s: "\<And>i. i < 17 \<Longrightarrow> sub_ok (i = 16) (cs ! i) \<and> small (cs ! i)"
  shows "\<exists>n' c'. (case only_child 0 ns None of
        Some (Inr pos) \<Rightarrow>
          if pos \<noteq> 16 then
            tm_bind (resolve rd (ns ! pos) (prefix @ [of_nat pos])) (\<lambda>cnode.
              case cnode of
                ShortNode ck cv cfl \<Rightarrow>
                  tm_bind (tm_track (onDelete (prefix @ [of_nat pos]))) (\<lambda>_.
                    tm_ret (True, ShortNode ([of_nat pos] @ ck) cv newFlag))
              | _ \<Rightarrow> tm_ret (True, ShortNode [of_nat pos] (ns ! pos) newFlag))
          else tm_ret (True, ShortNode [of_nat pos] (ns ! pos) newFlag)
      | _ \<Rightarrow> tm_ret (True, FullNode ns newFlag)) c = (Inr (True, n'), c') \<and>
    rep H (trie_view rd) r n' (acollapse cs) \<and> (\<forall>h. n' \<noteq> HashNode h)"
proof -
  let ?V = "trie_view rd"
  have oc: "only_child 0 ns None = (case filter (\<lambda>j. cs ! j \<noteq> AEmpty) [0..<length cs] of
       [] \<Rightarrow> None | [p] \<Rightarrow> Some (Inr p) | _ \<Rightarrow> Some (Inl ()))"
    unfolding only_child_filter list_all2_filter[OF ns] by (auto split: list.split)
  have full: "rep H ?V r (FullNode ns newFlag) (AFull cs)" using ns by (simp add: rep_node_simps)
  consider (one) p where "filter (\<lambda>j. cs ! j \<noteq> AEmpty) [0..<length cs] = [p]"
    | (other) "\<nexists>p. filter (\<lambda>j. cs ! j \<noteq> AEmpty) [0..<length cs] = [p]" by blast
  then show ?thesis
  proof cases
    case other
    then have "acollapse cs = AFull cs" and "only_child 0 ns None \<noteq> Some (Inr p)" for p
      by (auto simp: acollapse_def oc split: list.splits)
    then show ?thesis using full by (auto simp: trie_simps split: option.split sum.split)
  next
    case (one p)
    have "set (filter (\<lambda>j. cs ! j \<noteq> AEmpty) [0..<length cs]) = {p}" using one by simp
    then have p: "p < 17" "cs ! p \<noteq> AEmpty" using l by auto
    have rp: "rep H ?V False (ns ! p) (cs ! p)" using ns p(1) l by (simp add: list_all2_conv_all_nth)
    have o: "only_child 0 ns None = Some (Inr p)" by (simp add: oc one)
    show ?thesis
    proof (cases "p = 16")
      case True
      then obtain v where v: "cs ! p = AVal v" using s[of 16] p by (auto simp: sub_ok_def)
      then have "acollapse cs = AShort [of_nat p] (AVal v)" by (simp add: acollapse_def one)
      then show ?thesis using o True v rp by (auto simp: trie_simps rep_node_simps)
    next
      case False
      obtain n1 c1 where r: "resolve rd (ns ! p) (prefix @ [of_nat p]) c = (Inr n1, c1)"
        "rep H ?V False n1 (cs ! p)" "\<forall>h. n1 \<noteq> HashNode h"
        using resolve_rep[OF H rp] s[OF p(1)] by blast
      have nv: "cs ! p \<noteq> AVal v" for v using s[OF p(1)] False by (auto simp: sub_ok_def)
      show ?thesis
      proof (cases "cs ! p")
        case (AShort k d)
        then obtain m fl where n1: "n1 = ShortNode k m fl" "rep H ?V False m d"
          using r(2,3) by (auto elim: rep.cases)
        have "acollapse cs = AShort (of_nat p # k) d" by (simp add: acollapse_def one AShort)
        then show ?thesis using o False r(1) n1 by (auto simp: trie_simps rep_node_simps)
      next
        case (AFull ds)
        then obtain ms fl where n1: "n1 = FullNode ms fl" using r(2,3) by (auto elim: rep.cases)
        have "acollapse cs = AShort [of_nat p] (cs ! p)" by (simp add: acollapse_def one AFull)
        then show ?thesis using o False r(1) n1 rp by (auto simp: trie_simps rep_node_simps)
      qed (use p nv in auto)
    qed
  qed
qed

subsection \<open>The simulation\<close>

lemma delete_rep:
  assumes H: "hash_fun H"
    and "rep H (trie_view rd) r n a" and "sub_ok t a" and "small a"
    and "key_ok t key" and "enough n (length key) fuel"
  shows "\<exists>d n' c'. trie_delete fuel rd n prefix key c = (Inr (d, n'), c') \<and>
    (if d then rep H (trie_view rd) r n' (adelete a key) \<and> (\<forall>h. n' \<noteq> HashNode h)
     else rep H (trie_view rd) r n' a \<and> adelete a key = a)"
  using assms(2-)
proof (induction fuel arbitrary: r n a t key prefix c)
  case 0
  then show ?case using enough_pos by blast
next
  case (Suc f)
  let ?V = "trie_view rd"
  show ?case
    using Suc.prems(1)
  proof (cases rule: rep.cases)
    case rep_Nil
    then show ?thesis by (auto simp: trie_simps rep.intros)
  next
    case (rep_Value w)
    then show ?thesis by (auto simp: trie_simps rep.intros)
  next
    case (rep_Short m c' fl k)
    then have wf: "wf_anode (AShort k c')" and t: "\<not> t" using Suc.prems(2) by auto
    then have k: "hex_key k" "k \<noteq> []" "sub_ok (hasTerm k) c'" "c' \<noteq> AEmpty" "\<forall>k' d. c' \<noteq> AShort k' d"
      by (auto simp: wf_AShort)
    have ko: "key_ok False key" using Suc.prems(4) t by simp
    then show ?thesis using k(1,2)
    proof (cases rule: short_key_cases)
      case (split p x y a' b)
      then have m: "prefixLen key k < length k" by simp
      then have "trie_delete (Suc f) rd n prefix key c = (Inr (False, n), c)"
        by (simp add: rep_Short(1) trie_simps Let_def)
      moreover have "adelete (AShort k c') key = AShort k c'" using m by simp
      ultimately show ?thesis using Suc.prems(1) rep_Short(2) by auto
    next
      case (full rest)
      show ?thesis
      proof (cases "hasTerm k")
        case True
        then have "rest = []" using full(3) by (simp add: key_ok_def)
        then show ?thesis using full(1,2) rep_Short
          by (auto simp: trie_simps Let_def rep.intros)
      next
        case False
        then obtain cs where cs: "c' = AFull cs" "wf_anode c'" using sub_ok_AFull k(3-5) by blast
        have rk: "key_ok False rest" using full(3) False by simp
        then have rne: "rest \<noteq> []" by (auto simp: key_ok_def)
        have sm: "small c'" using Suc.prems(3) rep_Short small_AShort by blast
        have en: "enough m (length rest) f"
          using full(2) k(2) by (intro enough_less[OF Suc.prems(5)]) simp
        obtain d n' c1 where ih: "trie_delete f rd m (prefix @ k) rest c = (Inr (d, n'), c1)"
          "if d then rep H ?V False n' (adelete c' rest) \<and> (\<forall>h. n' \<noteq> HashNode h)
           else rep H ?V False n' c' \<and> adelete c' rest = c'"
          using Suc.IH[OF rep_Short(3) k(3) sm full(3) en] by blast
        have m: "prefixLen key k = length k" "length key \<noteq> length k" "drop (length k) key = rest"
          using full(1,2) rne by simp_all
        have del: "adelete (AShort k c') key =
            (case adelete c' rest of AShort k' c' \<Rightarrow> AShort (k @ k') c' | c' \<Rightarrow> AShort k c')"
          using full(1,2) rne by simp
        show ?thesis
        proof (cases d)
          case False
          have e: "trie_delete (Suc f) rd n prefix key c = (Inr (False, n), c1)"
            using ih(1) False m full(2) by (simp add: rep_Short(1) trie_simps Let_def)
          show ?thesis unfolding e using Suc.prems(1) ih(2) False rep_Short(2) del cs(1) by auto
        next
          case True
          have nh: "\<forall>h. n' \<noteq> HashNode h" and rn: "rep H ?V False n' (adelete c' rest)" using ih(2) True by auto
          show ?thesis
          proof (cases "adelete c' rest")
            case (AShort ck d')
            then obtain cm cfl where n': "n' = ShortNode ck cm cfl" "rep H ?V False cm d'"
              using rn nh by (auto elim: rep.cases)
            have e: "trie_delete (Suc f) rd n prefix key c =
                (Inr (True, ShortNode (k @ ck) cm newFlag), onDelete (prefix @ k) c1)"
              using ih(1) True m full(2) n'(1)
              by (simp add: rep_Short(1) trie_simps Let_def prefixConcat_def)
            show ?thesis unfolding e using n'(2) AShort rep_Short(2) del by (auto simp: rep_node_simps)
          next
            case (AFull ds)
            then obtain ms mfl where n': "n' = FullNode ms mfl" using rn nh by (auto elim: rep.cases)
            have e: "trie_delete (Suc f) rd n prefix key c = (Inr (True, ShortNode k n' newFlag), c1)"
              using ih(1) True m full(2) n' by (simp add: rep_Short(1) trie_simps Let_def)
            have "adelete a key = AShort k (AFull ds)" unfolding rep_Short(2) del AFull by simp
            moreover have "rep H ?V r (ShortNode k n' newFlag) (AShort k (AFull ds))"
              using rn AFull by (simp add: rep_node_simps)
            ultimately show ?thesis unfolding e by auto
          next
            case AEmpty
            then show ?thesis using adelete_nonempty[of cs rest] cs rk by simp
          next
            case (AVal v)
            then show ?thesis using adelete_ok[of False c' rest] k(3) False rk by simp
          qed
        qed
      qed
    qed
  next
    case (rep_Full ns cs fl)
    then have wf: "wf_anode (AFull cs)" and t: "\<not> t" using Suc.prems(2) by auto
    obtain x rest where x: "key = x # rest" "unat x < 17" "key_ok (unat x = 16) rest"
      using Suc.prems(4) t key_ok_cases by metis
    have l: "length cs = 17" and s: "\<And>i. i < 17 \<Longrightarrow> sub_ok (i = 16) (cs ! i)" using wf by (auto simp: wf_AFull)
    have sm: "\<And>i. i < 17 \<Longrightarrow> small (cs ! i)" using small_AFull[of cs] Suc.prems(3) rep_Full l by simp
    have child: "rep H ?V False (ns ! unat x) (cs ! unat x)"
      using rep_Full(3) l x(2) by (simp add: list_all2_conv_all_nth)
    have en: "enough (ns ! unat x) (length rest) f"
      using x(1) by (intro enough_less[OF Suc.prems(5)]) simp
    obtain d n' c1 where ih: "trie_delete f rd (ns ! unat x) (prefix @ [x]) rest c = (Inr (d, n'), c1)"
      "if d then rep H ?V False n' (adelete (cs ! unat x) rest) \<and> (\<forall>h. n' \<noteq> HashNode h)
       else rep H ?V False n' (cs ! unat x) \<and> adelete (cs ! unat x) rest = cs ! unat x"
      using Suc.IH[OF child s[OF x(2)] sm[OF x(2)] x(3) en] by blast
    have g: "get_child ns (key ! 0) = Inr (ns ! unat x)"
      using list_all2_get_child[OF rep_Full(3)] l x by simp
    let ?ds = "cs[unat x := adelete (cs ! unat x) rest]"
    have del: "adelete (AFull cs) key = (if adelete (cs ! unat x) rest \<noteq> AEmpty then AFull ?ds
        else acollapse ?ds)"
      using x l by (simp add: adelete_AFull_Cons)
    show ?thesis
    proof (cases d)
      case False
      have e: "trie_delete (Suc f) rd n prefix key c = (Inr (False, n), c1)"
        using g ih(1) x False by (simp add: rep_Full(1) trie_simps)
      have same: "adelete (cs ! unat x) rest = cs ! unat x" using ih(2) False by simp
      have "adelete (AFull cs) key = AFull cs"
      proof (cases "cs ! unat x = AEmpty")
        case True
        have "\<nexists>p. filter (\<lambda>i. cs ! i \<noteq> AEmpty) [0..<length cs] = [p]"
        proof
          assume "\<exists>p. filter (\<lambda>i. cs ! i \<noteq> AEmpty) [0..<length cs] = [p]"
          then obtain p where "set (filter (\<lambda>i. cs ! i \<noteq> AEmpty) [0..<length cs]) = {p}" by force
          moreover obtain i j where "i < j" "j < 17" "cs ! i \<noteq> AEmpty" "cs ! j \<noteq> AEmpty"
            using wf by (auto simp: wf_AFull)
          moreover from this have "i \<in> set (filter (\<lambda>i. cs ! i \<noteq> AEmpty) [0..<length cs])"
            "j \<in> set (filter (\<lambda>i. cs ! i \<noteq> AEmpty) [0..<length cs])" using l by auto
          ultimately show False by auto
        qed
        then have "acollapse cs = AFull cs" by (auto simp: acollapse_def split: list.split)
        then show ?thesis using del same True by (metis list_update_id)
      next
        case False
        then show ?thesis using del same by simp
      qed
      then show ?thesis unfolding e using Suc.prems(1) rep_Full(2) by auto
    next
      case True
      have rn: "rep H ?V False n' (adelete (cs ! unat x) rest)" using ih(2) True by simp
      have ds: "list_all2 (rep H ?V False) (ns[unat x := n']) ?ds"
        by (rule list_all2_update[OF rep_Full(3) rn])
      show ?thesis
      proof (cases "n' = NilNode")
        case False
        then have ne: "adelete (cs ! unat x) rest \<noteq> AEmpty" using rn rep_Empty_iff by metis
        have e: "trie_delete (Suc f) rd n prefix key c =
            (Inr (True, FullNode (ns[unat x := n']) newFlag), c1)"
          using g ih(1) x True False by (simp add: rep_Full(1) trie_simps Let_def)
        show ?thesis unfolding e using ds del ne rep_Full(2) by (auto simp: rep_node_simps)
      next
        case nil: True
        then have em: "adelete (cs ! unat x) rest = AEmpty" using rn rep_Nil_iff by metis
        have ss: "sub_ok (i = 16) (?ds ! i) \<and> small (?ds ! i)" if "i < 17" for i
          using s[OF that] sm[OF that] l x(2) em
          by (cases "i = unat x") (simp_all add: small_def)
        obtain n2 c2 where col: "(case only_child 0 (ns[unat x := n']) None of
            Some (Inr pos) \<Rightarrow>
              if pos \<noteq> 16 then
                tm_bind (resolve rd (ns[unat x := n'] ! pos) (prefix @ [of_nat pos])) (\<lambda>cnode.
                  case cnode of
                    ShortNode ck cv cfl \<Rightarrow>
                      tm_bind (tm_track (onDelete (prefix @ [of_nat pos]))) (\<lambda>_.
                        tm_ret (True, ShortNode ([of_nat pos] @ ck) cv newFlag))
                  | _ \<Rightarrow> tm_ret (True, ShortNode [of_nat pos] (ns[unat x := n'] ! pos) newFlag))
              else tm_ret (True, ShortNode [of_nat pos] (ns[unat x := n'] ! pos) newFlag)
          | _ \<Rightarrow> tm_ret (True, FullNode (ns[unat x := n']) newFlag)) c1 = (Inr (True, n2), c2)"
          and rn2: "rep H ?V r n2 (acollapse ?ds)" "\<forall>h. n2 \<noteq> HashNode h"
          using collapse_rep[OF H ds _ ss, where prefix = prefix and c = c1 and r = r] l by auto
        have e: "trie_delete (Suc f) rd n prefix key c = (Inr (True, n2), c2)"
          using g ih(1) x True col[unfolded nil] by (simp add: rep_Full(1) nil trie_simps Let_def)
        show ?thesis unfolding e using rn2 del em rep_Full(2) by auto
      qed
    qed
  next
    case (rep_Hash h)
    then have wf: "wf_anode a" using Suc.prems(2) sub_ok_node by blast
    have "rep H ?V r (HashNode h) a" using Suc.prems(1) rep_Hash by simp
    note res = resolveAndTrack_rep[OF H wf Suc.prems(3) this, of prefix c]
    have en: "enough (dnode H (Some h) a) (length key) f"
      using Suc.prems(5) rep_Hash enough_dnode by blast
    obtain d n' c1 where ih:
      "trie_delete f rd (dnode H (Some h) a) prefix key (onRead prefix (blob H a) c) = (Inr (d, n'), c1)"
      "if d then rep H ?V r n' (adelete a key) \<and> (\<forall>h. n' \<noteq> HashNode h)
       else rep H ?V r n' a \<and> adelete a key = a"
      using Suc.IH[OF conjunct2[OF res] Suc.prems(2-4) en] by blast
    have e: "trie_delete (Suc f) rd n prefix key c = (Inr (d, if d then n' else dnode H (Some h) a), c1)"
      using conjunct1[OF res] ih(1) by (simp add: rep_Hash(1) trie_simps)
    show ?thesis unfolding e using ih(2) conjunct2[OF res] by (cases d) auto
  qed
qed

end
