(* ===== verification/Trie_Map.thy ===== *)
theory Trie_Map
  imports Trie_Delete
begin

section \<open>A trie is a map\<close>

text \<open>
  The contract of \<open>TryGet\<close> and \<open>tryUpdate\<close>, stated over the map from byte keys to
  values that a trie holds.  The interface is the locale \<open>update_map\<close>; the trie of
  \<open>trie/trie.go\<close> provides it, with updates of an empty value as removals.
\<close>

definition byte_keys :: "atrie \<Rightarrow> bool" where
  "byte_keys a \<longleftrightarrow> (\<forall>key. alookup a key \<noteq> None \<longrightarrow> key \<in> range keybytesToHex)"

definition contents :: "atrie \<Rightarrow> bytes \<rightharpoonup> bytes" where
  "contents a = (\<lambda>k. alookup a (keybytesToHex k))"

text \<open>Keys and values that fit the size bounds of \<open>small\<close>.\<close>

definition fits :: "bytes \<Rightarrow> bytes \<Rightarrow> bool" where
  "fits k v \<longleftrightarrow> length k < 2 ^ 59 \<and> length v \<le> 2 ^ 60"

definition represents :: "(bytes \<Rightarrow> bytes) \<Rightarrow> Trie \<Rightarrow> atrie \<Rightarrow> bool" where
  "represents H t a \<longleftrightarrow> hash_fun H \<and> rep H (trie_view (reader t)) True (root t) a \<and>
     wf_atrie a \<and> small a \<and> byte_keys a"

definition trie_holds :: "(bytes \<Rightarrow> bytes) \<Rightarrow> Trie \<Rightarrow> (bytes \<rightharpoonup> bytes) \<Rightarrow> bool" where
  "trie_holds H t m \<longleftrightarrow> (\<exists>a. represents H t a \<and> contents a = m)"

lemma key_ok_keybytes: "key_ok False (keybytesToHex k)"
  using hex_key_keybytesToHex[of k] by (simp add: key_ok_def)

lemma length_keybytesToHex [simp]: "length (keybytesToHex k) = 2 * length k + 1"
  by (simp add: keybytesToHex_unpack)

text \<open>What a write does to the map: an empty value removes the key.\<close>

definition write_map :: "bytes \<Rightarrow> bytes \<Rightarrow> (bytes \<rightharpoonup> bytes) \<Rightarrow> bytes \<rightharpoonup> bytes" where
  "write_map k v m = (if v = [] then m(k := None) else m(k \<mapsto> v))"

definition awrite :: "atrie \<Rightarrow> bytes \<Rightarrow> bytes \<Rightarrow> atrie" where
  "awrite a k v = (if v = [] then adelete a (keybytesToHex k) else ainsert a (keybytesToHex k) v)"

lemma alookup_awrite:
  "wf_atrie a \<Longrightarrow> alookup (awrite a k v) =
     (alookup a)(keybytesToHex k := (if v = [] then None else Some v))"
  using alookup_ainsert[OF _ key_ok_keybytes] adelete_ok[OF _ key_ok_keybytes]
  by (simp add: awrite_def wf_atrie_def)

lemma wf_awrite: "wf_atrie a \<Longrightarrow> wf_atrie (awrite a k v)"
  using sub_ok_ainsert[OF _ _ key_ok_keybytes] adelete_ok[OF _ key_ok_keybytes]
  by (simp add: awrite_def wf_atrie_def)

lemma contents_awrite: "wf_atrie a \<Longrightarrow> contents (awrite a k v) = write_map k v (contents a)"
  by (auto simp: contents_def alookup_awrite write_map_def fun_eq_iff dest: keybytesToHex_inj)

lemma byte_keys_awrite: "wf_atrie a \<Longrightarrow> byte_keys a \<Longrightarrow> byte_keys (awrite a k v)"
  by (auto simp: byte_keys_def alookup_awrite)

lemma small_awrite: "wf_atrie a \<Longrightarrow> small a \<Longrightarrow> fits k v \<Longrightarrow> small (awrite a k v)"
  by (auto simp: small_def alookup_awrite fits_def split: if_splits)

lemma contents_canonical:
  assumes "wf_atrie a" "byte_keys a" "wf_atrie b" "byte_keys b" and "contents a = contents b"
  shows "a = b"
proof (rule sub_ok_canonical)
  show "sub_ok False a" "sub_ok False b" using assms by (simp_all add: wf_atrie_def)
  show "alookup a = alookup b"
  proof
    fix key
    show "alookup a key = alookup b key"
    proof (cases "key \<in> range keybytesToHex")
      case True
      then show ?thesis using fun_cong[OF assms(5)] by (auto simp: contents_def)
    next
      case False
      then show ?thesis using assms(2,4) unfolding byte_keys_def by metis
    qed
  qed
qed

subsection \<open>The entry points\<close>

lemma TryGet_represents:
  assumes "represents H t a"
  shows "\<exists>t'. TryGet k t = (Inr (contents a k), t') \<and> represents H t' a \<and> reader t' = reader t"
proof -
  have r: "hash_fun H" "rep H (trie_view (reader t)) True (root t) a" "sub_ok False a" "small a"
    using assms by (simp_all add: represents_def wf_atrie_def)
  obtain n' d c' where "tryGet (trie_fuel (keybytesToHex k)) (reader t) (root t) (keybytesToHex k) 0 (capture t) =
      (Inr (alookup a (keybytesToHex k), n', d), c')" "rep H (trie_view (reader t)) True n' a"
    using tryGet_rep[OF r, where key = "keybytesToHex k" and pos = 0 and c = "capture t"
        and fuel = "trie_fuel (keybytesToHex k)"] key_ok_keybytes[of k]
      enough_trie_fuel[of "root t" "keybytesToHex k"] by auto
  then show ?thesis using assms by (auto simp: TryGet_def represents_def contents_def)
qed

lemma tryUpdate_represents:
  assumes "represents H t a" and "fits k v"
  shows "\<exists>t'. tryUpdate k v t = (Inr (), t') \<and> represents H t' (awrite a k v) \<and> reader t' = reader t"
proof -
  have r: "hash_fun H" "rep H (trie_view (reader t)) True (root t) a" "sub_ok False a" "small a"
    and wf: "wf_atrie a" "byte_keys a"
    using assms by (simp_all add: represents_def wf_atrie_def)
  let ?k = "keybytesToHex k"
  have "\<exists>d n' c'. (if length v \<noteq> 0
      then trie_insert (trie_fuel ?k) (reader t) (root t) [] ?k (ValueNode v) (capture t)
      else trie_delete (trie_fuel ?k) (reader t) (root t) [] ?k (capture t)) = (Inr (d, n'), c') \<and>
    rep H (trie_view (reader t)) True n' (awrite a k v)"
  proof (cases "v = []")
    case True
    show ?thesis
      using delete_rep[OF r key_ok_keybytes enough_trie_fuel, of k "[]" "capture t"] True
      by (auto simp: awrite_def split: if_splits)
  next
    case False
    show ?thesis
      using insert_rep[OF r(1) False r(2-) key_ok_keybytes enough_trie_fuel, of k "[]" "capture t"] False
      by (auto simp: awrite_def split: if_splits)
  qed
  then obtain d n' c' where e: "(if length v \<noteq> 0
      then trie_insert (trie_fuel ?k) (reader t) (root t) [] ?k (ValueNode v) (capture t)
      else trie_delete (trie_fuel ?k) (reader t) (root t) [] ?k (capture t)) = (Inr (d, n'), c')"
    and n': "rep H (trie_view (reader t)) True n' (awrite a k v)" by blast
  have "tryUpdate k v t = (Inr (), t\<lparr>root := n', capture := c'\<rparr>)"
    unfolding tryUpdate_def Let_def e by simp
  moreover have "represents H (t\<lparr>root := n', capture := c'\<rparr>) (awrite a k v)"
    using n' r(1) r(4) wf assms(2) by (simp add: represents_def wf_awrite small_awrite byte_keys_awrite)
  ultimately show ?thesis by auto
qed

lemma small_AEmpty [simp]: "small AEmpty"
  by (simp add: small_def)

lemma NewEmpty_represents:
  "hash_fun H \<Longrightarrow> \<exists>t. NewEmpty db = Inr t \<and> represents H t AEmpty \<and> reader t = db"
  by (simp add: NewEmpty_def trie_New_def TrieID_def represents_def rep.intros wf_atrie_def
      byte_keys_def)

lemma New_represents:
  assumes "hash_fun H" and "wf_anode a" and "small a" and "byte_keys a"
    and "stored H (trie_view db) a" and "H (blob H a) \<noteq> zeroHash" and "H (blob H a) \<noteq> emptyRoot"
  shows "\<exists>t. trie_New (TrieID (H (blob H a))) db = Inr t \<and> represents H t a \<and> reader t = db"
proof -
  have "rep H (trie_view db) True (HashNode (H (blob H a))) a"
    using assms(2,5) by (simp add: rep_node_simps wf_is_node)
  from resolveAndTrack_rep[OF assms(1-3) this, of "[]" None]
  show ?thesis
    using assms(1-4,6,7) by (simp add: trie_New_def TrieID_def represents_def wf_atrie_def sub_ok_def)
qed

subsection \<open>The map interface\<close>

fun run_writes :: "(bytes \<Rightarrow> bytes \<Rightarrow> 's \<Rightarrow> ('e + unit) \<times> 's) \<Rightarrow> (bytes \<times> bytes) list \<Rightarrow>
    's \<Rightarrow> ('e + unit) \<times> 's" where
  "run_writes update [] s = (Inr (), s)"
| "run_writes update ((k, v) # ws) s =
    (case update k v s of (Inl e, s') \<Rightarrow> (Inl e, s') | (Inr _, s') \<Rightarrow> run_writes update ws s')"

definition write_all :: "(bytes \<times> bytes) list \<Rightarrow> (bytes \<rightharpoonup> bytes) \<Rightarrow> bytes \<rightharpoonup> bytes" where
  "write_all ws m = foldl (\<lambda>m (k, v). write_map k v m) m ws"

lemma write_all_simps [simp]:
  "write_all [] m = m" "write_all ((k, v) # ws) m = write_all ws (write_map k v m)"
  by (simp_all add: write_all_def)

locale update_map =
  fixes holds :: "'s \<Rightarrow> (bytes \<rightharpoonup> bytes) \<Rightarrow> bool"
    and get :: "bytes \<Rightarrow> 's \<Rightarrow> ('e + bytes option) \<times> 's"
    and update :: "bytes \<Rightarrow> bytes \<Rightarrow> 's \<Rightarrow> ('e + unit) \<times> 's"
    and ok :: "bytes \<Rightarrow> bytes \<Rightarrow> bool"
  assumes get_holds: "holds s m \<Longrightarrow> \<exists>s'. get k s = (Inr (m k), s') \<and> holds s' m"
    and update_holds: "holds s m \<Longrightarrow> ok k v \<Longrightarrow>
      \<exists>s'. update k v s = (Inr (), s') \<and> holds s' (write_map k v m)"
begin

lemma run_holds:
  "holds s m \<Longrightarrow> \<forall>(k, v) \<in> set ws. ok k v \<Longrightarrow>
     \<exists>s'. run_writes update ws s = (Inr (), s') \<and> holds s' (write_all ws m)"
proof (induction ws arbitrary: s m)
  case (Cons w ws)
  obtain k v where w: "w = (k, v)" by (cases w)
  then obtain s' where s': "update k v s = (Inr (), s')" "holds s' (write_map k v m)"
    using update_holds[OF Cons.prems(1), of k v] Cons.prems(2) by auto
  then show ?case using Cons.IH[OF s'(2)] Cons.prems(2) w by simp
qed simp

lemma get_after_run:
  assumes "holds s m" and "\<forall>(k, v) \<in> set ws. ok k v"
  shows "\<exists>s' s''. run_writes update ws s = (Inr (), s') \<and> get k s' = (Inr (write_all ws m k), s'')"
  using run_holds[OF assms] get_holds by metis

end

interpretation tm: update_map "trie_holds H" TryGet tryUpdate fits for H
proof unfold_locales
  fix t m k assume "trie_holds H t m"
  then show "\<exists>t'. TryGet k t = (Inr (m k), t') \<and> trie_holds H t' m"
    using TryGet_represents unfolding trie_holds_def by metis
next
  fix t m k v assume "trie_holds H t m" and f: "fits k v"
  then obtain a where a: "represents H t a" "contents a = m" by (auto simp: trie_holds_def)
  then have "contents (awrite a k v) = write_map k v m"
    using contents_awrite by (auto simp: represents_def)
  then show "\<exists>t'. tryUpdate k v t = (Inr (), t') \<and> trie_holds H t' (write_map k v m)"
    using tryUpdate_represents[OF a(1) f] unfolding trie_holds_def by metis
qed

end
