(* ===== verification/Hasher.thy ===== *)
theory Hasher
  imports Trie_Map
begin

section \<open>Hashing a trie (trie/trie_node_hasher.go, crypto/crypto.go)\<close>

text \<open>
  The hasher collapses every node into what is encoded, and keeps a copy of the node with the
  computed hash in its flag.  The hash function \<open>H\<close> (the Keccak state of
  \<open>crypto/crypto.go\<close>) is an argument.  The buffer of a hasher is reset after each use, so
  every encoding starts with an empty one.
\<close>

definition HashData :: "(bytes \<Rightarrow> bytes) \<Rightarrow> bytes \<Rightarrow> bytes \<Rightarrow> bytes" where
  "HashData H data h = take (length h) (H data) @ drop (length (H data)) h"

definition encode_to_tmp :: "node \<Rightarrow> go_error + bytes" where
  "encode_to_tmp n =
    (case AppendToBytes (node_encode n empty_buf) [] of None \<Rightarrow> Inl Panic | Some enc \<Rightarrow> Inr enc)"

definition shortnodeToHash :: "(bytes \<Rightarrow> bytes) \<Rightarrow> node \<Rightarrow> bool \<Rightarrow> go_error + node" where
  "shortnodeToHash H n force =
    (case encode_to_tmp n of Inl e \<Rightarrow> Inl e
     | Inr enc \<Rightarrow> if length enc < 32 \<and> \<not> force then Inr n
                 else Inr (HashNode (HashData H enc (replicate 32 0))))"

definition fullnodeToHash :: "(bytes \<Rightarrow> bytes) \<Rightarrow> node \<Rightarrow> bool \<Rightarrow> go_error + node" where
  "fullnodeToHash H n force =
    (case encode_to_tmp n of Inl e \<Rightarrow> Inl e
     | Inr enc \<Rightarrow> if length enc < 32 \<and> \<not> force then Inr n
                 else Inr (HashNode (HashData H enc (replicate 32 0))))"

text \<open>\<open>cached.flags.hash = hn\<close>, where the result was a hash node, and nil otherwise.\<close>

definition hash_flag :: "node \<Rightarrow> nodeFlag \<Rightarrow> nodeFlag" where
  "hash_flag h fl = fl\<lparr>fl_hash := (case h of HashNode hn \<Rightarrow> Some hn | _ \<Rightarrow> None)\<rparr>"

text \<open>
  \<open>hash_slots\<close> is the loop over the first sixteen children of a full node, the
  seventeenth is copied; the result is the children of the collapsed and of the cached node.
\<close>

fun hasher_hash :: "(bytes \<Rightarrow> bytes) \<Rightarrow> node \<Rightarrow> bool \<Rightarrow> go_error + (node \<times> node)"
  and hashShortNodeChildren :: "(bytes \<Rightarrow> bytes) \<Rightarrow> bytes \<Rightarrow> node \<Rightarrow> nodeFlag \<Rightarrow> go_error + (node \<times> node)"
  and hashFullNodeChildren :: "(bytes \<Rightarrow> bytes) \<Rightarrow> node list \<Rightarrow> go_error + (node list \<times> node list)"
  and hash_slots :: "(bytes \<Rightarrow> bytes) \<Rightarrow> nat \<Rightarrow> node list \<Rightarrow> go_error + (node list \<times> node list)" where
  "hasher_hash H (ShortNode k v fl) force =
    (case fl_hash fl of Some h \<Rightarrow> Inr (HashNode h, ShortNode k v fl)
     | None \<Rightarrow>
         (case hashShortNodeChildren H k v fl of Inl e \<Rightarrow> Inl e
          | Inr (collapsed_val, cached_val) \<Rightarrow>
              (case shortnodeToHash H (ShortNode (hexToCompact k) collapsed_val fl) force of Inl e \<Rightarrow> Inl e
               | Inr h \<Rightarrow> Inr (h, ShortNode k cached_val (hash_flag h fl)))))"
| "hasher_hash H (FullNode cs fl) force =
    (case fl_hash fl of Some h \<Rightarrow> Inr (HashNode h, FullNode cs fl)
     | None \<Rightarrow>
         (case hashFullNodeChildren H cs of Inl e \<Rightarrow> Inl e
          | Inr (collapsed_cs, cached_cs) \<Rightarrow>
              (case fullnodeToHash H (FullNode collapsed_cs fl) force of Inl e \<Rightarrow> Inl e
               | Inr h \<Rightarrow> Inr (h, FullNode cached_cs (hash_flag h fl)))))"
| "hasher_hash H (ValueNode v) force = Inr (ValueNode v, ValueNode v)"
| "hasher_hash H (HashNode h) force = Inr (HashNode h, HashNode h)"
| "hasher_hash H _ force = Inl Panic"
| "hashShortNodeChildren H k (FullNode cs cfl) fl = hasher_hash H (FullNode cs cfl) False"
| "hashShortNodeChildren H k (ShortNode ck cv cfl) fl = hasher_hash H (ShortNode ck cv cfl) False"
| "hashShortNodeChildren H k v fl = Inr (v, v)"
| "hashFullNodeChildren H cs = hash_slots H 16 cs"
| "hash_slots H 0 cs = Inr (cs, cs)"
| "hash_slots H (Suc i) [] = Inr ([], [])"
| "hash_slots H (Suc i) (c # cs) =
    (case (if c = NilNode then Inr (nilValueNode, NilNode) else hasher_hash H c False) of Inl e \<Rightarrow> Inl e
     | Inr (d, c') \<Rightarrow>
         (case hash_slots H i cs of Inl e \<Rightarrow> Inl e
          | Inr (ds, cs') \<Rightarrow> Inr (d # ds, c' # cs')))"

text \<open>
  The parallel branch of \<open>hashFullNodeChildren\<close> writes the slots of the two copies from
  sixteen goroutines.  Each writes its own slot and reads only the original node, so a run
  of them is a sequence of whole steps in some order \<open>is\<close>.
\<close>

definition hash_slot_step ::
  "(bytes \<Rightarrow> bytes) \<Rightarrow> node list \<Rightarrow> node list \<times> node list \<Rightarrow> nat \<Rightarrow> go_error + (node list \<times> node list)" where
  "hash_slot_step H cs st i =
    (let (collapsed, kept) = st in
     if cs ! i \<noteq> NilNode then
       (case hasher_hash H (cs ! i) False of Inl e \<Rightarrow> Inl e
        | Inr (d, c) \<Rightarrow> Inr (collapsed[i := d], kept[i := c]))
     else Inr (collapsed[i := nilValueNode], kept))"

definition hashFullNodeChildren_parallel ::
  "(bytes \<Rightarrow> bytes) \<Rightarrow> nat list \<Rightarrow> node list \<Rightarrow> go_error + (node list \<times> node list)" where
  "hashFullNodeChildren_parallel H is cs = foldE (hash_slot_step H cs) (cs, cs) is"

subsection \<open>Entry points (trie/trie.go)\<close>

definition hashRoot :: "(bytes \<Rightarrow> bytes) \<Rightarrow> Trie \<Rightarrow> go_error + (node \<times> node)" where
  "hashRoot H t =
    (if root t = NilNode then Inr (HashNode emptyRoot, NilNode)
     else hasher_hash H (root t) True)"

definition trie_Hash :: "(bytes \<Rightarrow> bytes) \<Rightarrow> Trie \<Rightarrow> (go_error + hash) \<times> Trie" where
  "trie_Hash H t =
    (case hashRoot H t of
       Inl e \<Rightarrow> (Inl e, t)
     | Inr (h, n) \<Rightarrow>
         (case h of HashNode b \<Rightarrow> Inr (BytesToHash b) | _ \<Rightarrow> Inl Panic, t\<lparr>root := n\<rparr>))"

subsection \<open>The hasher computes the Merkle encoding\<close>

lemma HashData_hash: "hash_fun H \<Longrightarrow> HashData H data (replicate 32 0) = H data"
  by (simp add: HashData_def)

lemma encode_to_tmp: "length (node_bytes n) < 2 ^ 64 \<Longrightarrow> encode_to_tmp n = Inr (node_bytes n)"
  using emits_AppendToBytes[OF emits_node_encode, of n "[]"] by (simp add: encode_to_tmp_def)

text \<open>What a node collapses to: its hash where it is referred to by hash.\<close>

definition collapses :: "(bytes \<Rightarrow> bytes) \<Rightarrow> bool \<Rightarrow> node \<Rightarrow> atrie \<Rightarrow> bool" where
  "collapses H r h a \<longleftrightarrow> h \<noteq> NilNode \<and>
     (if r \<or> hashed H a then h = HashNode (H (blob H a)) else node_bytes h = blob H a \<and> (\<forall>b. is_node a \<longrightarrow> h \<noteq> HashNode b))"

lemma collapses_ref: "collapses H False h a \<Longrightarrow> node_bytes h = rlp_enc (ref_of H a)"
  by (auto simp: collapses_def ref_of_cases blob_def split: if_splits)

text \<open>The last step of hashing a short or a full node.\<close>

lemma finish_hash:
  assumes H: "hash_fun H" and b: "node_bytes n = blob H a" "length (blob H a) < 2 ^ 64"
    and n: "is_node a" "\<And>h. n \<noteq> HashNode h" "n \<noteq> NilNode"
  shows "\<exists>h. shortnodeToHash H n r = Inr h \<and> fullnodeToHash H n r = Inr h \<and> collapses H r h a \<and>
    hash_flag h fl = fl\<lparr>fl_hash := if r \<or> hashed H a then Some (H (blob H a)) else None\<rparr>"
proof -
  have e: "encode_to_tmp n = Inr (blob H a)" using encode_to_tmp[of n] b by simp
  define h where "h = (if length (blob H a) < 32 \<and> \<not> r then n else HashNode (H (blob H a)))"
  have "shortnodeToHash H n r = Inr h" "fullnodeToHash H n r = Inr h"
    by (simp_all add: shortnodeToHash_def fullnodeToHash_def e h_def HashData_hash[OF H])
  moreover have "collapses H r h a" using n b by (auto simp: collapses_def h_def hashed_def)
  moreover have "hash_flag h fl = fl\<lparr>fl_hash := if r \<or> hashed H a then Some (H (blob H a)) else None\<rparr>"
    using n by (auto simp: hash_flag_def h_def hashed_def split: node.split)
  ultimately show ?thesis by blast
qed

text \<open>What the hasher returns for a node that stands for \<open>a\<close>.\<close>

definition hash_result ::
  "(bytes \<Rightarrow> bytes) \<Rightarrow> (hash \<Rightarrow> bytes) \<Rightarrow> bool \<Rightarrow> atrie \<Rightarrow> go_error + node \<times> node \<Rightarrow> bool" where
  "hash_result H view r a res \<longleftrightarrow>
     (\<exists>h n'. res = Inr (h, n') \<and> collapses H r h a \<and> rep H view r n' a \<and> sealed H a r n')"

lemma flag_ok_hashed:
  assumes "flag_ok H view r fl a" and "fl_hash fl = None"
  shows "flag_ok H view r (fl\<lparr>fl_hash := if r \<or> hashed H a then Some (H (blob H a)) else None\<rparr>) a"
  using assms by (auto simp: flag_ok_def)

lemma collapses_Val: "collapses H False (ValueNode v) (AVal v)"
  by (simp add: collapses_def hashed_def blob_def)

lemma blob_AFull_collapsed:
  assumes "list_all2 (\<lambda>d c. node_bytes d = rlp_enc (ref_of H c)) ds cs"
  shows "node_bytes (FullNode ds fl) = blob H (AFull cs)"
proof -
  have "map node_bytes ds = map (\<lambda>c. rlp_enc (ref_of H c)) cs"
    using assms by (simp add: list_all2_conv_all_nth list_eq_iff_nth_eq)
  then show ?thesis by (simp add: blob_simps)
qed

definition slots_result ::
  "(bytes \<Rightarrow> bytes) \<Rightarrow> (hash \<Rightarrow> bytes) \<Rightarrow> atrie list \<Rightarrow> go_error + node list \<times> node list \<Rightarrow> bool" where
  "slots_result H view cs res \<longleftrightarrow>
     (\<exists>ds ns'. res = Inr (ds, ns') \<and> list_all2 (\<lambda>d c. node_bytes d = rlp_enc (ref_of H c)) ds cs \<and>
        list_all2 (rep H view False) ns' cs \<and> list_all2 (\<lambda>n c. sealed H c False n) ns' cs)"

lemma hash_slots_rep:
  assumes "\<And>n c. n \<in> set (take i ns) \<Longrightarrow> rep H view False n c \<Longrightarrow> c \<in> set (take i cs) \<Longrightarrow> n \<noteq> NilNode \<Longrightarrow>
      hash_result H view False c (hasher_hash H n False)"
    and "list_all2 (rep H view False) ns cs"
    and "\<And>c. c \<in> set (drop i cs) \<Longrightarrow> \<not> is_node c"
  shows "slots_result H view cs (hash_slots H i ns)"
  using assms
proof (induction i arbitrary: ns cs)
  case 0
  have "list_all2 (\<lambda>d c. node_bytes d = rlp_enc (ref_of H c)) ns cs \<and> list_all2 (\<lambda>n c. sealed H c False n) ns cs"
    using 0(2,3)
  proof (induction rule: list_all2_induct)
    case (Cons n ns c cs)
    then have "\<not> is_node c" by simp
    with Cons(1) have "n = NilNode \<and> c = AEmpty \<or> (\<exists>v. n = ValueNode v \<and> c = AVal v)"
      by (cases c) (auto simp: rep_atrie_simps)
    with Cons show ?case by (auto simp: ref_of_cases hashed_def)
  qed simp
  then show ?case using 0(2) by (simp add: slots_result_def)
next
  case (Suc i)
  show ?case
  proof (cases ns)
    case Nil
    then show ?thesis using Suc.prems(2) by (simp add: slots_result_def)
  next
    case (Cons n ns1)
    then obtain c cs1 where c: "cs = c # cs1" "rep H view False n c" "list_all2 (rep H view False) ns1 cs1"
      using Suc.prems(2) by (auto simp: list_all2_Cons1)
    have "slots_result H view cs1 (hash_slots H i ns1)"
      using Suc.IH[OF _ c(3)] Suc.prems(1,3) by (simp add: Cons c(1))
    then obtain ds ns' where 1: "hash_slots H i ns1 = Inr (ds, ns')"
        "list_all2 (\<lambda>d c. node_bytes d = rlp_enc (ref_of H c)) ds cs1"
        "list_all2 (rep H view False) ns' cs1" "list_all2 (\<lambda>n c. sealed H c False n) ns' cs1"
      by (auto simp: slots_result_def)
    show ?thesis
    proof (cases "n = NilNode")
      case True
      then have "c = AEmpty" using c(2) rep_Nil_iff by simp
      then show ?thesis using True 1 c(2)
        by (simp add: Cons c(1) slots_result_def nilValueNode_def ref_of_cases hashed_def)
    next
      case False
      then have "hash_result H view False c (hasher_hash H n False)"
        using Suc.prems(1)[of n c] c(2) by (simp add: Cons c(1))
      then obtain h n' where 2: "hasher_hash H n False = Inr (h, n')" "collapses H False h c"
          "rep H view False n' c" "sealed H c False n'" by (auto simp: hash_result_def)
      then show ?thesis using 1 False collapses_ref[OF 2(2)] by (simp add: Cons c(1) slots_result_def)
    qed
  qed
qed

lemma hash_cached:
  assumes "rep H view r n a" and "n = ShortNode k v fl \<or> n = FullNode cs fl" and "fl_hash fl = Some h"
  shows "hash_result H view r a (Inr (HashNode h, n))"
proof -
  have "h = H (blob H a) \<and> (r \<or> hashed H a) \<and> sealed H a r n"
    using assms by (auto elim!: rep_ShortE rep_FullE simp: flag_ok_def sealed_AFull)
  then show ?thesis using assms(1) by (auto simp: hash_result_def collapses_def)
qed

lemma hash_rep:
  assumes H: "hash_fun H"
  shows "rep H view r n a \<Longrightarrow> wf_anode a \<Longrightarrow> small a \<Longrightarrow> hash_result H view r a (hasher_hash H n r)"
proof (induction n arbitrary: r a)
  case (ShortNode k v fl)
  then obtain c where a: "a = AShort k c" "rep H view False v c" "flag_ok H view r fl a"
    by (auto elim: rep_ShortE)
  have c: "sub_ok (hasTerm k) c" "small c" using ShortNode.prems(2,3) a(1) small_AShort by (auto simp: wf_AShort)
  have len: "length (blob H a) < 2 ^ 64" using length_blob[OF H ShortNode.prems(2,3)] by simp
  show ?case
  proof (cases "fl_hash fl")
    case (Some h)
    then show ?thesis using hash_cached[OF ShortNode.prems(1)] by simp
  next
    case None
    obtain d v' where ch: "hashShortNodeChildren H k v fl = Inr (d, v')" "collapses H False d c"
      "rep H view False v' c" "sealed H c False v'"
    proof (cases "is_node c \<and> (\<forall>h. v \<noteq> HashNode h)")
      case True
      then have "hash_result H view False c (hasher_hash H v False)"
        using ShortNode.IH[OF a(2)] c sub_ok_node by blast
      moreover have "(\<exists>k' m g. v = ShortNode k' m g) \<or> (\<exists>ms g. v = FullNode ms g)"
        using a(2) True by (cases rule: rep.cases) simp_all
      then have "hashShortNodeChildren H k v fl = hasher_hash H v False" by auto
      ultimately show ?thesis using that by (auto simp: hash_result_def)
    next
      case False
      then have "(\<exists>h. v = HashNode h \<and> h = H (blob H c) \<and> hashed H c) \<or> (\<exists>w. v = ValueNode w \<and> c = AVal w)"
        using ShortNode.prems(2) a(1) by (rule_tac rep.cases[OF a(2)]) (auto simp: wf_AShort)
      then show ?thesis using that a(2)
        by (auto simp: collapses_def hashed_def[of H "AVal _"] blob_def)
    qed
    let ?n = "ShortNode (hexToCompact k) d fl"
    have nb: "node_bytes ?n = blob H a" using collapses_ref[OF ch(2)] by (simp add: a(1) blob_simps)
    obtain h where h: "shortnodeToHash H ?n r = Inr h" "collapses H r h a"
        "hash_flag h fl = fl\<lparr>fl_hash := if r \<or> hashed H a then Some (H (blob H a)) else None\<rparr>"
      using finish_hash[OF H nb len, of r fl] a(1) by auto
    have "flag_ok H view r (hash_flag h fl) a" using flag_ok_hashed[OF a(3) None] by (simp add: h(3))
    then have "rep H view r (ShortNode k v' (hash_flag h fl)) a"
      using ch(3,4) by (simp add: a(1) rep_node_simps)
    moreover have "sealed H a r (ShortNode k v' (hash_flag h fl))" using ch(4) h(3) by (simp add: a(1))
    ultimately show ?thesis using ch(1) h None by (simp add: hash_result_def)
  qed
next
  case (FullNode ns fl)
  then obtain cs where a: "a = AFull cs" "list_all2 (rep H view False) ns cs" "flag_ok H view r fl a"
    by (auto elim: rep_FullE)
  have l: "length cs = 17" "\<And>i. i < 17 \<Longrightarrow> sub_ok (i = 16) (cs ! i)" "\<And>i. i < 17 \<Longrightarrow> small (cs ! i)"
    using FullNode.prems(2,3) small_AFull[of cs] by (auto simp: a(1) wf_AFull)
  have len: "length (blob H a) < 2 ^ 64" using length_blob[OF H FullNode.prems(2,3)] by simp
  show ?case
  proof (cases "fl_hash fl")
    case (Some h)
    then show ?thesis using hash_cached[OF FullNode.prems(1)] by simp
  next
    case None
    have "slots_result H view cs (hash_slots H 16 ns)"
    proof (rule hash_slots_rep[OF _ a(2)])
      fix n c assume n: "n \<in> set (take 16 ns)" "rep H view False n c" "c \<in> set (take 16 cs)" "n \<noteq> NilNode"
      obtain i where "i < 16" "c = cs ! i" using n(3) l(1) by (auto simp: in_set_conv_nth)
      then have "sub_ok False c" "small c" using l(2)[of i] l(3)[of i] by simp_all
      moreover have "c \<noteq> AEmpty" using n(2,4) rep_Empty_iff by blast
      ultimately have "wf_anode c" "small c" by (auto simp: sub_ok_def)
      then show "hash_result H view False c (hasher_hash H n False)"
        by (rule FullNode.IH[OF in_set_takeD[OF n(1)] n(2)])
    next
      fix c assume "c \<in> set (drop 16 cs)"
      moreover have "drop 16 cs = [cs ! 16]" using l(1) Cons_nth_drop_Suc[of 16 cs] by simp
      ultimately show "\<not> is_node c" using l(2)[of 16] by (auto simp: sub_ok_def)
    qed
    then obtain ds ns' where s: "hash_slots H 16 ns = Inr (ds, ns')"
        "list_all2 (\<lambda>d c. node_bytes d = rlp_enc (ref_of H c)) ds cs"
        "list_all2 (rep H view False) ns' cs" "list_all2 (\<lambda>n c. sealed H c False n) ns' cs"
      by (auto simp: slots_result_def)
    let ?n = "FullNode ds fl"
    have nb: "node_bytes ?n = blob H a" using blob_AFull_collapsed[OF s(2)] by (simp add: a(1))
    obtain h where h: "fullnodeToHash H ?n r = Inr h" "collapses H r h a"
        "hash_flag h fl = fl\<lparr>fl_hash := if r \<or> hashed H a then Some (H (blob H a)) else None\<rparr>"
      using finish_hash[OF H nb len, of r fl] a(1) by auto
    have "flag_ok H view r (hash_flag h fl) a" using flag_ok_hashed[OF a(3) None] by (simp add: h(3))
    then have "rep H view r (FullNode ns' (hash_flag h fl)) a"
      using s(3,4) by (simp add: a(1) rep_node_simps)
    moreover have "sealed H a r (FullNode ns' (hash_flag h fl))" using s(4) h(3) by (simp add: a(1) sealed_AFull)
    ultimately show ?thesis using s(1) h None by (simp add: hash_result_def)
  qed
next
  case (HashNode h)
  then have "r \<or> hashed H a" "h = H (blob H a)" by (auto elim: rep_HashE)
  then show ?case using HashNode.prems(1) by (auto simp: hash_result_def collapses_def)
qed (auto elim: rep.cases)

theorem Hash_represents:
  assumes "represents H t a"
  shows "\<exists>t'. trie_Hash H t = (Inr (root_hash H a), t') \<and> represents H t' a \<and>
    sealed H a True (root t') \<and> reader t' = reader t \<and> capture t' = capture t"
proof -
  have r: "hash_fun H" "rep H (trie_view (reader t)) True (root t) a" "sub_ok False a" "small a"
    using assms by (simp_all add: represents_def wf_atrie_def)
  show ?thesis
  proof (cases "a = AEmpty")
    case True
    then have "root t = NilNode" using r(2) rep_Empty_iff by blast
    then show ?thesis using assms True
      by (cases t) (simp add: trie_Hash_def hashRoot_def root_hash_def BytesToHash_id)
  next
    case False
    then have n: "root t \<noteq> NilNode" "wf_anode a" using r(2,3) rep_Nil_iff by (auto simp: sub_ok_def)
    obtain n' where "hasher_hash H (root t) True = Inr (HashNode (H (blob H a)), n')"
      "rep H (trie_view (reader t)) True n' a" "sealed H a True n'"
      using hash_rep[OF r(1,2) n(2) r(4)] by (auto simp: hash_result_def collapses_def)
    then show ?thesis using assms r(1) n False
      by (simp add: trie_Hash_def hashRoot_def root_hash_def represents_def BytesToHash_id)
  qed
qed

subsection \<open>The parallel branch\<close>

definition slot_hash :: "(bytes \<Rightarrow> bytes) \<Rightarrow> node \<Rightarrow> go_error + node \<times> node" where
  "slot_hash H c = (if c = NilNode then Inr (nilValueNode, NilNode) else hasher_hash H c False)"

lemma hash_slots_nth:
  "hash_slots H i cs = Inr (ds, cs') \<Longrightarrow> length ds = length cs \<and> length cs' = length cs \<and>
     (\<forall>j < length cs. (if j < i then slot_hash H (cs ! j) = Inr (ds ! j, cs' ! j)
        else ds ! j = cs ! j \<and> cs' ! j = cs ! j))"
proof (induction i arbitrary: cs ds cs')
  case (Suc i)
  show ?case
  proof (cases cs)
    case (Cons c cs1)
    then obtain d c' ds1 cs1' where 1: "slot_hash H c = Inr (d, c')" "hash_slots H i cs1 = Inr (ds1, cs1')"
        "ds = d # ds1" "cs' = c' # cs1'"
      using Suc.prems by (auto simp: slot_hash_def split: sum.splits if_splits)
    then show ?thesis using Suc.IH[OF 1(2)] by (auto simp: Cons nth_Cons split: nat.split)
  qed (use Suc.prems in simp)
qed simp

lemma hash_slot_step_run:
  assumes "\<And>i. i \<in> set is \<Longrightarrow> i < length cs \<and> slot_hash H (cs ! i) = Inr (D i, C i)"
    and "length ds0 = length cs" and "length cs0 = length cs"
    and "\<And>i. i \<in> set is \<Longrightarrow> cs0 ! i = cs ! i \<or> cs0 ! i = C i"
  shows "\<exists>ds1 cs1. foldE (hash_slot_step H cs) (ds0, cs0) is = Inr (ds1, cs1) \<and>
    length ds1 = length cs \<and> length cs1 = length cs \<and>
    (\<forall>j < length cs. ds1 ! j = (if j \<in> set is then D j else ds0 ! j) \<and>
       cs1 ! j = (if j \<in> set is then C j else cs0 ! j))"
  using assms
proof (induction "is" arbitrary: ds0 cs0)
  case (Cons i "is")
  have i: "i < length cs" "slot_hash H (cs ! i) = Inr (D i, C i)" "cs0 ! i = cs ! i \<or> cs0 ! i = C i"
    using Cons.prems by auto
  have step: "hash_slot_step H cs (ds0, cs0) i = Inr (ds0[i := D i], cs0[i := C i])"
  proof (cases "cs ! i = NilNode")
    case True
    then have "D i = nilValueNode" "C i = NilNode" "cs0 ! i = NilNode"
      using i(2,3) by (auto simp: slot_hash_def)
    then show ?thesis using True list_update_id[of cs0 i] by (simp add: hash_slot_step_def)
  next
    case False
    then show ?thesis using i(2) by (simp add: hash_slot_step_def slot_hash_def)
  qed
  have "cs0[i := C i] ! j = cs ! j \<or> cs0[i := C i] ! j = C j" if "j \<in> set is" for j
    using Cons.prems(1,3,4) that by (cases "j = i") auto
  then have "\<exists>ds1 cs1. foldE (hash_slot_step H cs) (ds0[i := D i], cs0[i := C i]) is = Inr (ds1, cs1) \<and>
    length ds1 = length cs \<and> length cs1 = length cs \<and>
    (\<forall>j < length cs. ds1 ! j = (if j \<in> set is then D j else ds0[i := D i] ! j) \<and>
       cs1 ! j = (if j \<in> set is then C j else cs0[i := C i] ! j))"
    using Cons.prems(1-3) by (intro Cons.IH) auto
  then obtain ds1 cs1 where r: "foldE (hash_slot_step H cs) (ds0[i := D i], cs0[i := C i]) is = Inr (ds1, cs1)"
    "length ds1 = length cs" "length cs1 = length cs"
    "\<forall>j < length cs. ds1 ! j = (if j \<in> set is then D j else ds0[i := D i] ! j) \<and>
       cs1 ! j = (if j \<in> set is then C j else cs0[i := C i] ! j)" by blast
  have "ds1 ! j = (if j \<in> set (i # is) then D j else ds0 ! j) \<and>
      cs1 ! j = (if j \<in> set (i # is) then C j else cs0 ! j)" if "j < length cs" for j
    using r(4) that Cons.prems(2,3) by (cases "j = i") auto
  then show ?case using r(1-3) step by auto
qed simp

lemma hashFullNodeChildren_parallel_eq:
  assumes "hashFullNodeChildren H cs = Inr (ds, cs')" and "length cs = 17" and "set is = {..<16}"
  shows "hashFullNodeChildren_parallel H is cs = Inr (ds, cs')"
proof -
  have s: "hash_slots H 16 cs = Inr (ds, cs')" using assms(1) by simp
  note n = hash_slots_nth[OF s]
  have sl: "i \<in> set is \<Longrightarrow> i < length cs \<and> slot_hash H (cs ! i) = Inr (ds ! i, cs' ! i)" for i
    using n assms(2,3) by auto
  obtain ds1 cs1 where r: "foldE (hash_slot_step H cs) (cs, cs) is = Inr (ds1, cs1)"
    "length ds1 = length cs" "length cs1 = length cs"
    "\<forall>j < length cs. ds1 ! j = (if j \<in> set is then ds ! j else cs ! j) \<and>
       cs1 ! j = (if j \<in> set is then cs' ! j else cs ! j)"
    using hash_slot_step_run[of "is" cs H "\<lambda>i. ds ! i" "\<lambda>i. cs' ! i" cs cs, OF sl] by auto
  have "ds1 = ds" "cs1 = cs'"
    using n r assms(3) by (auto intro!: nth_equalityI)
  then show ?thesis using r(1) by (simp add: hashFullNodeChildren_parallel_def)
qed

subsection \<open>The root hash authenticates the contents\<close>

text \<open>The blobs a root hash depends on.\<close>

fun sub_blobs :: "(bytes \<Rightarrow> bytes) \<Rightarrow> atrie \<Rightarrow> bytes set" where
  "sub_blobs H AEmpty = {}"
| "sub_blobs H (AVal v) = {}"
| "sub_blobs H (AShort k c) = insert (blob H (AShort k c)) (sub_blobs H c)"
| "sub_blobs H (AFull cs) = insert (blob H (AFull cs)) (\<Union>c \<in> set cs. sub_blobs H c)"

lemma blob_in_sub_blobs: "is_node a \<Longrightarrow> blob H a \<in> sub_blobs H a"
  by (cases a) simp_all

lemma dnode_kind: "dnode H h c = dnode H h' d \<Longrightarrow> is_node c = is_node d"
  by (cases c; cases d; simp add: dnode_simps)

lemma dnode_leaf_inj: "\<not> is_node c \<Longrightarrow> \<not> is_node d \<Longrightarrow> dnode H None c = dnode H None d \<Longrightarrow> c = d"
  by (cases c; cases d; simp)

lemma dref_hash_iff: "dref H c = HashNode h \<longleftrightarrow> hashed H c \<and> h = H (blob H c)"
  using dnode_not_hash[of H None c h] by (auto simp: dref_def)

lemma decode_inj:
  assumes "hash_fun H" and "wf_anode c" "small c" "wf_anode d" "small d" and "blob H c = blob H d"
  shows "dnode H h c = dnode H h d"
  using decode_blob[OF assms(1-3), of h] decode_blob[OF assms(1,4,5), of h] assms(6) by simp

lemma dref_inj:
  assumes H: "hash_fun H" and s: "sub_ok t c" "sub_ok t d" "small c" "small d"
    and inj: "inj_on H (sub_blobs H c \<union> sub_blobs H d)" and e: "dref H c = dref H d"
    and IH: "wf_anode c \<Longrightarrow> wf_anode d \<Longrightarrow> dnode H None c = dnode H None d \<Longrightarrow> c = d"
  shows "c = d"
proof -
  have "dnode H None c = dnode H None d \<and> is_node c = is_node d"
  proof (cases "hashed H c")
    case True
    then have d: "hashed H d" "H (blob H c) = H (blob H d)"
      using e dref_hash_iff[of H c] dref_hash_iff[of H d] by auto
    then have n: "is_node c" "is_node d" using True by (auto simp: hashed_def)
    then have "blob H c = blob H d" using inj d(2) blob_in_sub_blobs by (metis UnI1 UnI2 inj_onD)
    then show ?thesis using decode_inj[OF H] n s sub_ok_node by blast
  next
    case False
    then have "\<not> hashed H d" using e dref_hash_iff[of H c] dref_hash_iff[of H d] by auto
    then have "dnode H None c = dnode H None d" using e False by (simp add: dref_def)
    then show ?thesis using dnode_kind by blast
  qed
  then show ?thesis using IH dnode_leaf_inj s(1,2) sub_ok_node by metis
qed

lemma dnode_inj:
  assumes H: "hash_fun H"
  shows "wf_anode a \<Longrightarrow> small a \<Longrightarrow> wf_anode b \<Longrightarrow> small b \<Longrightarrow>
    inj_on H (sub_blobs H a \<union> sub_blobs H b) \<Longrightarrow> dnode H h a = dnode H h b \<Longrightarrow> a = b"
proof (induction a arbitrary: b h)
  case (AShort k c)
  then obtain d where b: "b = AShort k d" "dref H c = dref H d" by (cases b) (auto simp: dnode_simps)
  have s: "sub_ok (hasTerm k) c" "sub_ok (hasTerm k) d" "small c" "small d"
    using AShort.prems small_AShort b(1) by (auto simp: wf_AShort)
  have inj: "inj_on H (sub_blobs H c \<union> sub_blobs H d)"
    using AShort.prems(5) by (rule inj_on_subset) (auto simp: b(1))
  show ?case using dref_inj[OF H s inj b(2)] AShort.IH s(3,4) inj by (simp add: b(1))
next
  case (AFull cs)
  then obtain ds where b: "b = AFull ds" "map (dref H) cs = map (dref H) ds"
    by (cases b) (auto simp: dnode_simps)
  have l: "length cs = 17" "length ds = 17" using AFull.prems b(1) by (auto simp: wf_AFull)
  have "cs ! i = ds ! i" if i: "i < 17" for i
  proof -
    have c: "cs ! i \<in> set cs" "ds ! i \<in> set ds" using i l by simp_all
    have s: "sub_ok (i = 16) (cs ! i)" "sub_ok (i = 16) (ds ! i)" "small (cs ! i)" "small (ds ! i)"
      using AFull.prems(1-4) small_AFull b(1) i l by (auto simp: wf_AFull)
    have inj: "inj_on H (sub_blobs H (cs ! i) \<union> sub_blobs H (ds ! i))"
      using AFull.prems(5) by (rule inj_on_subset) (use c in \<open>auto simp: b(1)\<close>)
    have "dref H (cs ! i) = dref H (ds ! i)" using b(2) i l by (metis nth_map)
    then show ?thesis using dref_inj[OF H s inj] AFull.IH[OF c(1)] s(3,4) inj by blast
  qed
  then show ?case using l by (auto simp: b(1) intro: nth_equalityI)
qed simp_all

text \<open>
  Tries with the same root hash are the same when the hash function does not collide on
  their blobs.  The hash of the empty trie must not be the hash of a blob either.
\<close>

lemma root_hash_inj:
  assumes H: "hash_fun H" and a: "wf_atrie a" "small a" "wf_atrie b" "small b"
    and inj: "inj_on H (sub_blobs H a \<union> sub_blobs H b)"
    and e: "emptyRoot \<notin> H ` (sub_blobs H a \<union> sub_blobs H b)" and r: "root_hash H a = root_hash H b"
  shows "a = b"
proof (cases "a = AEmpty \<or> b = AEmpty")
  case True
  have "c \<noteq> AEmpty \<Longrightarrow> wf_atrie c \<Longrightarrow> blob H c \<in> sub_blobs H c" for c
    by (cases c) (auto simp: wf_atrie_def sub_ok_def)
  then have "a \<noteq> AEmpty \<Longrightarrow> blob H a \<in> sub_blobs H a" "b \<noteq> AEmpty \<Longrightarrow> blob H b \<in> sub_blobs H b"
    using a by blast+
  then show ?thesis using True r e by (auto simp: root_hash_def image_iff split: if_splits)
next
  case False
  then have n: "wf_anode a" "wf_anode b" using a(1,3) by (auto simp: wf_atrie_def sub_ok_def)
  then have "blob H a \<in> sub_blobs H a" "blob H b \<in> sub_blobs H b"
    using blob_in_sub_blobs wf_is_node by blast+
  then have "blob H a = blob H b" using inj r False by (auto simp: root_hash_def dest: inj_onD)
  then show ?thesis using dnode_inj[OF H n(1) a(2) n(2) a(4) inj] decode_inj[OF H n(1) a(2) n(2) a(4)] by blast
qed

end
