(* ===== verification/Committer.thy ===== *)
theory Committer
  imports Hasher "HOL-Library.Sublist"
begin

section \<open>Committing a trie (trie/trie_committer.go)\<close>

text \<open>
  The committer walks the dirty part of a hashed trie, children first, and collects every
  node that is referred to by hash in a node set.  The tracer is only read.  A panic, in
  \<open>cache\<close>, in \<open>simplifyNode\<close> or in a failed type assertion, is the error \<open>Panic\<close>.
\<close>

definition nodeCommit ::
  "tracer \<Rightarrow> bool \<Rightarrow> bytes \<Rightarrow> node \<Rightarrow> NodeSet \<Rightarrow> go_error + (node \<times> NodeSet)" where
  "nodeCommit capt collectLeaf path collapsed ns =
    (case cache collapsed of Inl e \<Rightarrow> Inl e
     | Inr (Some h, _) \<Rightarrow>
         (case simplifyNode collapsed of Inl e \<Rightarrow> Inl e
          | Inr simple \<Rightarrow>
              (let nhash = BytesToHash h;
                   ns1 = markUpdated path \<lparr>mn_hash = nhash, mn_node = simple\<rparr> (getOldv path capt) ns;
                   ns2 = (if collectLeaf then
                            (case collapsed of
                               ShortNode _ (ValueNode val) _ \<Rightarrow>
                                 addLeaf \<lparr>leaf_blob = val, leaf_parent = nhash\<rparr> ns1
                             | _ \<Rightarrow> ns1)
                          else ns1)
               in Inr (HashNode h, ns2)))
     | Inr (None, _) \<Rightarrow>
         (case collapsed of
            HashNode hn \<Rightarrow> Inr (HashNode hn, ns)
          | _ \<Rightarrow> if length (getOldv path capt) \<noteq> 0
                then Inr (collapsed, markDeleted path (getOldv path capt) ns)
                else Inr (collapsed, ns)))"

text \<open>
  \<open>committer.commit\<close> and \<open>commitChildren\<close>; the latter is called with the index of the
  first of the children it is given, and copies the seventeenth.
\<close>

fun commit_node ::
    "tracer \<Rightarrow> bool \<Rightarrow> bytes \<Rightarrow> node \<Rightarrow> NodeSet \<Rightarrow> go_error + (node \<times> NodeSet)"
  and commitChildren ::
    "tracer \<Rightarrow> bool \<Rightarrow> bytes \<Rightarrow> nat \<Rightarrow> node list \<Rightarrow> NodeSet \<Rightarrow> go_error + (node list \<times> NodeSet)" where
  "commit_node capt cl path (ShortNode k v fl) ns =
    (if fl_hash fl \<noteq> None \<and> \<not> dirty fl then Inr (HashNode (the (fl_hash fl)), ns)
     else
       (case (case v of FullNode _ _ \<Rightarrow> commit_node capt cl (path @ k) v ns | _ \<Rightarrow> Inr (v, ns)) of
          Inl e \<Rightarrow> Inl e
        | Inr (v', ns1) \<Rightarrow> nodeCommit capt cl path (ShortNode (hexToCompact k) v' fl) ns1))"
| "commit_node capt cl path (FullNode cs fl) ns =
    (if fl_hash fl \<noteq> None \<and> \<not> dirty fl then Inr (HashNode (the (fl_hash fl)), ns)
     else
       (case commitChildren capt cl path 0 cs ns of
          Inl e \<Rightarrow> Inl e
        | Inr (hashedKids, ns1) \<Rightarrow> nodeCommit capt cl path (FullNode hashedKids fl) ns1))"
| "commit_node capt cl path (HashNode h) ns = Inr (HashNode h, ns)"
| "commit_node capt cl path _ ns = Inl Panic"
| "commitChildren capt cl path i [] ns = Inr ([], ns)"
| "commitChildren capt cl path i (c # cs) ns =
    (if i \<ge> 16 then Inr (c # cs, ns)
     else
       (case (if c = NilNode then Inr (NilNode, ns)
              else case c of HashNode h \<Rightarrow> Inr (HashNode h, ns)
                | _ \<Rightarrow> commit_node capt cl (path @ [of_nat i]) c ns) of
          Inl e \<Rightarrow> Inl e
        | Inr (c', ns1) \<Rightarrow>
            (case commitChildren capt cl path (Suc i) cs ns1 of Inl e \<Rightarrow> Inl e
             | Inr (cs', ns2) \<Rightarrow> Inr (c' # cs', ns2))))"

definition mark_deleted_paths :: "tracer \<Rightarrow> NodeSet \<Rightarrow> NodeSet" where
  "mark_deleted_paths capt ns =
    foldl (\<lambda>ns path. let old = getOldv path capt in
        if length old = 0 then ns else markDeleted path old ns)
      ns (deleteList capt)"

definition committer_Commit ::
  "tracer \<Rightarrow> bool \<Rightarrow> node \<Rightarrow> NodeSet \<Rightarrow> go_error + (bytes \<times> NodeSet)" where
  "committer_Commit capt cl n ns =
    (case commit_node capt cl [] n ns of Inl e \<Rightarrow> Inl e
     | Inr (h, ns1) \<Rightarrow>
         (let ns2 = mark_deleted_paths capt ns1 in
          case h of HashNode b \<Rightarrow> Inr (b, ns2) | _ \<Rightarrow> Inl Panic))"

text \<open>
  \<open>Trie.Commit\<close>; a nil node set is \<open>None\<close>.  The deferred reset of the tracer runs on every
  way out but the one for an empty trie, where it is not yet registered.
\<close>

definition trie_Commit ::
  "(bytes \<Rightarrow> bytes) \<Rightarrow> bool \<Rightarrow> Trie \<Rightarrow> (go_error + hash \<times> NodeSet option) \<times> Trie" where
  "trie_Commit H collectLeaf t =
    (if root t = NilNode then (Inr (emptyRoot, None), t)
     else
       (let (r, t1) = trie_Hash H t;
            done = (\<lambda>t. t\<lparr>capture := capture_reset (capture t)\<rparr>) in
        case r of Inl e \<Rightarrow> (Inl e, done t1)
        | Inr rootHash \<Rightarrow>
            (case cache (root t1) of Inl e \<Rightarrow> (Inl e, done t1)
             | Inr (h, dirt) \<Rightarrow>
                 if \<not> dirt then
                   (Inr (rootHash, None),
                    done (t1\<lparr>root := HashNode (case h of None \<Rightarrow> [] | Some b \<Rightarrow> b)\<rparr>))
                 else
                   (case committer_Commit (capture t1) collectLeaf (root t1) (NewNodeSet zeroHash) of
                      Inl e \<Rightarrow> (Inl e, done t1)
                    | Inr (newRoot, ns) \<Rightarrow>
                        (Inr (rootHash, Some ns), done (t1\<lparr>root := HashNode newRoot\<rparr>))))))"

subsection \<open>What a commit adds to a node set\<close>

text \<open>The hashes a node refers to, also from the nodes embedded in it.\<close>

primrec kid_hashes :: "(bytes \<Rightarrow> bytes) \<Rightarrow> atrie \<Rightarrow> hash list" where
  "kid_hashes H AEmpty = []"
| "kid_hashes H (AVal v) = []"
| "kid_hashes H (AShort k c) = (if hashed H c then [H (blob H c)] else kid_hashes H c)"
| "kid_hashes H (AFull cs) =
    concat (take 16 (map (\<lambda>(c, ks). if hashed H c then [H (blob H c)] else ks)
      (map (\<lambda>c. (c, kid_hashes H c)) cs)))"

definition ref_hashes :: "(bytes \<Rightarrow> bytes) \<Rightarrow> atrie \<Rightarrow> hash list" where
  "ref_hashes H c = (if hashed H c then [H (blob H c)] else kid_hashes H c)"

lemma kid_hashes_simps:
  "kid_hashes H (AShort k c) = ref_hashes H c"
  "kid_hashes H (AFull cs) = concat (map (ref_hashes H) (take 16 cs))"
  by (simp_all add: ref_hashes_def[abs_def] take_map comp_def)

declare kid_hashes.simps(3,4) [simp del]

fun subs :: "atrie \<Rightarrow> atrie set" where
  "subs AEmpty = {}"
| "subs (AVal v) = {}"
| "subs (AShort k c) = insert (AShort k c) (subs c)"
| "subs (AFull cs) = insert (AFull cs) (\<Union>c \<in> set cs. subs c)"

lemma subs_self: "is_node a \<Longrightarrow> a \<in> subs a"
  by (cases a) simp_all

text \<open>\<open>raw_for H a n\<close>: the raw node \<open>n\<close> is what is stored for \<open>a\<close>.\<close>

definition raw_for :: "(bytes \<Rightarrow> bytes) \<Rightarrow> atrie \<Rightarrow> node \<Rightarrow> bool" where
  "raw_for H a n \<longleftrightarrow> node_bytes n = blob H a \<and> forGatherChildren n = Inr (kid_hashes H a) \<and>
     n \<noteq> NilNode \<and> (\<forall>b. n \<noteq> RawNode b)"

definition entries_ok :: "(bytes \<Rightarrow> bytes) \<Rightarrow> atrie \<Rightarrow> (hash \<times> node) list \<Rightarrow> bool" where
  "entries_ok H a ds \<longleftrightarrow> (\<forall>(h, n) \<in> set ds. \<exists>b \<in> subs a. h = H (blob H b) \<and> raw_for H b n)"

text \<open>Any store that keeps the old view and holds the new entries stores the trie.\<close>

definition extends :: "(hash \<Rightarrow> bytes) \<Rightarrow> (hash \<Rightarrow> bytes) \<Rightarrow> bool" where
  "extends view view' \<longleftrightarrow> (\<forall>h. view h \<noteq> [] \<longrightarrow> view' h = view h)"

definition persist ::
  "(bytes \<Rightarrow> bytes) \<Rightarrow> (hash \<Rightarrow> bytes) \<Rightarrow> bool \<Rightarrow> atrie \<Rightarrow> (hash \<times> node) list \<Rightarrow> bool" where
  "persist H view r a ds \<longleftrightarrow>
     (\<forall>view'. extends view view' \<longrightarrow> (\<forall>(h, n) \<in> set ds. view' h = node_bytes n) \<longrightarrow>
        kids_stored H view' a \<and> (r \<or> hashed H a \<longrightarrow> view' (H (blob H a)) = blob H a))"

definition adds :: "(bytes \<Rightarrow> bool) \<Rightarrow> (hash \<times> node) list \<Rightarrow> NodeSet \<Rightarrow> NodeSet \<Rightarrow> bool" where
  "adds P ds ns ns' \<longleftrightarrow>
     (\<exists>ps. order (updates ns') = order (updates ns) @ ps \<and> (\<forall>p \<in> set ps. P p)) \<and>
     dirty_list ns' = dirty_list ns @ ds \<and> owner ns' = owner ns \<and> (nodeset_ok ns \<longrightarrow> nodeset_ok ns')"

definition fresh :: "bytes \<Rightarrow> NodeSet \<Rightarrow> bool" where
  "fresh path ns \<longleftrightarrow> (\<forall>p \<in> set (order (updates ns)). \<not> prefix path p)"

lemma stored_extends:
  "kids_stored H view a \<Longrightarrow> extends view view' \<Longrightarrow> kids_stored H view' a"
  by (induction a) (auto simp: extends_def)

lemma persist_stored: "stored H view a \<Longrightarrow> persist H view r a []"
  unfolding persist_def stored_def using stored_extends[of H view a]
  by (auto simp: extends_def)

lemma persist_leaf: "\<not> is_node a \<Longrightarrow> persist H view False a ds"
  by (cases a) (simp_all add: persist_def hashed_def)

lemma adds_refl [simp]: "adds P [] ns ns"
  by (simp add: adds_def)

lemma adds_trans:
  "adds P ds ns ns1 \<Longrightarrow> adds Q es ns1 ns2 \<Longrightarrow> (\<And>p. P p \<Longrightarrow> R p) \<Longrightarrow> (\<And>p. Q p \<Longrightarrow> R p) \<Longrightarrow>
     adds R (ds @ es) ns ns2"
  by (auto simp: adds_def)

lemma adds_mono: "adds P ds ns ns1 \<Longrightarrow> (\<And>p. P p \<Longrightarrow> R p) \<Longrightarrow> adds R ds ns ns1"
  by (auto simp: adds_def)

lemma adds_fresh:
  "adds P ds ns ns1 \<Longrightarrow> fresh path ns \<Longrightarrow> prefix path q \<Longrightarrow> (\<And>p. P p \<Longrightarrow> \<not> prefix q p) \<Longrightarrow> fresh q ns1"
  by (auto simp: adds_def fresh_def dest: prefix_order.trans)

lemma adds_not_in:
  "adds (strict_prefix path) ds ns ns1 \<Longrightarrow> fresh path ns \<Longrightarrow> path \<notin> set (order (updates ns1))"
  by (auto simp: adds_def fresh_def)

lemma subs_trans: "b \<in> subs a \<Longrightarrow> subs b \<subseteq> subs a"
  by (induction a) auto

text \<open>The children of a collapsed node and the raw node made of them.\<close>

definition ref_ok :: "(bytes \<Rightarrow> bytes) \<Rightarrow> atrie \<Rightarrow> node \<Rightarrow> bool" where
  "ref_ok H c n \<longleftrightarrow> node_bytes n = rlp_enc (ref_of H c) \<and>
     (\<exists>n'. (if n = NilNode then Inr NilNode else simplifyNode n) = Inr n' \<and>
        forGatherChildren n' = Inr (ref_hashes H c))"

lemma ref_ok_leaf [simp]:
  "ref_ok H AEmpty NilNode" "ref_ok H (AVal v) (ValueNode v)"
  by (simp_all add: ref_ok_def ref_of_cases hashed_def ref_hashes_def)

lemma ref_ok_hash: "hash_fun H \<Longrightarrow> hashed H c \<Longrightarrow> ref_ok H c (HashNode (H (blob H c)))"
  by (simp add: ref_ok_def ref_of_cases ref_hashes_def BytesToHash_id)

lemma simplify_short:
  assumes "ref_ok H c v" and "v \<noteq> NilNode"
  shows "\<exists>n'. simplifyNode (ShortNode (hexToCompact k) v fl) = Inr n' \<and> raw_for H (AShort k c) n'"
proof -
  obtain v' where v: "simplifyNode v = Inr v'" "forGatherChildren v' = Inr (ref_hashes H c)"
    using assms by (auto simp: ref_ok_def)
  have "node_bytes v' = rlp_enc (ref_of H c)" using node_bytes_simplify[OF v(1)] assms(1) by (simp add: ref_ok_def)
  then show ?thesis using v by (simp add: raw_for_def blob_simps kid_hashes_simps)
qed

lemma simplify_kids:
  "list_all2 (\<lambda>n c. ref_ok H c n) ns cs \<Longrightarrow>
     \<exists>ns'. simplify_children ns = Inr ns' \<and> map node_bytes ns' = map (\<lambda>c. rlp_enc (ref_of H c)) cs \<and>
       (\<forall>i. gather_children i ns' = Inr (concat (map (ref_hashes H) (take i cs))))"
proof (induction rule: list_all2_induct)
  case Nil
  have "gather_children i [] = Inr []" for i by (cases i) simp_all
  then show ?case by simp
next
  case (Cons n ns c cs)
  obtain n' where n: "(if n = NilNode then Inr NilNode else simplifyNode n) = Inr n'"
      "forGatherChildren n' = Inr (ref_hashes H c)" using Cons(1) by (auto simp: ref_ok_def)
  have b: "node_bytes n' = rlp_enc (ref_of H c)"
    using n(1) node_bytes_simplify[of n n'] Cons(1) by (auto simp: ref_ok_def split: if_splits)
  obtain ns' where ns: "simplify_children ns = Inr ns'" "map node_bytes ns' = map (\<lambda>c. rlp_enc (ref_of H c)) cs"
      "\<And>i. gather_children i ns' = Inr (concat (map (ref_hashes H) (take i cs)))" using Cons.IH by blast
  have "gather_children i (n' # ns') = Inr (concat (map (ref_hashes H) (take i (c # cs))))" for i
    using n(2) ns(3) by (cases i) simp_all
  then show ?case using n(1) ns b by simp
qed

lemma simplify_full:
  assumes "list_all2 (\<lambda>n c. ref_ok H c n) ns cs"
  shows "\<exists>n'. simplifyNode (FullNode ns fl) = Inr n' \<and> raw_for H (AFull cs) n'"
proof -
  obtain ns' where ns: "simplify_children ns = Inr ns'" "map node_bytes ns' = map (\<lambda>c. rlp_enc (ref_of H c)) cs"
      "\<And>i. gather_children i ns' = Inr (concat (map (ref_hashes H) (take i cs)))"
    using simplify_kids[OF assms] by blast
  then show ?thesis by (simp add: raw_for_def blob_simps kid_hashes_simps)
qed

subsection \<open>The committer collects every dirty node\<close>

definition commit_result ::
  "(bytes \<Rightarrow> bytes) \<Rightarrow> (hash \<Rightarrow> bytes) \<Rightarrow> bool \<Rightarrow> bytes \<Rightarrow> atrie \<Rightarrow> NodeSet \<Rightarrow>
     go_error + (node \<times> NodeSet) \<Rightarrow> bool" where
  "commit_result H view r path a ns res \<longleftrightarrow>
     (\<exists>h ns' ds. res = Inr (h, ns') \<and> adds (prefix path) ds ns ns' \<and> entries_ok H a ds \<and>
        persist H view r a ds \<and>
        (if r then h = HashNode (H (blob H a)) else ref_ok H a h \<and> h \<noteq> NilNode))"

lemma commit_hash:
  assumes "hash_fun H" and "stored H view a" and "r \<or> hashed H a" and "h = H (blob H a)"
  shows "commit_result H view r path a ns (Inr (HashNode h, ns))"
proof -
  have "entries_ok H a []" by (simp add: entries_ok_def)
  moreover have "if r then HashNode h = HashNode (H (blob H a)) else ref_ok H a (HashNode h) \<and> HashNode h \<noteq> NilNode"
    using assms(3,4) ref_ok_hash[OF assms(1), of a] by auto
  ultimately show ?thesis
    using persist_stored[OF assms(2)] adds_refl unfolding commit_result_def by blast
qed

text \<open>The last step, for a collapsed short or full node.\<close>

lemma adds_markUpdated:
  "path \<notin> set (order (updates ns)) \<Longrightarrow> adds (prefix path) [(mn_hash m, mn_node m)] ns (markUpdated path m old ns)"
  using dirty_list_markUpdated[of path ns m old] nodeset_ok_markUpdated[of ns path m old]
  by (simp add: adds_def markUpdated_def)

lemma adds_others [simp]:
  "adds P ds ns (addLeaf l ns1) = adds P ds ns ns1" "adds P ds ns (markDeleted path old ns1) = adds P ds ns ns1"
  by (simp_all add: adds_def) (simp_all add: addLeaf_def markDeleted_def)

lemma nodeCommit_hashed:
  assumes n: "n = ShortNode k v fl \<or> n = FullNode cs fl" and fl: "fl_hash fl = Some h" and h: "length h = 32"
    and s: "simplifyNode n = Inr n'" and p: "path \<notin> set (order (updates ns))"
  shows "\<exists>ns'. nodeCommit capt cl path n ns = Inr (HashNode h, ns') \<and> adds (prefix path) [(h, n')] ns ns'"
proof -
  let ?ns1 = "markUpdated path \<lparr>mn_hash = h, mn_node = n'\<rparr> (getOldv path capt) ns"
  have c: "cache n = Inr (Some h, dirty fl)" and b: "BytesToHash h = h"
    using n fl h by (auto simp: BytesToHash_id)
  have a: "adds (prefix path) [(h, n')] ns ?ns1"
    using adds_markUpdated[OF p, of "\<lparr>mn_hash = h, mn_node = n'\<rparr>"] by simp
  let ?ns2 = "if cl then (case n of ShortNode _ (ValueNode val) _ \<Rightarrow>
      addLeaf \<lparr>leaf_blob = val, leaf_parent = h\<rparr> ?ns1 | _ \<Rightarrow> ?ns1) else ?ns1"
  have "nodeCommit capt cl path n ns = Inr (HashNode h, ?ns2)"
    by (simp add: nodeCommit_def c s b Let_def)
  moreover have "adds (prefix path) [(h, n')] ns ?ns2"
    using a by (simp split: node.split)
  ultimately show ?thesis by blast
qed

lemma nodeCommit_embedded:
  assumes n: "n = ShortNode k v fl \<or> n = FullNode cs fl" and fl: "fl_hash fl = None"
  shows "\<exists>ns'. nodeCommit capt cl path n ns = Inr (n, ns') \<and> adds (prefix path) [] ns ns'"
  using n fl by (auto simp: nodeCommit_def)

lemma entries_ok_append: "entries_ok H a (ds @ es) \<longleftrightarrow> entries_ok H a ds \<and> entries_ok H a es"
  by (simp add: entries_ok_def ball_Un)

lemma entries_ok_sub: "entries_ok H c ds \<Longrightarrow> subs c \<subseteq> subs a \<Longrightarrow> entries_ok H a ds"
  by (fastforce simp: entries_ok_def)

text \<open>
  \<open>below\<close>: what committing the children gave; the step for the node itself finishes it.
\<close>

lemma finish_commit:
  assumes H: "hash_fun H" and n: "n = ShortNode k v fl \<or> n = FullNode cs fl" and a: "is_node a"
    and fl: "fl_hash fl = (if r \<or> hashed H a then Some (H (blob H a)) else None)"
    and s: "simplifyNode n = Inr n'" "raw_for H a n'" "node_bytes n = blob H a"
    and ds: "adds (strict_prefix path) ds ns ns1" "entries_ok H a ds" "fresh path ns"
    and kids: "\<And>view'. extends view view' \<Longrightarrow> (\<forall>(h, n) \<in> set ds. view' h = node_bytes n) \<Longrightarrow>
        kids_stored H view' a"
  shows "commit_result H view r path a ns (nodeCommit capt cl path n ns1)"
proof (cases "r \<or> hashed H a")
  case True
  let ?h = "H (blob H a)"
  have h: "fl_hash fl = Some ?h" "length ?h = 32" using fl True H by simp_all
  have "path \<notin> set (order (updates ns1))" using adds_not_in ds(1,3) by blast
  then obtain ns2 where r: "nodeCommit capt cl path n ns1 = Inr (HashNode ?h, ns2)"
      "adds (prefix path) [(?h, n')] ns1 ns2"
    using nodeCommit_hashed[OF n h s(1)] by blast
  have "adds (prefix path) (ds @ [(?h, n')]) ns ns2"
    using adds_trans[OF ds(1) r(2), of "prefix path"] by (simp add: strict_prefix_def)
  moreover have "entries_ok H a (ds @ [(?h, n')])"
    using ds(2) s(2) subs_self[OF a] by (auto simp: entries_ok_append entries_ok_def)
  moreover have "persist H view r a (ds @ [(?h, n')])"
    using kids s(2) by (auto simp: persist_def raw_for_def)
  moreover have "if r then HashNode ?h = HashNode ?h else ref_ok H a (HashNode ?h) \<and> HashNode ?h \<noteq> NilNode"
    using True ref_ok_hash[OF H] by auto
  ultimately show ?thesis unfolding commit_result_def r(1) by blast
next
  case False
  then have "fl_hash fl = None" using fl by simp
  then obtain ns2 where r: "nodeCommit capt cl path n ns1 = Inr (n, ns2)" "adds (prefix path) [] ns1 ns2"
    using nodeCommit_embedded[OF n] by blast
  have "adds (prefix path) ds ns ns2"
    using adds_trans[OF ds(1) r(2), of "prefix path"] by (simp add: strict_prefix_def)
  moreover have "ref_ok H a n" "n \<noteq> NilNode"
    using False s n by (auto simp: ref_ok_def ref_of_cases blob_def raw_for_def ref_hashes_def)
  moreover have "persist H view r a ds" using kids False by (simp add: persist_def)
  ultimately show ?thesis unfolding commit_result_def r(1) using ds(2) False by auto
qed

text \<open>The flag of a dirty, sealed node.\<close>

lemma sealed_flag:
  assumes "flag_ok H view r fl a" and "r \<or> hashed H a \<longrightarrow> fl_hash fl \<noteq> None"
  shows "fl_hash fl = (if r \<or> hashed H a then Some (H (blob H a)) else None)"
  using assms by (cases "fl_hash fl") (auto simp: flag_ok_def)

definition child_result ::
  "(bytes \<Rightarrow> bytes) \<Rightarrow> (hash \<Rightarrow> bytes) \<Rightarrow> bytes \<Rightarrow> atrie \<Rightarrow> NodeSet \<Rightarrow>
     go_error + (node \<times> NodeSet) \<Rightarrow> bool" where
  "child_result H view path c ns res \<longleftrightarrow>
     (\<exists>h ns' ds. res = Inr (h, ns') \<and> adds (prefix path) ds ns ns' \<and> entries_ok H c ds \<and>
        persist H view False c ds \<and> ref_ok H c h \<and> (c \<noteq> AEmpty \<longrightarrow> h \<noteq> NilNode))"

lemma commit_child: "commit_result H view False path c ns res \<Longrightarrow> child_result H view path c ns res"
  by (auto simp: commit_result_def child_result_def)

lemma child_leaf:
  assumes "ref_ok H c m" and "\<not> is_node c" and "c \<noteq> AEmpty \<Longrightarrow> m \<noteq> NilNode"
  shows "child_result H view path c ns (Inr (m, ns))"
proof -
  have "entries_ok H c []" by (simp add: entries_ok_def)
  then show ?thesis
    unfolding child_result_def using assms persist_leaf[OF assms(2)] adds_refl by blast
qed

lemma prefix_slot: "prefix (path @ [x]) p \<Longrightarrow> p ! length path = x \<and> strict_prefix path p"
  by (auto simp: prefix_def nth_append strict_prefix_def)

lemma slot_distinct: "j < 16 \<Longrightarrow> k < 16 \<Longrightarrow> (of_nat j :: byte) = of_nat k \<Longrightarrow> j = k"
  by (simp add: byte_eq_iff_unat)

definition below_slots :: "nat \<Rightarrow> bytes \<Rightarrow> bytes \<Rightarrow> bool" where
  "below_slots i path p \<longleftrightarrow> (\<exists>j. i \<le> j \<and> j < 16 \<and> prefix (path @ [of_nat j]) p)"

definition kids_result ::
  "(bytes \<Rightarrow> bytes) \<Rightarrow> (hash \<Rightarrow> bytes) \<Rightarrow> bytes \<Rightarrow> nat \<Rightarrow> atrie list \<Rightarrow> NodeSet \<Rightarrow>
     go_error + (node list \<times> NodeSet) \<Rightarrow> bool" where
  "kids_result H view path i cs ns res \<longleftrightarrow>
     (\<exists>hs ns' ds. res = Inr (hs, ns') \<and>
        adds (below_slots i path) ds ns ns' \<and> list_all2 (\<lambda>h c. ref_ok H c h) hs cs \<and>
        (\<forall>(h, n) \<in> set ds. \<exists>c \<in> set cs. \<exists>b \<in> subs c. h = H (blob H b) \<and> raw_for H b n) \<and>
        (\<forall>view'. extends view view' \<longrightarrow> (\<forall>(h, n) \<in> set ds. view' h = node_bytes n) \<longrightarrow>
           (\<forall>c \<in> set cs. kids_stored H view' c \<and> (hashed H c \<longrightarrow> view' (H (blob H c)) = blob H c))))"

lemma commitChildren_rep:
  assumes "list_all2 (rep H view False) ms cs"
    and "\<And>m c q ns. m \<in> set ms \<Longrightarrow> c \<in> set cs \<Longrightarrow> rep H view False m c \<Longrightarrow> sealed H c False m \<Longrightarrow>
        is_node c \<Longrightarrow> fresh q ns \<Longrightarrow> commit_result H view False q c ns (commit_node capt cl q m ns)"
    and "list_all2 (\<lambda>m c. sealed H c False m) ms cs" and "i + length cs = 17"
    and "\<And>j. j < length cs \<Longrightarrow> sub_ok (i + j = 16) (cs ! j)" and "hash_fun H"
    and "\<And>j. i \<le> j \<Longrightarrow> j < 16 \<Longrightarrow> fresh (path @ [of_nat j]) ns"
  shows "kids_result H view path i cs ns (commitChildren capt cl path i ms ns)"
  using assms
proof (induction arbitrary: i ns rule: list_all2_induct)
  case Nil
  show ?case
    unfolding kids_result_def by (rule exI[of _ "[]"], rule exI[of _ ns], rule exI[of _ "[]"]) simp
next
  case (Cons m ms c cs)
  show ?case
  proof (cases "16 \<le> i")
    case True
    moreover have "i + Suc (length cs) = 17" using Cons.prems(3) by simp
    ultimately have "i = 16 \<and> length cs = 0" by linarith
    then have "i = 16" "cs = []" by simp_all
    then have ms: "ms = []" and s: "sub_ok True c" using Cons.hyps(2) Cons.prems(4)[of 0] by simp_all
    have "m = NilNode \<and> c = AEmpty \<or> (\<exists>w. m = ValueNode w \<and> c = AVal w)"
      using s Cons.hyps(1) by (auto simp: sub_ok_def rep_atrie_simps)
    then have "ref_ok H c m" "kids_stored H view' c" "\<not> hashed H c" for view' by (auto simp: hashed_def)
    then show ?thesis using True \<open>cs = []\<close> ms
      unfolding kids_result_def by (intro exI[of _ "[m]"] exI[of _ ns] exI[of _ "[]"]) simp
  next
    case False
    let ?q = "path @ [of_nat i]"
    have s: "sub_ok False c" using Cons.prems(4)[of 0] False by simp
    have fr: "fresh ?q ns" using Cons.prems(6)[of i] False by simp
    have sm: "sealed H c False m" using Cons.prems(2) by simp
    let ?X = "if m = NilNode then Inr (NilNode, ns) else case m of HashNode h \<Rightarrow> Inr (HashNode h, ns)
        | _ \<Rightarrow> commit_node capt cl ?q m ns"
    have "child_result H view ?q c ns ?X"
    proof (cases "is_node c")
      case True
      have "commit_result H view False ?q c ns (commit_node capt cl ?q m ns)"
        using Cons.prems(1)[OF _ _ Cons.hyps(1) sm True fr] by simp
      moreover have "m \<noteq> NilNode" using Cons.hyps(1) True rep_Nil_iff by auto
      moreover have "?X = commit_node capt cl ?q m ns" using calculation(2) by (cases m) simp_all
      ultimately show ?thesis using commit_child by simp
    next
      case n: False
      then have "c = AEmpty" using s by (cases c) auto
      then have "m = NilNode" using Cons.hyps(1) rep_Empty_iff by blast
      then show ?thesis using child_leaf[of H c m] \<open>c = AEmpty\<close> by simp
    qed
    then obtain h ns1 ds1 where x: "?X = Inr (h, ns1)" "adds (prefix ?q) ds1 ns ns1" "entries_ok H c ds1"
        "persist H view False c ds1" "ref_ok H c h" by (auto simp: child_result_def)
    have fr1: "fresh (path @ [of_nat j]) ns1" if "Suc i \<le> j" "j < 16" for j
    proof (rule adds_fresh[OF x(2)])
      show "fresh (path @ [of_nat j]) ns" using Cons.prems(6)[of j] that by simp
      show "prefix (path @ [of_nat j]) (path @ [of_nat j])" by simp
      fix p assume "prefix ?q p"
      then show "\<not> prefix (path @ [of_nat j]) p"
        using prefix_slot[of path "of_nat i" p] prefix_slot[of path "of_nat j" p] slot_distinct[of i j] that by auto
    qed
    have "kids_result H view path (Suc i) cs ns1 (commitChildren capt cl path (Suc i) ms ns1)"
    proof (rule Cons.IH)
      show "list_all2 (\<lambda>m c. sealed H c False m) ms cs" using Cons.prems(2) by simp
      show "Suc i + length cs = 17" using Cons.prems(3) by simp
      show "\<And>j. j < length cs \<Longrightarrow> sub_ok (Suc i + j = 16) (cs ! j)" using Cons.prems(4)[of "Suc _"] by simp
    qed (use Cons.prems(1,5) fr1 in simp_all)
    then obtain hs ns' ds where y: "commitChildren capt cl path (Suc i) ms ns1 = Inr (hs, ns')"
        "adds (below_slots (Suc i) path) ds ns1 ns'" "list_all2 (\<lambda>h c. ref_ok H c h) hs cs"
        "\<forall>(h, n) \<in> set ds. \<exists>c \<in> set cs. \<exists>b \<in> subs c. h = H (blob H b) \<and> raw_for H b n"
        "\<And>view'. extends view view' \<Longrightarrow> (\<forall>(h, n) \<in> set ds. view' h = node_bytes n) \<Longrightarrow>
           (\<forall>c \<in> set cs. kids_stored H view' c \<and> (hashed H c \<longrightarrow> view' (H (blob H c)) = blob H c))"
      unfolding kids_result_def by blast
    have e: "commitChildren capt cl path i (m # ms) ns = Inr (h # hs, ns')"
      using False x(1) y(1) by simp
    have ad: "adds (below_slots i path) (ds1 @ ds) ns ns'"
      by (rule adds_trans[OF x(2) y(2)]) (use False in \<open>auto simp: below_slots_def intro: Suc_leD\<close>)
    have en: "\<forall>(h, n) \<in> set (ds1 @ ds). \<exists>c' \<in> set (c # cs). \<exists>b \<in> subs c'. h = H (blob H b) \<and> raw_for H b n"
      using x(3) y(4) by (fastforce simp: entries_ok_def)
    have pe: "\<forall>c' \<in> set (c # cs). kids_stored H view' c' \<and> (hashed H c' \<longrightarrow> view' (H (blob H c')) = blob H c')"
      if "extends view view'" "\<forall>(h, n) \<in> set (ds1 @ ds). view' h = node_bytes n" for view'
      using that x(4) y(5)[of view'] by (auto simp: persist_def)
    have "list_all2 (\<lambda>h c. ref_ok H c h) (h # hs) (c # cs)" using x(5) y(3) by simp
    then show ?thesis unfolding e kids_result_def using ad en pe by blast
  qed
qed

lemma commit_rep:
  assumes H: "hash_fun H"
  shows "rep H view r n a \<Longrightarrow> sealed H a r n \<Longrightarrow> wf_anode a \<Longrightarrow> small a \<Longrightarrow> fresh path ns \<Longrightarrow>
    commit_result H view r path a ns (commit_node capt cl path n ns)"
proof (induction n arbitrary: r a path ns)
  case (ShortNode k v fl)
  then obtain c where a: "a = AShort k c" "rep H view False v c" "flag_ok H view r fl a" "sealed H c False v"
    by (auto elim: rep_ShortE)
  have k: "k \<noteq> []" "sub_ok (hasTerm k) c" "small c"
    using ShortNode.prems(3,4) a(1) small_AShort by (auto simp: wf_AShort)
  have fl: "fl_hash fl = (if r \<or> hashed H a then Some (H (blob H a)) else None)"
    using sealed_flag[OF a(3)] ShortNode.prems(2) a(1) by simp
  show ?case
  proof (cases "fl_hash fl \<noteq> None \<and> \<not> dirty fl")
    case True
    then have "stored H view a \<and> (r \<or> hashed H a) \<and> fl_hash fl = Some (H (blob H a))"
      using a(3) by (auto simp: flag_ok_def)
    then show ?thesis using True commit_hash[OF H] by simp
  next
    case False
    let ?X = "case v of FullNode _ _ \<Rightarrow> commit_node capt cl (path @ k) v ns | _ \<Rightarrow> Inr (v, ns)"
    have "child_result H view (path @ k) c ns ?X \<and> v \<noteq> NilNode"
    proof (cases v)
      case (FullNode ms g)
      then have "is_node c" using a(2) by (auto elim: rep_FullE)
      moreover have "fresh (path @ k) ns"
        using ShortNode.prems(5) by (auto simp: fresh_def dest: append_prefixD)
      ultimately show ?thesis
        using ShortNode.IH[OF a(2,4), of "path @ k" ns] k sub_ok_node commit_child FullNode by auto
    next
      case (HashNode h)
      then show ?thesis using a(2) commit_hash[OF H, of view c False] commit_child by (auto elim!: rep_HashE)
    next
      case (ValueNode w)
      then show ?thesis using a(2) child_leaf[of H c v] by (auto elim!: rep_ValueE)
    qed (use a(1,2) ShortNode.prems(3) in \<open>auto elim: rep.cases simp: wf_AShort\<close>)
    then obtain v' ns1 ds where x: "?X = Inr (v', ns1)" "adds (prefix (path @ k)) ds ns ns1"
        "entries_ok H c ds" "persist H view False c ds" "ref_ok H c v'" and v': "c \<noteq> AEmpty \<longrightarrow> v' \<noteq> NilNode"
        and "v \<noteq> NilNode"
      by (auto simp: child_result_def)
    then have "v' \<noteq> NilNode" using a(2) rep_Empty_iff by blast
    then obtain n' where n': "simplifyNode (ShortNode (hexToCompact k) v' fl) = Inr n'" "raw_for H a n'"
      using simplify_short[OF x(5)] a(1) by blast
    have "commit_result H view r path a ns (nodeCommit capt cl path (ShortNode (hexToCompact k) v' fl) ns1)"
    proof (rule finish_commit[OF H _ _ fl n'])
      show "node_bytes (ShortNode (hexToCompact k) v' fl) = blob H a"
        using x(5) by (simp add: a(1) blob_simps ref_ok_def)
      show "adds (strict_prefix path) ds ns ns1"
        using x(2) by (rule adds_mono) (use k(1) in \<open>auto simp: prefix_def strict_prefix_def\<close>)
      show "entries_ok H a ds" using x(3) by (rule entries_ok_sub) (auto simp: a(1))
      fix view' assume "extends view view'" "\<forall>(h, n) \<in> set ds. view' h = node_bytes n"
      then show "kids_stored H view' a" using x(4) by (simp add: persist_def a(1))
    qed (use a(1) ShortNode.prems(5) in simp_all)
    then show ?thesis unfolding commit_node.simps if_not_P[OF False] x(1) by simp
  qed
next
  case (FullNode ms fl)
  then obtain cs where a: "a = AFull cs" "list_all2 (rep H view False) ms cs" "flag_ok H view r fl a"
    "list_all2 (\<lambda>m c. sealed H c False m) ms cs"
    by (auto elim!: rep_FullE simp: sealed_AFull)
  have l: "length cs = 17" "\<And>i. i < 17 \<Longrightarrow> sub_ok (i = 16) (cs ! i)" "\<And>c. c \<in> set cs \<Longrightarrow> small c"
    using FullNode.prems(3,4) small_AFull[of cs] by (auto simp: a(1) wf_AFull in_set_conv_nth)
  have fl: "fl_hash fl = (if r \<or> hashed H a then Some (H (blob H a)) else None)"
    using sealed_flag[OF a(3)] FullNode.prems(2) a(1) by (simp add: sealed_AFull)
  show ?case
  proof (cases "fl_hash fl \<noteq> None \<and> \<not> dirty fl")
    case True
    then have "stored H view a \<and> (r \<or> hashed H a) \<and> fl_hash fl = Some (H (blob H a))"
      using a(3) by (auto simp: flag_ok_def)
    then show ?thesis using True commit_hash[OF H] by simp
  next
    case False
    have "kids_result H view path 0 cs ns (commitChildren capt cl path 0 ms ns)"
    proof (rule commitChildren_rep[OF a(2) _ a(4)])
      fix m c q ns assume m: "m \<in> set ms" "c \<in> set cs" "rep H view False m c" "sealed H c False m"
        "is_node c" "fresh q ns"
      have "wf_anode c" using m(2,5) l(1,2) sub_ok_node by (auto simp: in_set_conv_nth)
      then show "commit_result H view False q c ns (commit_node capt cl q m ns)"
        using FullNode.IH[OF m(1,3,4)] l(3)[OF m(2)] m(6) by simp
    qed (use l H FullNode.prems(5) in \<open>auto simp: fresh_def dest: append_prefixD\<close>)
    then obtain hs ns1 ds where x: "commitChildren capt cl path 0 ms ns = Inr (hs, ns1)"
        "adds (below_slots 0 path) ds ns ns1" "list_all2 (\<lambda>h c. ref_ok H c h) hs cs"
        "\<forall>(h, n) \<in> set ds. \<exists>c \<in> set cs. \<exists>b \<in> subs c. h = H (blob H b) \<and> raw_for H b n"
        "\<And>view'. extends view view' \<Longrightarrow> (\<forall>(h, n) \<in> set ds. view' h = node_bytes n) \<Longrightarrow>
           (\<forall>c \<in> set cs. kids_stored H view' c \<and> (hashed H c \<longrightarrow> view' (H (blob H c)) = blob H c))"
      unfolding kids_result_def by blast
    obtain n' where n': "simplifyNode (FullNode hs fl) = Inr n'" "raw_for H a n'"
      using simplify_full[OF x(3)] a(1) by blast
    have "commit_result H view r path a ns (nodeCommit capt cl path (FullNode hs fl) ns1)"
    proof (rule finish_commit[OF H _ _ fl n'])
      show "node_bytes (FullNode hs fl) = blob H a"
        using x(3) by (intro blob_AFull_collapsed[of H hs cs fl, folded a(1)]) (auto simp: ref_ok_def list_all2_conv_all_nth)
      show "adds (strict_prefix path) ds ns ns1"
        using x(2) by (rule adds_mono) (auto simp: below_slots_def dest: prefix_slot)
      show "entries_ok H a ds" using x(4) by (fastforce simp: entries_ok_def a(1))
      fix view' assume "extends view view'" "\<forall>(h, n) \<in> set ds. view' h = node_bytes n"
      then show "kids_stored H view' a" using x(5) by (simp add: a(1))
    qed (use a(1) FullNode.prems(5) in simp_all)
    then show ?thesis unfolding commit_node.simps if_not_P[OF False] x(1) by simp
  qed
next
  case (HashNode h)
  then have "r \<or> hashed H a" "h = H (blob H a)" "stored H view a" by (auto elim!: rep_HashE)
  then show ?case using commit_hash[OF H] by simp
qed (auto elim: rep.cases)

subsection \<open>Trie.Commit\<close>

lemma mark_deleted_adds [simp]: "adds P ds ns (mark_deleted_paths capt ns1) = adds P ds ns ns1"
proof -
  have "adds P ds ns (foldl (\<lambda>ns path. let old = getOldv path capt in
      if length old = 0 then ns else markDeleted path old ns) ns1 ps) = adds P ds ns ns1" for ps
    by (induction ps arbitrary: ns1) (simp_all add: Let_def)
  then show ?thesis by (simp add: mark_deleted_paths_def)
qed

text \<open>What the caller of \<open>Commit\<close> gets: nothing to store, or the nodes to store.\<close>

definition commit_ok ::
  "(bytes \<Rightarrow> bytes) \<Rightarrow> (hash \<Rightarrow> bytes) \<Rightarrow> atrie \<Rightarrow> NodeSet option \<Rightarrow> bool" where
  "commit_ok H view a nso \<longleftrightarrow>
     (case nso of
        None \<Rightarrow> a = AEmpty \<or> stored H view a
      | Some ns \<Rightarrow> owner ns = zeroHash \<and> nodeset_ok ns \<and> entries_ok H a (dirty_list ns) \<and>
          persist H view True a (dirty_list ns))"

lemma fresh_NewNodeSet: "fresh path (NewNodeSet own)"
  by (simp add: fresh_def NewNodeSet_def)

lemma Commit_represents:
  assumes t: "represents H t a"
  shows "\<exists>nso t'. trie_Commit H cl t = (Inr (root_hash H a, nso), t') \<and> commit_ok H (trie_view (reader t)) a nso"
proof (cases "root t = NilNode")
  case True
  then have "a = AEmpty" using t rep_Nil_iff by (auto simp: represents_def)
  then show ?thesis using True by (simp add: trie_Commit_def root_hash_def commit_ok_def)
next
  case False
  obtain t1 where t1: "trie_Hash H t = (Inr (root_hash H a), t1)" "represents H t1 a"
      "sealed H a True (root t1)" "reader t1 = reader t" using Hash_represents[OF t] by blast
  let ?V = "trie_view (reader t)" and ?n = "root t1"
  have r: "hash_fun H" "rep H ?V True ?n a" "small a" "sub_ok False a"
    using t1(2,4) by (simp_all add: represents_def wf_atrie_def)
  have "a \<noteq> AEmpty" using False t rep_Empty_iff by (auto simp: represents_def)
  then have wf: "wf_anode a" using r(4) by (auto simp: sub_ok_def)
  obtain h ns ds where c: "commit_node (capture t1) cl [] ?n (NewNodeSet zeroHash) = Inr (HashNode h, ns)"
      "adds (prefix []) ds (NewNodeSet zeroHash) ns" "entries_ok H a ds" "persist H ?V True a ds"
    using commit_rep[OF r(1,2) t1(3) wf r(3) fresh_NewNodeSet, of "[]" zeroHash "capture t1" cl]
    by (auto simp: commit_result_def)
  let ?ns = "mark_deleted_paths (capture t1) ns"
  have cc: "committer_Commit (capture t1) cl ?n (NewNodeSet zeroHash) = Inr (h, ?ns)"
    using c(1) by (simp add: committer_Commit_def)
  have "adds (prefix []) ds (NewNodeSet zeroHash) ?ns" using c(2) by simp
  then have "owner ?ns = zeroHash" "nodeset_ok ?ns" "dirty_list ?ns = ds"
    using nodeset_ok_New by (auto simp: adds_def) (simp add: NewNodeSet_def)
  then have ok: "commit_ok H ?V a (Some ?ns)" using c(3,4) by (simp add: commit_ok_def)
  have cs: "\<exists>h dirt. cache ?n = Inr (h, dirt) \<and> (\<not> dirt \<longrightarrow> stored H ?V a)"
    using r(2) wf by (cases rule: rep.cases) (auto simp: flag_ok_def)
  then obtain hh dirt where cs: "cache ?n = Inr (hh, dirt)" "\<not> dirt \<longrightarrow> stored H ?V a" by blast
  show ?thesis
  proof (cases dirt)
    case True
    then show ?thesis using False t1(1) cs cc ok by (simp add: trie_Commit_def Let_def)
  next
    case False
    then show ?thesis using \<open>root t \<noteq> NilNode\<close> t1(1) cs by (simp add: trie_Commit_def Let_def commit_ok_def)
  qed
qed

end
