(* ===== verification/Trie_Persist.thy ===== *)
theory Trie_Persist
  imports Committer Triedb_Commit
begin

section \<open>From a trie to the database and back\<close>

text \<open>
  The composition of the components: a trie is hashed and committed to a node set, the node
  set is merged and inserted into the trie database (\<open>Update\<close>), the database is committed to
  disk, and a new trie is opened at the root.  \<open>store_ok H S db\<close> is the invariant of the
  database: \<open>S\<close> is the set of all nodes ever stored, and everything that can be read is the
  blob of one of them, under its hash.  The hash function need only be free of collisions on
  the blobs of \<open>S\<close>.
\<close>

subsection \<open>Sizes and hashes of nodes\<close>

lemma subs_wf: "b \<in> subs a \<Longrightarrow> sub_ok t a \<Longrightarrow> small a \<Longrightarrow> wf_anode b \<and> small b"
proof (induction a arbitrary: t)
  case (AShort k c)
  then have w: "wf_anode (AShort k c)" by (cases t) auto
  then have c: "sub_ok (hasTerm k) c" by (simp add: wf_AShort)
  show ?case
  proof (cases "b = AShort k c")
    case False
    then show ?thesis using AShort.IH[OF _ c] AShort.prems(1) small_AShort[OF AShort.prems(3)] by simp
  qed (use w AShort.prems(3) in simp)
next
  case (AFull cs)
  then have w: "wf_anode (AFull cs)" by (cases t) auto
  then have l: "length cs = 17" "\<And>i. i < 17 \<Longrightarrow> sub_ok (i = 16) (cs ! i)" by (auto simp: wf_AFull)
  show ?case
  proof (cases "b = AFull cs")
    case False
    then obtain i where i: "i < 17" "b \<in> subs (cs ! i)" using AFull.prems(1) l(1) by (auto simp: in_set_conv_nth)
    then show ?thesis using AFull.IH[of "cs ! i"] l small_AFull[OF AFull.prems(3)] by auto
  qed (use w AFull.prems(3) in simp)
qed simp_all

lemma subs_node: "b \<in> subs a \<Longrightarrow> is_node b"
  by (induction a) auto

lemma kid_in_subs: "j \<in> set (kid_hashes H a) \<Longrightarrow> \<exists>b \<in> subs a. j = H (blob H b) \<and> size b < size a"
proof (induction a)
  case (AShort k c)
  then show ?case
    using subs_self[of c] by (fastforce simp: kid_hashes_simps ref_hashes_def hashed_def split: if_splits)
next
  case (AFull cs)
  then obtain c where c: "c \<in> set cs" "j \<in> set (ref_hashes H c)"
    by (auto simp: kid_hashes_simps dest: in_set_takeD)
  have s: "size c < size (AFull cs)"
    using c(1) size_list_estimation[of c cs "size c" size] by (induction cs) auto
  have "\<exists>b \<in> subs c. j = H (blob H b) \<and> size b \<le> size c"
    using c(2) AFull.IH[OF c(1)] subs_self[of c]
    by (fastforce simp: ref_hashes_def hashed_def split: if_splits)
  then show ?case using c(1) s by fastforce
qed simp_all

lemma sub_blobs_image: "sub_blobs H a = blob H ` subs a"
  by (induction a) auto

definition arank :: "(bytes \<Rightarrow> bytes) \<Rightarrow> atrie set \<Rightarrow> hash \<Rightarrow> nat" where
  "arank H S h = (if \<exists>a \<in> S. H (blob H a) = h then size (SOME a. a \<in> S \<and> H (blob H a) = h) else 0)"

text \<open>A set of nodes that is closed under sub-nodes and on which hashes identify nodes.\<close>

definition universe :: "(bytes \<Rightarrow> bytes) \<Rightarrow> atrie set \<Rightarrow> bool" where
  "universe H S \<longleftrightarrow> hash_fun H \<and> (\<forall>a \<in> S. wf_anode a \<and> small a \<and> subs a \<subseteq> S) \<and>
     inj_on H (blob H ` S) \<and> zeroHash \<notin> H ` blob H ` S \<and> emptyRoot \<notin> H ` blob H ` S"

lemma universe_hash: "universe H S \<Longrightarrow> b \<in> S \<Longrightarrow> H (blob H b) \<noteq> zeroHash \<and> H (blob H b) \<noteq> emptyRoot"
  by (auto simp: universe_def image_iff)

lemma universe_unique:
  assumes "universe H S" and "a \<in> S" "b \<in> S" and "H (blob H a) = H (blob H b)"
  shows "a = b"
proof -
  have H: "hash_fun H" and w: "wf_anode a" "small a" "wf_anode b" "small b"
    and s: "subs a \<subseteq> S" "subs b \<subseteq> S"
    using assms(1-3) by (auto simp: universe_def)
  have sub: "sub_blobs H a \<union> sub_blobs H b \<subseteq> blob H ` S"
    using image_mono[OF s(1), of "blob H"] image_mono[OF s(2), of "blob H"] by (simp add: sub_blobs_image)
  have inj: "inj_on H (blob H ` S)" using assms(1) by (simp add: universe_def)
  have "blob H a = blob H b" using inj assms(2-4) by (auto dest: inj_onD)
  then show ?thesis
    using dnode_inj[OF H w(1-4) inj_on_subset[OF inj sub]] decode_inj[OF H w(1-4)] by blast
qed

lemma arank_eq: "universe H S \<Longrightarrow> a \<in> S \<Longrightarrow> arank H S (H (blob H a)) = size a"
proof -
  assume u: "universe H S" "a \<in> S"
  then have "(SOME b. b \<in> S \<and> H (blob H b) = H (blob H a)) = a"
    using universe_unique[OF u(1)] by (intro some_equality) auto
  then show ?thesis using u(2) by (auto simp: arank_def)
qed

lemma raw_rlp:
  assumes "universe H S" and "a \<in> S" and "raw_for H a (c_node c)"
  shows "cached_rlp c = Inr (blob H a)"
proof -
  have "length (blob H a) < 2 ^ 63" using assms(1,2) length_blob by (auto simp: universe_def)
  then have "length (node_bytes (c_node c)) < 2 ^ 64" using assms(3) by (simp add: raw_for_def)
  then have "nodeToBytes (c_node c) = Inr (blob H a)"
    using assms(3) nodeToBytes_node_bytes[of "c_node c"] by (simp add: raw_for_def)
  then show ?thesis using assms(3) by (cases "c_node c") (auto simp: cached_rlp_def raw_for_def)
qed

subsection \<open>The invariant of the database\<close>

definition payload :: "TrieDB \<Rightarrow> hash \<Rightarrow> (node \<times> (hash \<times> uint16) list) option" where
  "payload db h = map_option (\<lambda>c. (c_node c, children c)) (dirties db h)"

definition store_ok :: "(bytes \<Rightarrow> bytes) \<Rightarrow> atrie set \<Rightarrow> TrieDB \<Rightarrow> bool" where
  "store_ok H S db \<longleftrightarrow> universe H S \<and> (\<exists>L. flush_list db L) \<and> memdb_open (diskdb db) \<and>
     (\<exists>ks. payload db zeroHash = Some (NilNode, ks)) \<and>
     (\<forall>h n ks. payload db h = Some (n, ks) \<longrightarrow> h \<noteq> zeroHash \<longrightarrow>
        ks = [] \<and> (\<exists>a \<in> S. h = H (blob H a) \<and> raw_for H a n)) \<and>
     (\<forall>h. blob_view db h \<noteq> [] \<longrightarrow> (\<exists>a \<in> S. h = H (blob H a) \<and> blob_view db h = blob H a))"

lemma payload_None [simp]: "payload db h = None \<longleftrightarrow> dirties db h = None"
  by (simp add: payload_def)

lemma payload_core: "map_option core (dirties db h) = map_option core (dirties db' h) \<Longrightarrow> payload db h = payload db' h"
  by (cases "dirties db h"; cases "dirties db' h") (simp_all add: payload_def core_def)

lemma blob_view_payload:
  assumes "payload db h = payload db' h" and "diskdb db = diskdb db'"
  shows "blob_view db h = blob_view db' h"
  using assms
  by (cases "dirties db h"; cases "dirties db' h")
    (auto simp: payload_def blob_view_def cached_rlp_def)

lemma store_ok_entry:
  assumes "store_ok H S db" and "dirties db h = Some c" and "h \<noteq> zeroHash"
  obtains a where "a \<in> S" "h = H (blob H a)" "raw_for H a (c_node c)" "children c = []"
    "cached_rlp c = Inr (blob H a)"
proof -
  have "payload db h = Some (c_node c, children c)" using assms(2) by (simp add: payload_def)
  then obtain a where "a \<in> S" "h = H (blob H a)" "raw_for H a (c_node c)" "children c = []"
    using assms(1,3) unfolding store_ok_def by blast
  then show ?thesis using raw_rlp assms(1) that by (auto simp: store_ok_def)
qed

lemma store_ok_cache: "store_ok H S db \<Longrightarrow> cache_ok (arank H S) db"
  unfolding cache_ok_def
proof (intro conjI allI impI)
  fix h c assume db: "store_ok H S db" and c: "dirties db h = Some c" "h \<noteq> zeroHash"
  have u: "universe H S" using db by (simp add: store_ok_def)
  obtain a where a: "a \<in> S" "h = H (blob H a)" "raw_for H a (c_node c)" "children c = []"
    "cached_rlp c = Inr (blob H a)" using store_ok_entry[OF db c] by blast
  have "forChilds c = Inr (kid_hashes H a)"
    using a(3,4) by (auto simp: forChilds_def raw_for_def split: node.split)
  moreover have "j \<noteq> zeroHash \<and> arank H S j < arank H S h" if j: "j \<in> set (kid_hashes H a)" for j
  proof -
    obtain b where b: "b \<in> subs a" "j = H (blob H b)" "size b < size a" using kid_in_subs[OF j] by blast
    then have "b \<in> S" using u a(1) by (auto simp: universe_def)
    then show ?thesis using arank_eq[OF u] universe_hash[OF u] a(1,2) b(2,3) by simp
  qed
  ultimately show "entry_ok (arank H S) db h c"
    using a(2,5) u by (simp add: entry_ok_def universe_def HashLength_def)
qed (simp_all add: store_ok_def)

lemma store_ok_view:
  assumes "store_ok H S db"
  shows "trie_view (Some db) = blob_view db"
proof
  fix h
  show "trie_view (Some db) h = blob_view db h"
  proof (cases "h = zeroHash")
    case True
    obtain ks where "payload db zeroHash = Some (NilNode, ks)" using assms by (auto simp: store_ok_def)
    then have "blob_view db zeroHash = []"
      by (auto simp: payload_def blob_view_def cached_rlp_def nodeToBytes_def)
    then show ?thesis using True by (simp add: trie_view_def trie_nodeBlob_def NodeBlob_def db_nodeBlob_def)
  next
    case False
    then have "NodeBlob db zeroHash [] h = Inr (blob_view db h)"
      using NodeBlob_view[OF False] store_ok_entry[OF assms] by metis
    then show ?thesis by (simp add: trie_view_def trie_nodeBlob_def)
  qed
qed

lemma store_ok_new: "hash_fun H \<Longrightarrow> store_ok H {} (NewTrieDB memdb_New)"
  using flush_list_new
  by (auto simp: store_ok_def universe_def NewTrieDB_def memdb_open_def memdb_New_def payload_def
      new_cachedNode_def blob_view_def cached_rlp_def nodeToBytes_def memdb_lookup_def memdb_Get_def
      split: if_splits)

subsection \<open>Inserting nodes\<close>

lemma incr_parents_payload [simp]: "payload (incr_parents db h) k = payload db k"
  by (auto simp: incr_parents_def payload_def split: option.split)

lemma incr_parents_foldl_payload [simp]: "payload (foldl incr_parents db cs) k = payload db k"
  by (induction cs arbitrary: db) simp_all

lemma insert_payload:
  assumes "flush_list db L" and "dirties db h = None" and "forChilds (new_cachedNode n) = Inr cs"
  shows "\<exists>db'. db_insert h n db = Inr db' \<and> flush_list db' (L @ [h]) \<and> diskdb db' = diskdb db \<and>
    (\<forall>k. payload db' k = (if k = h then Some (n, []) else payload db k))"
proof -
  let ?db1 = "foldl incr_parents db cs"
  let ?db2 = "?db1\<lparr>dirties := (dirties ?db1)(h \<mapsto> new_cachedNode n)\<rparr>"
  obtain db' where d: "db_insert h n db = Inr db'" "flush_list db' (L @ [h])" "same_cores ?db2 db'"
    using db_insert_new[OF assms] by blast
  have "payload db' k = payload ?db2 k" for k using d(3) payload_core by (simp add: same_cores_def)
  moreover have "payload ?db2 k = (if k = h then Some (n, []) else payload ?db1 k)" for k
    by (simp add: payload_def new_cachedNode_def)
  moreover have "diskdb db' = diskdb db" using d(3) by (simp add: same_cores_def)
  ultimately show ?thesis using d(1,2) by auto
qed

lemma universe_mono: "universe H S' \<Longrightarrow> S \<subseteq> S' \<Longrightarrow> (\<forall>a \<in> S. subs a \<subseteq> S) \<Longrightarrow> universe H S"
  unfolding universe_def by (auto intro: inj_on_subset image_mono)

lemma store_ok_mono: "store_ok H S db \<Longrightarrow> S \<subseteq> S' \<Longrightarrow> universe H S' \<Longrightarrow> store_ok H S' db"
  unfolding store_ok_def by (meson subsetD)

lemma blob_view_new:
  assumes "payload db h = Some (n, [])" and "universe H S" "a \<in> S" "raw_for H a n"
  shows "blob_view db h = blob H a"
proof -
  obtain c where c: "dirties db h = Some c" "c_node c = n" using assms(1) by (auto simp: payload_def)
  then show ?thesis using raw_rlp[OF assms(2,3), of c] assms(4) by (simp add: blob_view_def)
qed

lemma insert_store:
  assumes db: "store_ok H S db" and a: "a \<in> S" "raw_for H a n"
  shows "\<exists>db'. db_insert (H (blob H a)) n db = Inr db' \<and> store_ok H S db' \<and>
    extends (blob_view db) (blob_view db') \<and> blob_view db' (H (blob H a)) = node_bytes n"
proof -
  let ?h = "H (blob H a)"
  have u: "universe H S" using db by (simp add: store_ok_def)
  have nz: "?h \<noteq> zeroHash" using universe_hash[OF u a(1)] by simp
  have b: "node_bytes n = blob H a" using a(2) by (simp add: raw_for_def)
  show ?thesis
  proof (cases "dirties db ?h")
    case (Some c)
    obtain a' where a': "a' \<in> S" "?h = H (blob H a')" "cached_rlp c = Inr (blob H a')"
      using store_ok_entry[OF db Some nz] by metis
    then have "a' = a" using universe_unique[OF u] a(1) by metis
    then have "blob_view db ?h = node_bytes n" using Some a'(3) b by (simp add: blob_view_def)
    then show ?thesis using Some db by (auto simp: db_insert_def extends_def)
  next
    case None
    obtain L where L: "flush_list db L" using db by (auto simp: store_ok_def)
    have "forChilds (new_cachedNode n) = Inr (kid_hashes H a)"
      using a(2) by (cases n) (auto simp: forChilds_def raw_for_def new_cachedNode_def)
    then obtain db' where d: "db_insert ?h n db = Inr db'" "flush_list db' (L @ [?h])" "diskdb db' = diskdb db"
        "\<And>k. payload db' k = (if k = ?h then Some (n, []) else payload db k)"
      using insert_payload[OF L None] by blast
    have v: "blob_view db' k = (if k = ?h then blob H a else blob_view db k)" for k
      using blob_view_new[OF _ u a] d(3,4) blob_view_payload[of db' k db] by simp
    have "store_ok H S db'"
      unfolding store_ok_def
    proof (intro conjI allI impI)
      show "universe H S" by (rule u)
      show "\<exists>L. flush_list db' L" using d(2) by blast
      show "memdb_open (diskdb db')" using db d(3) by (simp add: store_ok_def)
      show "\<exists>ks. payload db' zeroHash = Some (NilNode, ks)" using db nz[symmetric] by (auto simp: d(4) store_ok_def)
      fix h m ks assume "payload db' h = Some (m, ks)" "h \<noteq> zeroHash"
      then have "ks = [] \<and> (\<exists>a\<in>S. h = H (blob H a) \<and> raw_for H a m)"
        using db a by (cases "h = ?h") (auto simp: d(4) store_ok_def)
      then show "ks = []" "\<exists>a\<in>S. h = H (blob H a) \<and> raw_for H a m" by simp_all
    next
      fix h assume "blob_view db' h \<noteq> []"
      then show "\<exists>a\<in>S. h = H (blob H a) \<and> blob_view db' h = blob H a"
        using db a(1) by (cases "h = ?h") (auto simp: v store_ok_def)
    qed
    moreover have "extends (blob_view db) (blob_view db')"
      unfolding extends_def
    proof (intro allI impI)
      fix k assume k: "blob_view db k \<noteq> []"
      obtain a' where a': "a' \<in> S" "k = H (blob H a')" "blob_view db k = blob H a'"
        using db k unfolding store_ok_def by blast
      have "k = ?h \<Longrightarrow> blob_view db k = blob H a"
        using universe_unique[OF u a'(1) a(1)] a'(2,3) by metis
      then show "blob_view db' k = blob_view db k" using v[of k] by presburger
    qed
    ultimately show ?thesis using d(1) v b by simp
  qed
qed

lemma extends_trans: "extends f g \<Longrightarrow> extends g h \<Longrightarrow> extends f h"
  by (simp add: extends_def)

lemma extends_refl [simp]: "extends f f"
  by (simp add: extends_def)

text \<open>Inserting a list of nodes, and the node set of one trie.\<close>

lemma insert_list_store:
  assumes "store_ok H S db" and "\<forall>(h, n) \<in> set ds. \<exists>b \<in> S. h = H (blob H b) \<and> raw_for H b n"
  shows "\<exists>db'. foldE (\<lambda>db (h, n). db_insert h n db) db ds = Inr db' \<and> store_ok H S db' \<and>
    extends (blob_view db) (blob_view db') \<and> (\<forall>(h, n) \<in> set ds. blob_view db' h = node_bytes n)"
  using assms
proof (induction ds arbitrary: db)
  case (Cons d ds)
  obtain h n where d: "d = (h, n)" by (cases d)
  then obtain b where b: "b \<in> S" "h = H (blob H b)" "raw_for H b n" using Cons.prems(2) by auto
  obtain db1 where 1: "db_insert h n db = Inr db1" "store_ok H S db1" "extends (blob_view db) (blob_view db1)"
      "blob_view db1 h = node_bytes n"
    using insert_store[OF Cons.prems(1) b(1,3)] b(2) by blast
  obtain db' where 2: "foldE (\<lambda>db (h, n). db_insert h n db) db1 ds = Inr db'" "store_ok H S db'"
      "extends (blob_view db1) (blob_view db')" "\<forall>(h, n) \<in> set ds. blob_view db' h = node_bytes n"
    using Cons.IH[OF 1(2)] Cons.prems(2) by auto
  have "blob_view db1 h \<noteq> []" using 1(4) b(3) by (simp add: raw_for_def)
  then have "blob_view db' h = node_bytes n" using 2(3) 1(4) by (simp add: extends_def)
  then show ?case using 1 2 d extends_trans by auto
qed simp

lemma insert_set_dirty_list:
  assumes "nodeset_ok ns" and "map_of sets own = Some ns"
  shows "insert_set sets db own = foldE (\<lambda>db (h, n). db_insert h n db) db (dirty_list ns)"
proof -
  have "set ps \<subseteq> dom (nodes (updates ns)) \<Longrightarrow>
      foldE (\<lambda>db path. case nodes (updates ns) path of None \<Rightarrow> Inl (MissingUpdate own path)
        | Some n \<Rightarrow> db_insert (mn_hash (memnode n)) (mn_node (memnode n)) db) db ps =
      foldE (\<lambda>db (h, n). db_insert h n db) db (map (\<lambda>p. case nodes (updates ns) p of
        Some n \<Rightarrow> (mn_hash (memnode n), mn_node (memnode n)) | None \<Rightarrow> (zeroHash, NilNode)) ps)" for ps
    by (induction ps arbitrary: db) (auto split: sum.split)
  then show ?thesis using assms by (simp add: insert_set_def dirty_list_def nodeset_ok_def)
qed

lemma Update_store:
  assumes "store_ok H S db" and "universe H (S \<union> subs a)"
    and ns: "owner ns = zeroHash" "nodeset_ok ns" "leaves ns = []" "entries_ok H a (dirty_list ns)"
  shows "\<exists>sets db'. Merge ns NewMergedNodeSet = Inr sets \<and> Update ar sets db = Inr db' \<and>
    store_ok H (S \<union> subs a) db' \<and> extends (blob_view db) (blob_view db') \<and>
    (\<forall>(h, n) \<in> set (dirty_list ns). blob_view db' h = node_bytes n)"
proof -
  let ?sets = "[(zeroHash, ns)]"
  have m: "Merge ns NewMergedNodeSet = Inr ?sets" using ns(1) by (simp add: Merge_def NewMergedNodeSet_def)
  have o: "owner_order ?sets = [zeroHash]" by (simp add: owner_order_def)
  have s: "store_ok H (S \<union> subs a) db" using store_ok_mono[OF assms(1) _ assms(2)] by blast
  have "\<forall>(h, n) \<in> set (dirty_list ns). \<exists>b \<in> S \<union> subs a. h = H (blob H b) \<and> raw_for H b n"
    using ns(4) by (fastforce simp: entries_ok_def)
  then obtain db' where d: "foldE (\<lambda>db (h, n). db_insert h n db) db (dirty_list ns) = Inr db'"
      "store_ok H (S \<union> subs a) db'" "extends (blob_view db) (blob_view db')"
      "\<forall>(h, n) \<in> set (dirty_list ns). blob_view db' h = node_bytes n"
    using insert_list_store[OF s] by blast
  have "Update ar ?sets db = Inr db'"
    using insert_set_dirty_list[OF ns(2), of ?sets zeroHash] d(1) ns(3) by (simp add: Update_def o)
  then show ?thesis using m d(2-4) by blast
qed

subsection \<open>A commit without leaf collection collects no leaves\<close>

lemma leaves_marks [simp]:
  "leaves (markUpdated path m old ns) = leaves ns" "leaves (markDeleted path old ns) = leaves ns"
  "leaves (NewNodeSet own) = []"
  by (simp_all add: markUpdated_def markDeleted_def NewNodeSet_def)

lemma nodeCommit_leaves: "nodeCommit capt False path n ns = Inr (h, ns') \<Longrightarrow> leaves ns' = leaves ns"
  by (auto simp: nodeCommit_def Let_def split: sum.splits option.splits node.splits if_splits)

lemma commitChildren_leaves:
  "(\<And>m q ns h ns'. m \<in> set cs \<Longrightarrow> commit_node capt False q m ns = Inr (h, ns') \<Longrightarrow> leaves ns' = leaves ns) \<Longrightarrow>
     commitChildren capt False path i cs ns = Inr (hs, ns') \<Longrightarrow> leaves ns' = leaves ns"
proof (induction cs arbitrary: i ns hs)
  case (Cons c cs)
  show ?case
  proof (cases "16 \<le> i")
    case False
    let ?X = "if c = NilNode then Inr (NilNode, ns) else case c of HashNode h \<Rightarrow> Inr (HashNode h, ns)
        | _ \<Rightarrow> commit_node capt False (path @ [of_nat i]) c ns"
    obtain c' ns1 cs' where x: "?X = Inr (c', ns1)" "commitChildren capt False path (Suc i) cs ns1 = Inr (cs', ns')"
      using Cons.prems(2) False by (auto split: sum.splits if_splits)
    have "leaves ns1 = leaves ns"
      using x(1) Cons.prems(1)[of c "path @ [of_nat i]" ns c' ns1] by (cases c) auto
    moreover have "leaves ns' = leaves ns1"
      by (rule Cons.IH[OF _ x(2)]) (rule Cons.prems(1); simp)
    ultimately show ?thesis by simp
  qed (use Cons.prems in auto)
qed simp

lemma commit_leaves: "commit_node capt False path n ns = Inr (h, ns') \<Longrightarrow> leaves ns' = leaves ns"
proof (induction n arbitrary: path ns h ns')
  case (ShortNode k v fl)
  show ?case
  proof (cases "fl_hash fl \<noteq> None \<and> \<not> dirty fl")
    case False
    let ?X = "case v of FullNode _ _ \<Rightarrow> commit_node capt False (path @ k) v ns | _ \<Rightarrow> Inr (v, ns)"
    have e: "(case ?X of Inl e \<Rightarrow> Inl e | Inr (v', ns1) \<Rightarrow>
        nodeCommit capt False path (ShortNode (hexToCompact k) v' fl) ns1) = Inr (h, ns')"
      using ShortNode.prems unfolding commit_node.simps if_not_P[OF False] .
    obtain v' ns1 where x: "?X = Inr (v', ns1)" using e by (cases ?X) auto
    have "nodeCommit capt False path (ShortNode (hexToCompact k) v' fl) ns1 = Inr (h, ns')"
      using e unfolding x by simp
    then have "leaves ns' = leaves ns1" by (rule nodeCommit_leaves)
    moreover have "leaves ns1 = leaves ns"
    proof (cases "\<exists>ms g. v = FullNode ms g")
      case True
      then have "commit_node capt False (path @ k) v ns = Inr (v', ns1)" using x by auto
      then show ?thesis by (rule ShortNode.IH)
    next
      case False
      then show ?thesis using x by (cases v) simp_all
    qed
    ultimately show ?thesis by simp
  qed (use ShortNode.prems in auto)
next
  case (FullNode cs fl)
  show ?case
  proof (cases "fl_hash fl \<noteq> None \<and> \<not> dirty fl")
    case False
    have e: "(case commitChildren capt False path 0 cs ns of Inl e \<Rightarrow> Inl e | Inr (v', ns1) \<Rightarrow>
        nodeCommit capt False path (FullNode v' fl) ns1) = Inr (h, ns')"
      using FullNode.prems unfolding commit_node.simps if_not_P[OF False] .
    obtain v' ns1 where x: "commitChildren capt False path 0 cs ns = Inr (v', ns1)"
      using e by (cases "commitChildren capt False path 0 cs ns") auto
    have "nodeCommit capt False path (FullNode v' fl) ns1 = Inr (h, ns')" using e unfolding x by simp
    then have "leaves ns' = leaves ns1" by (rule nodeCommit_leaves)
    moreover have "leaves ns1 = leaves ns" by (rule commitChildren_leaves[OF FullNode.IH x])
    ultimately show ?thesis by simp
  qed (use FullNode.prems in auto)
qed simp_all

lemma mark_deleted_leaves [simp]: "leaves (mark_deleted_paths capt ns) = leaves ns"
proof -
  have "leaves (foldl (\<lambda>ns path. let old = getOldv path capt in
      if length old = 0 then ns else markDeleted path old ns) ns ps) = leaves ns" for ps
    by (induction ps arbitrary: ns) (simp_all add: Let_def)
  then show ?thesis by (simp add: mark_deleted_paths_def)
qed

lemma trie_Commit_leaves:
  "trie_Commit H False t = (Inr (rh, Some ns), t') \<Longrightarrow> leaves ns = []"
  by (auto simp: trie_Commit_def committer_Commit_def Let_def dest: commit_leaves
      split: if_splits prod.splits sum.splits node.splits)

subsection \<open>Committing the database and reopening\<close>

text \<open>A trie stays valid when its database changes in a way that keeps every blob.\<close>

lemma flag_ok_extends: "flag_ok H view r fl a \<Longrightarrow> extends view view' \<Longrightarrow> flag_ok H view' r fl a"
  unfolding flag_ok_def using stored_extends[of H view a view'] by (auto simp: stored_def extends_def)

lemma rep_extends: "rep H view r n a \<Longrightarrow> extends view view' \<Longrightarrow> rep H view' r n a"
proof (induction rule: rep.induct)
  case (rep_Short n c r fl k)
  have "flag_ok H view' r fl (AShort k c)" by (rule flag_ok_extends[OF rep_Short(2) rep_Short.prems])
  then show ?case using rep_Short by (simp add: rep_node_simps)
next
  case (rep_Full ns cs r fl)
  have "list_all2 (rep H view' False) ns cs"
    using rep_Full(1) by (rule list.rel_mono_strong) (use rep_Full.prems in simp)
  moreover have "flag_ok H view' r fl (AFull cs)" by (rule flag_ok_extends[OF rep_Full(2) rep_Full.prems])
  ultimately show ?case using rep_Full(3) by (simp add: rep_node_simps)
next
  case (rep_Hash a r h)
  have "kids_stored H view a" "view (H (blob H a)) = blob H a" using rep_Hash(4) by (simp_all add: stored_def)
  then have "stored H view' a"
    using stored_extends[OF _ rep_Hash.prems] rep_Hash.prems by (simp add: stored_def extends_def)
  then show ?case using rep_Hash(1-3) by (intro rep.rep_Hash)
qed (simp_all add: rep.intros)

lemma represents_extends:
  "represents H t a \<Longrightarrow> extends (trie_view (reader t)) (trie_view rd') \<Longrightarrow> represents H (t\<lparr>reader := rd'\<rparr>) a"
  by (auto simp: represents_def intro: rep_extends)

lemma Commit_store:
  assumes db: "store_ok H S db" and h: "h \<noteq> zeroHash" "Suc (arank H S h) < fuel"
  shows "\<exists>db'. Commit fuel h db = Inr db' \<and> store_ok H S db' \<and> blob_view db' = blob_view db \<and>
    (\<forall>k. reach db h k \<longrightarrow> dirties db' k = None)"
proof -
  obtain db' b where c: "Commit fuel h db = Inr db'" "commit_inv db (db', b)" "cached b = []"
      "\<And>k. reach db h k \<Longrightarrow> dirties db' k = None"
    using Commit_run[OF store_ok_cache[OF db] h] by metis
  have v: "blob_view db' = blob_view db" using commit_inv_view[OF c(2)] by blast
  have L: "\<exists>L. flush_list db' L" "memdb_open (diskdb db')" using commit_invD(1,2)[OF c(2)] by auto
  have p: "payload db' k = Some x \<Longrightarrow> payload db k = Some x" for k x
    using commit_invD(4)[OF c(2), of k] by (auto simp: payload_def core_def)
  have z: "payload db' zeroHash = payload db zeroHash"
  proof -
    obtain e where "dirties db' zeroHash = Some e" using L(1) flush_list_zero by blast
    then show ?thesis using p[of zeroHash] by (auto simp: payload_def)
  qed
  have "store_ok H S db'"
    using db L p z unfolding store_ok_def v by (metis (no_types, lifting))
  then show ?thesis using c(1,4) v by blast
qed

text \<open>\<open>add_set\<close>: what a client does with the node set of \<open>Commit\<close>.\<close>

definition add_set ::
  "(bytes \<Rightarrow> rlp_error + hash) \<Rightarrow> NodeSet option \<Rightarrow> TrieDB \<Rightarrow> go_error + TrieDB" where
  "add_set ar nso db =
    (case nso of None \<Rightarrow> Inr db
     | Some ns \<Rightarrow> (case Merge ns NewMergedNodeSet of Inl e \<Rightarrow> Inl e | Inr sets \<Rightarrow> Update ar sets db))"

lemma add_set_store:
  assumes db: "store_ok H S db" and u: "universe H (S \<union> subs a)" and ok: "commit_ok H (blob_view db) a nso"
    and l: "\<And>ns. nso = Some ns \<Longrightarrow> leaves ns = []"
  shows "\<exists>db'. add_set ar nso db = Inr db' \<and> store_ok H (S \<union> subs a) db' \<and>
    extends (blob_view db) (blob_view db') \<and> (a \<noteq> AEmpty \<longrightarrow> stored H (blob_view db') a)"
proof (cases nso)
  case None
  have "store_ok H (S \<union> subs a) db" using store_ok_mono[OF db _ u] by blast
  then show ?thesis using None ok by (auto simp: add_set_def commit_ok_def)
next
  case (Some ns)
  then have ns: "owner ns = zeroHash" "nodeset_ok ns" "entries_ok H a (dirty_list ns)"
      "persist H (blob_view db) True a (dirty_list ns)" using ok by (simp_all add: commit_ok_def)
  obtain sets db' where d: "Merge ns NewMergedNodeSet = Inr sets" "Update ar sets db = Inr db'"
      "store_ok H (S \<union> subs a) db'" "extends (blob_view db) (blob_view db')"
      "\<forall>(h, n) \<in> set (dirty_list ns). blob_view db' h = node_bytes n"
    using Update_store[OF db u ns(1,2) l[OF Some] ns(3)] by blast
  then have "stored H (blob_view db') a" using ns(4) by (auto simp: persist_def stored_def)
  then show ?thesis using d Some by (auto simp: add_set_def)
qed

theorem commit_and_reopen:
  assumes db: "store_ok H S db" and t: "represents H t a" "reader t = Some db"
    and u: "universe H (S \<union> subs a)" and fuel: "size a + 1 < fuel"
  shows "\<exists>nso t' db1 db2 t2. trie_Commit H False t = (Inr (root_hash H a, nso), t') \<and>
    add_set ar nso db = Inr db1 \<and> Commit fuel (root_hash H a) db1 = Inr db2 \<and>
    trie_New (TrieID (root_hash H a)) (Some db2) = Inr t2 \<and> represents H t2 a \<and> reader t2 = Some db2 \<and>
    store_ok H (S \<union> subs a) db2 \<and> extends (blob_view db) (blob_view db2)"
proof -
  let ?S = "S \<union> subs a"
  have v: "trie_view (Some db) = blob_view db" by (rule store_ok_view[OF db])
  obtain nso t' where c: "trie_Commit H False t = (Inr (root_hash H a, nso), t')"
      "commit_ok H (blob_view db) a nso"
    using Commit_represents[OF t(1), of False] t(2) v by auto
  have l: "nso = Some ns \<Longrightarrow> leaves ns = []" for ns using trie_Commit_leaves[of H t] c(1) by blast
  obtain db1 where d1: "add_set ar nso db = Inr db1" "store_ok H ?S db1"
      "extends (blob_view db) (blob_view db1)" "a \<noteq> AEmpty \<longrightarrow> stored H (blob_view db1) a"
    using add_set_store[OF db u c(2) l] by blast
  have n: "a \<noteq> AEmpty \<Longrightarrow> wf_anode a \<and> a \<in> ?S"
    using t(1) subs_self[of a] wf_is_node by (auto simp: represents_def wf_atrie_def sub_ok_def)
  have z: "root_hash H a \<noteq> zeroHash \<and> Suc (arank H ?S (root_hash H a)) < fuel"
  proof (cases "a = AEmpty")
    case True
    have "\<not> (\<exists>b \<in> ?S. H (blob H b) = emptyRoot)" using universe_hash[OF u] by blast
    then have "arank H ?S emptyRoot = 0" by (simp add: arank_def)
    then show ?thesis using True fuel by (simp add: root_hash_def)
  next
    case False
    then show ?thesis using n fuel universe_hash[OF u, of a] arank_eq[OF u, of a] by (simp add: root_hash_def)
  qed
  obtain db2 where d2: "Commit fuel (root_hash H a) db1 = Inr db2" "store_ok H ?S db2" "blob_view db2 = blob_view db1"
    using Commit_store[OF d1(2), of "root_hash H a" fuel] z by blast
  have "\<exists>t2. trie_New (TrieID (root_hash H a)) (Some db2) = Inr t2 \<and> represents H t2 a \<and> reader t2 = Some db2"
  proof (cases "a = AEmpty")
    case True
    then show ?thesis using t(1) by (simp add: root_hash_def trie_New_def TrieID_def represents_def rep.intros)
  next
    case False
    have "stored H (trie_view (Some db2)) a" using d1(4) d2(3) False store_ok_view[OF d2(2)] by simp
    then show ?thesis
      using New_represents[of H a "Some db2"] t(1) n[OF False] universe_hash[OF u, of a] False
      by (simp add: represents_def root_hash_def)
  qed
  then show ?thesis using c(1) d1(1,3) d2 by auto
qed

subsection \<open>Sessions\<close>

text \<open>
  A session is what a client does between two states on disk: a list of updates, a commit
  of the trie, the insertion of its node set, a commit of the database, and opening a new
  trie at the new root.
\<close>

definition session ::
  "(bytes \<Rightarrow> bytes) \<Rightarrow> (bytes \<Rightarrow> rlp_error + hash) \<Rightarrow> nat \<Rightarrow> Trie \<times> TrieDB \<Rightarrow> (bytes \<times> bytes) list \<Rightarrow>
     go_error + (Trie \<times> TrieDB)" where
  "session H ar fuel st ws =
    (case run_writes tryUpdate ws (fst st) of
       (Inl e, _) \<Rightarrow> Inl e
     | (Inr _, t1) \<Rightarrow>
         (case trie_Commit H False t1 of
            (Inl e, _) \<Rightarrow> Inl e
          | (Inr (rh, nso), _) \<Rightarrow>
              (case add_set ar nso (snd st) of Inl e \<Rightarrow> Inl e
               | Inr db1 \<Rightarrow>
                   (case Commit fuel rh db1 of Inl e \<Rightarrow> Inl e
                    | Inr db2 \<Rightarrow>
                        (case trie_New (TrieID rh) (Some db2) of Inl e \<Rightarrow> Inl e
                         | Inr t2 \<Rightarrow> Inr (t2, db2))))))"

definition awrite_all :: "(bytes \<times> bytes) list \<Rightarrow> atrie \<Rightarrow> atrie" where
  "awrite_all ws a = foldl (\<lambda>a (k, v). awrite a k v) a ws"

lemma awrite_all_simps [simp]:
  "awrite_all [] a = a" "awrite_all ((k, v) # ws) a = awrite_all ws (awrite a k v)"
  "awrite_all (ws @ ws') a = awrite_all ws' (awrite_all ws a)"
  by (simp_all add: awrite_all_def)

lemma contents_awrite_all: "wf_atrie a \<Longrightarrow> contents (awrite_all ws a) = write_all ws (contents a)"
  by (induction ws arbitrary: a) (auto simp: wf_awrite contents_awrite)

lemma run_represents:
  "represents H t a \<Longrightarrow> \<forall>(k, v) \<in> set ws. fits k v \<Longrightarrow>
     \<exists>t'. run_writes tryUpdate ws t = (Inr (), t') \<and> represents H t' (awrite_all ws a) \<and> reader t' = reader t"
proof (induction ws arbitrary: t a)
  case (Cons w ws)
  obtain k v where w: "w = (k, v)" by (cases w)
  obtain t1 where 1: "tryUpdate k v t = (Inr (), t1)" "represents H t1 (awrite a k v)" "reader t1 = reader t"
    using tryUpdate_represents[OF Cons.prems(1), of k v] Cons.prems(2) w by auto
  then show ?case using Cons.IH[OF 1(2)] Cons.prems(2) w by simp
qed simp

definition session_inv :: "(bytes \<Rightarrow> bytes) \<Rightarrow> atrie set \<Rightarrow> atrie \<Rightarrow> Trie \<times> TrieDB \<Rightarrow> bool" where
  "session_inv H U a st \<longleftrightarrow> store_ok H U (snd st) \<and> represents H (fst st) a \<and> reader (fst st) = Some (snd st)"

lemma session_run:
  assumes st: "session_inv H U a st" and ws: "\<forall>(k, v) \<in> set ws. fits k v"
    and U: "subs (awrite_all ws a) \<subseteq> U" and fuel: "size (awrite_all ws a) + 1 < fuel"
  shows "\<exists>st'. session H ar fuel st ws = Inr st' \<and> session_inv H U (awrite_all ws a) st'"
proof -
  let ?a = "awrite_all ws a"
  obtain t db where s: "st = (t, db)" by (cases st)
  have db: "store_ok H U db" and t: "represents H t a" "reader t = Some db"
    using st by (simp_all add: s session_inv_def)
  obtain t1 where t1: "run_writes tryUpdate ws t = (Inr (), t1)" "represents H t1 ?a" "reader t1 = Some db"
    using run_represents[OF t(1) ws] t(2) by auto
  have u: "U \<union> subs ?a = U" using U by blast
  have "universe H (U \<union> subs ?a)" using db by (simp add: u store_ok_def)
  from commit_and_reopen[OF db t1(2,3) this fuel, of ar] obtain nso t' db1 db2 t2 where
    "trie_Commit H False t1 = (Inr (root_hash H ?a, nso), t')" "add_set ar nso db = Inr db1"
    "Commit fuel (root_hash H ?a) db1 = Inr db2" "trie_New (TrieID (root_hash H ?a)) (Some db2) = Inr t2"
    "represents H t2 ?a" "reader t2 = Some db2" "store_ok H U db2"
    unfolding u by blast
  then show ?thesis using t1(1) by (simp add: session_def s session_inv_def)
qed

lemma sessions_run:
  assumes "session_inv H U a st" and "\<forall>ws \<in> set wss. \<forall>(k, v) \<in> set ws. fits k v"
    and "\<And>n. 0 < n \<Longrightarrow> n \<le> length wss \<Longrightarrow> subs (awrite_all (concat (take n wss)) a) \<subseteq> U \<and>
        size (awrite_all (concat (take n wss)) a) + 1 < fuel"
  shows "\<exists>st'. foldE (session H ar fuel) st wss = Inr st' \<and> session_inv H U (awrite_all (concat wss) a) st'"
  using assms
proof (induction wss arbitrary: a st)
  case (Cons ws wss)
  have "subs (awrite_all ws a) \<subseteq> U" "size (awrite_all ws a) + 1 < fuel" "\<forall>(k, v) \<in> set ws. fits k v"
    using Cons.prems(2) Cons.prems(3)[of 1] by simp_all
  then obtain st1 where 1: "session H ar fuel st ws = Inr st1" "session_inv H U (awrite_all ws a) st1"
    using session_run[OF Cons.prems(1), of ws fuel ar] by blast
  have "\<exists>st'. foldE (session H ar fuel) st1 wss = Inr st' \<and>
      session_inv H U (awrite_all (concat wss) (awrite_all ws a)) st'"
  proof (rule Cons.IH[OF 1(2)])
    fix n assume "0 < n" "n \<le> length wss"
    then show "subs (awrite_all (concat (take n wss)) (awrite_all ws a)) \<subseteq> U \<and>
        size (awrite_all (concat (take n wss)) (awrite_all ws a)) + 1 < fuel"
      using Cons.prems(3)[of "Suc n"] by simp
  qed (use Cons.prems(2) in simp)
  then show ?case using 1(1) by simp
qed simp

end
