(* ===== verification/Props_Trie.thy ===== *)
theory Props_Trie
  imports Trie_Persist
begin

section \<open>Properties of the trie\<close>

text \<open>
  The contract of the trie as a map from byte keys to values, and its error behaviour.  The
  instances run on an empty trie and on a trie that is loaded from a database with one node.
\<close>

definition const_hash :: "bytes \<Rightarrow> bytes" where
  "const_hash b = replicate 32 1"

lemma hash_fun_const: "hash_fun const_hash"
  by (simp add: hash_fun_def const_hash_def)

text \<open>C2: A trie is a map.  After any sequence of updates on an empty trie, none of which
  fails, a lookup of any key returns what the last update of that key wrote; an update with
  an empty value removes the key.  No fuel runs out: the operations always return.\<close>

theorem get_after_updates:
  assumes "\<forall>(k, v) \<in> set ws. fits k v"
  shows "\<exists>t t' t''. NewEmpty db = Inr t \<and> run_writes tryUpdate ws t = (Inr (), t') \<and>
    TryGet key t' = (Inr (write_all ws Map.empty key), t'')"
proof -
  obtain t where t: "NewEmpty db = Inr t" "represents const_hash t AEmpty"
    using NewEmpty_represents[OF hash_fun_const] by blast
  then have "trie_holds const_hash t Map.empty" by (auto simp: trie_holds_def contents_def)
  from tm.get_after_run[OF this assms] t(1) show ?thesis by blast
qed

theorem get_after_updates_witness:
  "\<exists>t t' t''. NewEmpty None = Inr t \<and>
     run_writes tryUpdate [([1], [7]), ([1, 2], [8]), ([1], [])] t = (Inr (), t') \<and>
     TryGet [1, 2] t' = (Inr (Some [8]), t'')"
proof -
  have "\<forall>(k, v) \<in> set [([1 :: byte], [7 :: byte]), ([1, 2], [8]), ([1], [])]. fits k v"
    by (simp add: fits_def)
  from get_after_updates[OF this, of None "[1, 2]"] show ?thesis by (simp add: write_map_def)
qed

text \<open>C3: On every trie that holds a map, whatever part of it is loaded and whatever part is
  only in the database, an update succeeds and changes the one key.\<close>

theorem tryUpdate_contract:
  assumes "trie_holds H t m" and "fits k v"
  shows "\<exists>t'. tryUpdate k v t = (Inr (), t') \<and> trie_holds H t' (write_map k v m)"
  using assms by (rule tm.update_holds)

lemma holds_empty: "trie_holds const_hash \<lparr>root = NilNode, reader = None, capture = None\<rparr> Map.empty"
  using NewEmpty_represents[OF hash_fun_const, of None]
  by (auto simp: NewEmpty_def trie_New_def TrieID_def trie_holds_def contents_def)

theorem tryUpdate_contract_witness:
  "\<exists>t'. tryUpdate [5] [9] \<lparr>root = NilNode, reader = None, capture = None\<rparr> = (Inr (), t') \<and>
     trie_holds const_hash t' [[5] \<mapsto> [9]]"
  using tryUpdate_contract[OF holds_empty, of "[5]" "[9]"] by (simp add: fits_def write_map_def)

text \<open>C4: On every trie that holds a map, a lookup succeeds with the value of the key, and the
  trie, parts of which it may have loaded, still holds the same map.\<close>

theorem TryGet_contract:
  assumes "trie_holds H t m"
  shows "\<exists>t'. TryGet k t = (Inr (m k), t') \<and> trie_holds H t' m"
  using assms by (rule tm.get_holds)

theorem TryGet_contract_witness:
  "\<exists>t'. TryGet [5] \<lparr>root = NilNode, reader = None, capture = None\<rparr> = (Inr None, t')"
  using TryGet_contract[OF holds_empty, of "[5]"] by auto



text \<open>C18: Opening a trie at the hash of a stored, well-formed root gives a trie that stands
  for the stored tree.\<close>

theorem New_opens_stored:
  assumes "hash_fun H" and "wf_anode a" and "small a" and "byte_keys a"
    and "stored H (trie_view db) a" and "H (blob H a) \<noteq> zeroHash" and "H (blob H a) \<noteq> emptyRoot"
  shows "\<exists>t. trie_New (TrieID (H (blob H a))) db = Inr t \<and> represents H t a \<and> reader t = db"
  using assms by (rule New_represents)

definition one_node :: atrie where
  "one_node = AShort (keybytesToHex [1]) (AVal [7])"

definition one_blob :: bytes where
  "one_blob = [0xC4, 0x82, 0x20, 0x01, 0x07]"

definition one_db :: TrieDB where
  "one_db = NewTrieDB \<lparr>kv = Some [replicate 32 1 \<mapsto> one_blob]\<rparr>"

lemma one_node_facts:
  "wf_anode one_node" "small one_node" "byte_keys one_node" "blob const_hash one_node = one_blob"
proof -
  show "wf_anode one_node" by (simp add: one_node_def wf_AShort keybytesToHex_def hex_key_def)
  have l: "alookup one_node key = Some v \<Longrightarrow> key = keybytesToHex [1] \<and> v = [7]" for key v
    using append_take_drop_id[of 3 key]
    by (auto simp: one_node_def keybytesToHex_def split: if_splits)
  show "small one_node" unfolding small_def using l by (fastforce simp: keybytesToHex_def)
  show "byte_keys one_node" unfolding byte_keys_def using l by blast
  show "blob const_hash one_node = one_blob"
    by (simp add: one_node_def one_blob_def blob_simps ref_of_cases hashed_def keybytesToHex_def
        hexToCompact_def rlp_str_def rlp_list_def rlp_head_def Let_def)
qed

theorem New_opens_stored_witness:
  "\<exists>t. trie_New (replicate 32 1) (Some one_db) = Inr t \<and> represents const_hash t one_node"
proof -
  have "hd (replicate 32 (1 :: byte)) \<noteq> hd emptyRoot" "hd (replicate 32 (1 :: byte)) \<noteq> hd zeroHash"
    by (simp_all add: emptyRoot_bytes zeroHash_def HashLength_def)
  then have z: "replicate 32 (1 :: byte) \<noteq> zeroHash" "replicate 32 (1 :: byte) \<noteq> emptyRoot"
    by metis+
  have v: "trie_view (Some one_db) (replicate 32 1) = one_blob"
    using z by (simp add: trie_view_def trie_nodeBlob_def NodeBlob_def db_nodeBlob_def one_db_def
        NewTrieDB_def memdb_Get_def CopyBytes_def one_blob_def)
  have "stored const_hash (trie_view (Some one_db)) one_node"
    using v one_node_facts(4)
    by (simp add: stored_def const_hash_def) (simp add: one_node_def hashed_def)
  from New_opens_stored[OF hash_fun_const one_node_facts(1-3) this] z show ?thesis
    by (auto simp: const_hash_def TrieID_def)
qed



subsection \<open>Root hashes\<close>

text \<open>C9: \<open>Hash\<close> computes the Merkle root of the trie: it never fails, returns the root hash
  of the tree the trie stands for, and the trie, which now caches every hash, still stands
  for that tree.\<close>

theorem Hash_is_root_hash:
  assumes "represents H t a"
  shows "\<exists>t'. trie_Hash H t = (Inr (root_hash H a), t') \<and> represents H t' a \<and> reader t' = reader t"
  using Hash_represents[OF assms] by blast

lemma one_key: "\<exists>t. tryUpdate [1] [7] \<lparr>root = NilNode, reader = db, capture = None\<rparr> = (Inr (), t) \<and>
    represents const_hash t one_node \<and> reader t = db"
proof -
  have "represents const_hash \<lparr>root = NilNode, reader = db, capture = None\<rparr> AEmpty"
    using NewEmpty_represents[OF hash_fun_const, of db] by (simp add: NewEmpty_def trie_New_def TrieID_def)
  from tryUpdate_represents[OF this, of "[1]" "[7]"] show ?thesis
    by (simp add: fits_def awrite_def aplace_def one_node_def keybytesToHex_def)
qed

theorem Hash_is_root_hash_witness:
  "\<exists>t t'. tryUpdate [1] [7] \<lparr>root = NilNode, reader = None, capture = None\<rparr> = (Inr (), t) \<and>
     trie_Hash const_hash t = (Inr (const_hash one_blob), t')"
proof -
  obtain t where t: "tryUpdate [1] [7] \<lparr>root = NilNode, reader = None, capture = None\<rparr> = (Inr (), t)"
    "represents const_hash t one_node" using one_key by blast
  have "root_hash const_hash one_node = const_hash one_blob"
    using one_node_facts(4) by (simp add: root_hash_def one_node_def)
  with Hash_is_root_hash[OF t(2)] t(1) show ?thesis by auto
qed

text \<open>C6: The root hash depends on the contents only: two tries that hold the same map, whatever
  the order and the history of their updates and whatever is loaded, have the same hash.\<close>

theorem Hash_order_independent:
  assumes "trie_holds H t m" and "trie_holds H t' m"
  shows "\<exists>h. fst (trie_Hash H t) = Inr h \<and> fst (trie_Hash H t') = Inr h"
proof -
  obtain a a' where a: "represents H t a" "contents a = m" "represents H t' a'" "contents a' = m"
    using assms by (auto simp: trie_holds_def)
  then have "a = a'" using contents_canonical by (simp add: represents_def)
  with a Hash_represents show ?thesis by (metis fst_conv)
qed

theorem Hash_order_independent_witness:
  "\<exists>t1 t2 t1' t2' h.
     run_writes tryUpdate [([1], [7]), ([2], [8])] \<lparr>root = NilNode, reader = None, capture = None\<rparr> = (Inr (), t1) \<and>
     run_writes tryUpdate [([2], [8]), ([3], [9]), ([1], [7]), ([3], [])]
       \<lparr>root = NilNode, reader = None, capture = None\<rparr> = (Inr (), t2) \<and>
     trie_Hash const_hash t1 = (Inr h, t1') \<and> trie_Hash const_hash t2 = (Inr h, t2')"
proof -
  let ?t = "\<lparr>root = NilNode, reader = None, capture = None\<rparr> :: Trie"
  let ?ws1 = "[([1], [7]), ([2], [8])] :: (bytes \<times> bytes) list"
  let ?ws2 = "[([2], [8]), ([3], [9]), ([1], [7]), ([3], [])] :: (bytes \<times> bytes) list"
  have "\<forall>(k, v) \<in> set ?ws1. fits k v" "\<forall>(k, v) \<in> set ?ws2. fits k v" by (simp_all add: fits_def)
  then obtain t1 t2 where t: "run_writes tryUpdate ?ws1 ?t = (Inr (), t1)"
      "trie_holds const_hash t1 (write_all ?ws1 Map.empty)" "run_writes tryUpdate ?ws2 ?t = (Inr (), t2)"
      "trie_holds const_hash t2 (write_all ?ws2 Map.empty)"
    using tm.run_holds[OF holds_empty] by metis
  have "write_all ?ws1 Map.empty = write_all ?ws2 Map.empty"
    by (auto simp: write_map_def fun_eq_iff)
  then obtain h where "fst (trie_Hash const_hash t1) = Inr h" "fst (trie_Hash const_hash t2) = Inr h"
    using Hash_order_independent[OF t(2)] t(4) by metis
  with t(1,3) show ?thesis by (metis prod.collapse)
qed

text \<open>C5: The root hash authenticates the contents: when the hash function has no collision
  on the node blobs of two tries, and the hash of none of them is that of the empty trie,
  equal root hashes mean equal maps.\<close>

theorem Hash_authenticates:
  assumes "represents H t a" and "represents H t' b"
    and "inj_on H (sub_blobs H a \<union> sub_blobs H b)" and "emptyRoot \<notin> H ` (sub_blobs H a \<union> sub_blobs H b)"
    and "fst (trie_Hash H t) = fst (trie_Hash H t')"
  shows "contents a = contents b"
proof -
  have "root_hash H a = root_hash H b"
    using Hash_represents[OF assms(1)] Hash_represents[OF assms(2)] assms(5) by auto
  then show ?thesis
    using root_hash_inj[of H a b] assms(1-4) by (simp add: represents_def)
qed

theorem Hash_authenticates_witness: "contents one_node [1] = Some [7]"
proof -
  have e: "awrite AEmpty [1] [7] = one_node"
    by (simp add: awrite_def aplace_def one_node_def keybytesToHex_def)
  obtain t1 t2 where t1: "represents const_hash t1 (awrite AEmpty [1] [7])" and t2: "represents const_hash t2 one_node"
    using one_key[of None] one_key[of "Some one_db"] unfolding e by blast
  have b: "sub_blobs const_hash one_node = {one_blob}"
    using one_node_facts(4) by (simp add: one_node_def)
  have h: "hd (const_hash one_blob) \<noteq> hd emptyRoot" by (simp add: const_hash_def emptyRoot_bytes)
  have "contents (awrite AEmpty [1] [7]) = contents one_node"
  proof (rule Hash_authenticates[OF t1 t2])
    show "fst (trie_Hash const_hash t1) = fst (trie_Hash const_hash t2)"
      using Hash_represents[OF t1] Hash_represents[OF t2] e by auto
    show "emptyRoot \<notin> const_hash ` (sub_blobs const_hash (awrite AEmpty [1] [7]) \<union> sub_blobs const_hash one_node)"
      using h by (auto simp: e b)
  qed (simp add: e b)
  moreover have "contents (awrite AEmpty [1] [7]) [1] = Some [7]"
    using contents_awrite[of AEmpty "[1]" "[7]"] by (simp add: wf_atrie_def write_map_def)
  ultimately show ?thesis by simp
qed

text \<open>C20: The parallel branch of \<open>hashFullNodeChildren\<close> gives what the sequential loop gives, in
  whatever order the sixteen goroutines run.\<close>

theorem parallel_hashing_equal:
  assumes "hashFullNodeChildren H cs = Inr (ds, cs')" and "length cs = 17" and "set is = {..<16}"
  shows "hashFullNodeChildren_parallel H is cs = Inr (ds, cs')"
  using assms by (rule hashFullNodeChildren_parallel_eq)

theorem parallel_hashing_equal_witness:
  "hashFullNodeChildren_parallel const_hash (rev [0..<16]) no_children =
     Inr (replicate 16 nilValueNode @ [NilNode], no_children)"
proof -
  have "hash_slots const_hash n (replicate (n + 1) NilNode) =
      Inr (replicate n nilValueNode @ [NilNode], replicate (n + 1) NilNode)" for n
    by (induction n) simp_all
  from this[of 16] have "hashFullNodeChildren const_hash no_children =
      Inr (replicate 16 nilValueNode @ [NilNode], no_children)" by (simp add: no_children_def)
  from parallel_hashing_equal[OF this, of "rev [0..<16]"] show ?thesis
    by (simp add: no_children_def atLeast0LessThan)
qed

subsection \<open>Committing\<close>

text \<open>C8: \<open>Commit\<close> loses no node: it never fails, returns the root hash and, unless there is
  nothing to store, a node set of the zero owner.  Every entry of the set is a node of the
  trie under its hash, and any store that answers as the old one did and holds the entries
  of the set stores the whole trie.\<close>

theorem Commit_complete:
  assumes "represents H t a"
  shows "\<exists>nso t'. trie_Commit H cl t = (Inr (root_hash H a, nso), t') \<and>
    commit_ok H (trie_view (reader t)) a nso"
  using assms by (rule Commit_represents)

theorem Commit_complete_witness:
  "\<exists>t nso t'. tryUpdate [1] [7] \<lparr>root = NilNode, reader = None, capture = None\<rparr> = (Inr (), t) \<and>
     trie_Commit const_hash False t = (Inr (root_hash const_hash one_node, nso), t')"
  using one_key[of None] Commit_complete by metis

text \<open>A trie stays valid while its database grows: when every blob that could be read still
  reads the same, the trie stands for the same tree over the new database.\<close>

theorem represents_stable:
  assumes "represents H t a" and "extends (trie_view (reader t)) (trie_view rd')"
  shows "represents H (t\<lparr>reader := rd'\<rparr>) a"
  using assms by (rule represents_extends)

theorem represents_stable_witness:
  "\<exists>t. tryUpdate [1] [7] \<lparr>root = NilNode, reader = None, capture = None\<rparr> = (Inr (), t) \<and>
     represents const_hash (t\<lparr>reader := Some one_db\<rparr>) one_node"
proof -
  have "trie_view None h = []" for h by (simp add: trie_view_def trie_nodeBlob_def)
  then have "extends (trie_view None) (trie_view (Some one_db))" by (simp add: extends_def)
  with one_key[of None] represents_stable show ?thesis by metis
qed

end
