(* ===== verification/Spec2Isabelle.thy ===== *)
theory Spec2Isabelle
  imports Props_Rlp Props_Codec Props_Encode Props_Gen Props_Db Props_Trie
begin

text \<open>
  A Merkle Patricia trie with its RLP encoding, its node database and its commit pipeline, and the RLP
  codec for Go values with its code generator.

  \<^bold>\<open>The program.\<close>  A \<open>Trie\<close> (\<open>trie/trie.go\<close>) maps byte keys to byte values.  Keys are spelt in
  nibbles (\<open>trie/trie_encoding.go\<close>); nodes (\<open>trie/trie_types.go\<close>, \<open>trie_node.go\<close>) are full nodes with
  seventeen children, short nodes with a key fragment, values, and hashes that stand for nodes in a
  database.  \<open>Hash\<close> collapses the dirty part of the trie into RLP blobs (\<open>trie_node_hasher.go\<close>,
  \<open>trie_node_enc.go\<close>, \<open>rlp/encbuffer.go\<close>) and hashes them.  \<open>Commit\<close> collects the dirty blobs in a
  \<open>NodeSet\<close> (\<open>trie_committer.go\<close>, \<open>trie_nodeset.go\<close>); \<open>TrieDB.Update\<close> puts them into the cache of
  \<open>trie_db.go\<close>, which counts references and keeps a flush-list; \<open>TrieDB.Commit\<close> writes what is
  reachable from a root to a key-value store (\<open>accdb/\<close>) in batches.  A trie is opened at a root hash
  and loads its nodes on demand through \<open>trie_reader.go\<close>, \<open>TrieDB.Node\<close> and \<open>trie_node_dec.go\<close>, which
  takes the blobs apart with \<open>rlp/raw.go\<close>.

  The package \<open>rlp\<close> also encodes and decodes Go values.  \<open>makeWriter\<close> (\<open>encode.go\<close>) and \<open>makeDecoder\<close>
  (\<open>decode.go\<close>) turn a type into a function, with the struct tags of \<open>internal/rlpstruct\<close>; a writer
  appends to an \<open>encBuffer\<close>, a decoder reads from a \<open>Stream\<close>.  \<open>rlpgen\<close> turns a struct type into the
  source of an \<open>EncodeRLP\<close> and a \<open>DecodeRLP\<close> method, which use \<open>EncoderBuffer\<close> and \<open>Stream\<close> directly.

  \<^bold>\<open>The theories.\<close>
  \<^item> \<open>Prelude\<close>: the types (\<open>byte\<close>, \<open>uint64\<close>, \<open>bytes\<close>), results with errors, folds that may fail.
  \<^item> \<open>Rlp_Head\<close>, \<open>Rlp_Raw\<close>: the integer and header helpers of \<open>rlp/encode.go\<close>, all of \<open>rlp/raw.go\<close>, and the
    reference format \<open>rlp_enc\<close>; \<open>readKind\<close> and \<open>Split\<close> accept exactly the canonical encodings.
  \<^item> \<open>Rlp_Buffer\<close>: \<open>rlp/encbuffer.go\<close>; a buffer with deferred list headers denotes the items it was
    given (\<open>copyTo\<close> merges the headers in).
  \<^item> \<open>Rlp_Big\<close>, \<open>Rlp_Output\<close>, \<open>Rlp_Handles\<close>: the rest of \<open>rlp/encbuffer.go\<close>: big integers, \<open>writeTo\<close> and
    \<open>encReader\<close>, and \<open>EncoderBuffer\<close> handles over a store of buffers and a pool, with a step
    relation and its invariant (no buffer has two owners).
  \<^item> \<open>Rlp_Stream\<close>: the decoder \<open>Stream\<close> of \<open>rlp/decode.go\<close>; \<open>Rlp_Stream_Correct\<close> and \<open>Rlp_Stream_Lists\<close>
    say what its operations accept.
  \<^item> \<open>Rlp_Types\<close>: Go types and values and the struct tag rules (\<open>rlpstruct.go\<close>, \<open>typecache.go\<close>).
  \<^item> \<open>Rlp_Decode\<close>: the decoders of Go values; \<open>Rlp_Decode_Correct\<close>, \<open>Rlp_Decode_Types\<close> and
    \<open>Rlp_Struct_Decode\<close> show that they accept exactly the encodings of a type (\<open>encodes\<close>).
  \<^item> \<open>Rlp_Encode\<close>: the writers of Go values; \<open>Rlp_Encode_Correct\<close>, \<open>Rlp_Roundtrip\<close> and \<open>Rlp_Codec\<close>: what is
    decoded is encoded back.  \<open>Rlp_Reference\<close>: a reference encoder \<open>enc_spec\<close>, which the writers compute.
  \<^item> \<open>Rlp_Iterator\<close>: \<open>rlp/iterator.go\<close>.
  \<^item> \<open>Gen_Types\<close>, \<open>Gen_Ops\<close>, \<open>Gen_Write\<close>, \<open>Gen_Decode\<close>: the generator \<open>rlp/rlpgen\<close>: types of go/types, the
    operations \<open>makeOp\<close> makes of them, the statements of the encoder and of the decoder, their text and
    the file.  \<open>Gen_Run\<close> says what the statements of an encoder do; \<open>Gen_Correct\<close>,
    \<open>Gen_Types_Correct\<close> and \<open>Gen_Encoder\<close> show that they compute \<open>enc_spec\<close>.
  \<^item> \<open>Common_Hash\<close>, \<open>Hex_Keys\<close>, \<open>Nodes\<close>, \<open>Node_Decode\<close>: \<open>common/\<close>, the key encodings, the node types with
    \<open>simplifyNode\<close>/\<open>expandNode\<close>, the node encoder and decoder.
  \<^item> \<open>Capture\<close>, \<open>Nodeset\<close>: \<open>trie_capture.go\<close> and \<open>trie_nodeset.go\<close>.
  \<^item> \<open>Memdb\<close>: the store and its batches.  \<open>Triedb\<close>: \<open>TrieDB\<close> with insert, reference, dereference,
    \<open>Update\<close>, \<open>Commit\<close> and the cleaner.  \<open>Triedb_Flush\<close>: the flush-list is a doubly linked list of the
    dirty entries, kept by every operation.  \<open>Triedb_Commit\<close>: committing moves nodes and loses none.
  \<^item> \<open>Trie_Ops\<close>: \<open>New\<close>, \<open>TryGet\<close>, \<open>TryUpdate\<close> and their recursive workers, as state transformers.
  \<^item> \<open>Patricia\<close>, \<open>Merkle\<close>: the specification, a fully loaded canonical tree (\<open>atrie\<close>), its
    map, its node blobs and its root hash.  \<open>Trie_Rep\<close>: the relation \<open>rep\<close> between live and abstract
    nodes.  \<open>Trie_Correct\<close>, \<open>Trie_Delete\<close>, \<open>Trie_Map\<close>: the operations of \<open>Trie_Ops\<close> simulate the
    specification, and a trie is a map.
  \<^item> \<open>Hasher\<close>: the hasher, its parallel branch and \<open>Hash\<close> compute the Merkle root of the specification.
  \<^item> \<open>Committer\<close>: \<open>Commit\<close> yields a node set that completes the store.
  \<^item> \<open>Trie_Persist\<close>: the components composed: update, commit, insert, flush and reopen.
  \<^item> \<open>Props_Rlp\<close>, \<open>Props_Codec\<close>, \<open>Props_Encode\<close>, \<open>Props_Gen\<close>, \<open>Props_Db\<close>, \<open>Props_Trie\<close> and this theory: the properties, each with an
    instance where it has hypotheses.

  \<^bold>\<open>Interfaces.\<close>  Locales state what a component relies on.  \<open>kv_store\<close> (\<open>Memdb\<close>) is the interface of
  \<open>accdb/acc_db.go\<close>; the memory database is its interpretation \<open>mem\<close>.  \<open>node_reader\<close> is what a trie needs of
  the database it loads from; \<open>TrieDB\<close> is \<open>db_reader\<close>.  \<open>update_map\<close> (\<open>Trie_Map\<close>) is
  the contract of a map with updates; the trie is \<open>tm\<close>.  \<open>value_reader\<close> and \<open>elem_decoder\<close> are the contract of
  a decoder for the values of a type, on which the decoders of lists, pointers and structs rest;
  \<open>dec_interface\<close> is one interpretation.  \<open>io_writer\<close> (\<open>Rlp_Output\<close>) is \<open>io.Writer\<close>; the encoder's own
  buffer is \<open>encbuf_io\<close>.

  \<^bold>\<open>Effects and errors.\<close>  State is passed and returned.  Errors and panics are the \<open>Inl\<close> side of a sum; the
  error types name the errors of the code.  Mutation through pointers is modelled as return of the new value;
  the code copies a node before it changes it, so no live trie sees another's change.

  \<^bold>\<open>Parameters.\<close>  The Keccak-256 function is an argument \<open>H\<close> with 32-byte results (\<open>hash_fun\<close>).  Where a
  property needs freedom of collisions, it asks for it on the finite set of blobs in question only
  (\<open>universe\<close>), and a witness shows a concrete \<open>H\<close>.  Decoding an account, which \<open>Update\<close> does for leaves
  that belong to storage tries, is an argument as well.

  \<^bold>\<open>Bounds and fuel.\<close>  Go \<open>int\<close>s are lengths and are naturals; \<open>uint64\<close> wraps.  Statements on
  encoders and decoders bound the input by \<open>2 ^ 64\<close> bytes where a header must fit; the trie properties
  ask for keys below \<open>2 ^ 59\<close> and values up to \<open>2 ^ 60\<close> bytes (\<open>fits\<close>, \<open>small\<close>).  The recursive trie
  operations take \<open>trie_fuel = 2 * n + 2\<close> units for \<open>n\<close> nibbles and are proved never to run out;
  \<open>TrieDB.Commit\<close> takes more units than the depth of the references, for which the number of nodes of the
  tree is enough (the hypotheses \<open>size \<dots> + 1 < fuel\<close>).  On a corrupt database the code need not end.
  The loops over the elements of a list take the number of bytes left as fuel, since an element takes a
  byte at least, and values in interfaces nest no deeper than their size; both are proved to be
  enough.  Decoding bounds the input by \<open>2 ^ 63\<close> bytes.

  \<^bold>\<open>The generator.\<close>  A template of the generator is a constructor of \<open>wstmt\<close> or \<open>dstmt\<close>, and
  \<open>print_wstmt\<close> and \<open>print_dstmt\<close> give its text, so that the text the generator returns and the program it
  stands for come from one value.  Which types have methods \<open>EncodeRLP\<close> and \<open>DecodeRLP\<close> is a part of the
  context; the correctness of generated encoders is for contexts in which none has
  (\<open>plain_context\<close>), and for types whose optional fields are not slices (\<open>gen_ok\<close>).

  \<^bold>\<open>Not modelled.\<close>  In the codec: Go types with methods \<open>EncodeRLP\<close> or \<open>DecodeRLP\<close> of their own, types that refer
  to themselves, decoding into values that are not zero, the syntax of Go struct tags (left to
  \<open>reflect\<close>), the cache of \<open>typecache.go\<close>, which only saves work, and what is left in a buffer after a failed
  encoding.  The zero \<open>big.Int\<close> stands for a fresh one.  In the generator: loading packages, command
  line flags and the formatting of the source by go/format; what generated decoders do when they run.
  Locks, pools and goroutines, except that the sixteen parallel hashers may finish in any order and
  that a pool may hand out any buffer it holds.  Pretty printing.  \<open>rlp/safe.go\<close>, \<open>rlp/unsafe.go\<close> and
  \<open>types/state_account.go\<close>: pointer casts, and a data type that is only passed through.
\<close>

section \<open>Properties that span the components\<close>

text \<open>C1: Data survives.  Start from an empty database and run any number of sessions; a
  session applies a list of updates to the trie, commits it, inserts its node set into the
  trie database, commits that to disk, and opens a new trie at the new root.  No step fails,
  and a lookup in the last trie returns what the last update of the key in any session
  wrote.  The hash function must not collide on the node blobs of the tries the sessions
  end with.\<close>

theorem sessions_persist:
  assumes "universe H U" and "\<forall>ws \<in> set wss. \<forall>(k, v) \<in> set ws. fits k v"
    and "\<And>n. 0 < n \<Longrightarrow> n \<le> length wss \<Longrightarrow> subs (awrite_all (concat (take n wss)) AEmpty) \<subseteq> U \<and>
        size (awrite_all (concat (take n wss)) AEmpty) + 1 < fuel"
  shows "\<exists>t0 t db t'. NewEmpty (Some (NewTrieDB memdb_New)) = Inr t0 \<and>
    foldE (session H ar fuel) (t0, NewTrieDB memdb_New) wss = Inr (t, db) \<and> reader t = Some db \<and>
    TryGet key t = (Inr (write_all (concat wss) Map.empty key), t')"
proof -
  let ?db = "NewTrieDB memdb_New"
  have H: "hash_fun H" using assms(1) by (simp add: universe_def)
  have db: "store_ok H U ?db" using store_ok_mono[OF store_ok_new[OF H] _ assms(1)] by simp
  obtain t0 where t0: "NewEmpty (Some ?db) = Inr t0" "represents H t0 AEmpty" "reader t0 = Some ?db"
    using NewEmpty_represents[OF H] by blast
  then have "session_inv H U AEmpty (t0, ?db)" using db by (simp add: session_inv_def)
  from sessions_run[OF this assms(2,3), where ar = ar]
  obtain t db where s: "foldE (session H ar fuel) (t0, ?db) wss = Inr (t, db)"
      "session_inv H U (awrite_all (concat wss) AEmpty) (t, db)"
    by auto
  have "contents (awrite_all (concat wss) AEmpty) = write_all (concat wss) Map.empty"
    using contents_awrite_all[of AEmpty "concat wss"] by (simp add: wf_atrie_def contents_def)
  then show ?thesis
    using s TryGet_represents[where k = key] t0(1) by (fastforce simp: session_inv_def)
qed

text \<open>The instance: two sessions, and a hash function that pads short blobs.\<close>

definition pad_hash :: "bytes \<Rightarrow> bytes" where
  "pad_hash b = take 32 (b @ replicate 32 1)"

definition leaf_trie :: "byte \<Rightarrow> byte \<Rightarrow> atrie" where
  "leaf_trie k v = AShort (keybytesToHex [k]) (AVal [v])"

lemma leaf_trie_facts:
  "wf_anode (leaf_trie k v)" "small (leaf_trie k v)" "subs (leaf_trie k v) = {leaf_trie k v}"
  "v < 0x80 \<Longrightarrow> blob H (leaf_trie k v) = [0xC4, 0x82, 0x20, k, v]"
proof -
  have k: "keybytesToHex [k] = [k div 16, k mod 16, 16]" by (simp add: keybytesToHex_def)
  have n: "unat (k div 16) < 16" "unat (k mod 16) < 16" by simp_all
  show "wf_anode (leaf_trie k v)"
    using hex_key_keybytesToHex[of "[k]"] by (simp add: leaf_trie_def wf_AShort k)
  have "alookup (leaf_trie k v) key = Some w \<Longrightarrow> key = [k div 16, k mod 16, 16] \<and> w = [v]" for key w
    using append_take_drop_id[of 3 key] by (auto simp: leaf_trie_def k split: if_splits)
  then show "small (leaf_trie k v)" unfolding small_def by fastforce
  show "subs (leaf_trie k v) = {leaf_trie k v}" by (simp add: leaf_trie_def)
  have c: "hexToCompact (keybytesToHex [k]) = [0x20, k]"
    by (simp add: hexToCompact_def k Let_def nibble_simps)
  show "v < 0x80 \<Longrightarrow> blob H (leaf_trie k v) = [0xC4, 0x82, 0x20, k, v]"
    by (simp add: leaf_trie_def blob_simps c ref_of_cases hashed_def rlp_str_def rlp_list_def rlp_head_def)
qed

lemma leaf_universe: "universe pad_hash {leaf_trie 1 7, leaf_trie 2 9}"
proof -
  have b: "blob pad_hash (leaf_trie 1 7) = [0xC4, 0x82, 0x20, 1, 7]"
    "blob pad_hash (leaf_trie 2 9) = [0xC4, 0x82, 0x20, 2, 9]" by (simp_all add: leaf_trie_facts(4))
  have p: "pad_hash [0xC4, 0x82, 0x20, k, v] = [0xC4, 0x82, 0x20, k, v] @ replicate 27 1" for k v
    by (simp add: pad_hash_def)
  have h: "hd zeroHash \<noteq> 0xC4" "hd emptyRoot \<noteq> 0xC4"
    by (simp_all add: zeroHash_def HashLength_def emptyRoot_bytes)
  then have "zeroHash \<noteq> 0xC4 # x" "emptyRoot \<noteq> 0xC4 # x" for x by (metis list.sel(1))+
  moreover have "hash_fun pad_hash" by (auto simp: hash_fun_def pad_hash_def min_def)
  ultimately show ?thesis
    using leaf_trie_facts(1-3)[of 1 7] leaf_trie_facts(1-3)[of 2 9]
    by (simp add: universe_def b p)
qed

theorem sessions_persist_witness:
  "\<exists>t0 t db t'. NewEmpty (Some (NewTrieDB memdb_New)) = Inr t0 \<and>
    foldE (session pad_hash (\<lambda>_. Inl ErrExpectedList) 9) (t0, NewTrieDB memdb_New)
      [[([1], [7])], [([1], []), ([2], [9])]] = Inr (t, db) \<and>
    TryGet [2] t = (Inr (Some [9]), t')"
proof -
  let ?wss = "[[([1], [7])], [([1], []), ([2], [9])]] :: (bytes \<times> bytes) list list"
  have k: "keybytesToHex [1] = [0, 1, 16]" "keybytesToHex [2] = [0, 2, 16]"
    by (simp_all add: keybytesToHex_def)
  have a: "awrite_all (concat (take 1 ?wss)) AEmpty = leaf_trie 1 7"
    "awrite_all (concat (take 2 ?wss)) AEmpty = leaf_trie 2 9"
    by (simp_all add: awrite_def aplace_def leaf_trie_def k Let_def)
  have "subs (awrite_all (concat (take n ?wss)) AEmpty) \<subseteq> {leaf_trie 1 7, leaf_trie 2 9} \<and>
      size (awrite_all (concat (take n ?wss)) AEmpty) + 1 < 9" if "0 < n" "n \<le> length ?wss" for n
  proof -
    have "n = 1 \<or> n = 2" using that by auto
    then have "awrite_all (concat (take n ?wss)) AEmpty \<in> {leaf_trie 1 7, leaf_trie 2 9}"
      using a by auto
    then show ?thesis by (auto simp: leaf_trie_facts(3)) (simp_all add: leaf_trie_def)
  qed
  moreover have "\<forall>ws \<in> set ?wss. \<forall>(k, v) \<in> set ws. fits k v" by (simp add: fits_def)
  ultimately show ?thesis
    using sessions_persist[OF leaf_universe, of ?wss 9 "\<lambda>_. Inl ErrExpectedList" "[2]"]
    by (auto simp: write_map_def)
qed

text \<open>C7: One round in full: committing a trie over a well-formed database, inserting its node
  set, committing the database to disk and opening a trie at the root hash succeeds; the new
  trie stands for the same tree, the database is well formed again, and every blob that
  could be read before reads the same.\<close>

theorem commit_then_reopen:
  assumes "store_ok H S db" and "represents H t a" and "reader t = Some db"
    and "universe H (S \<union> subs a)" and "size a + 1 < fuel"
  shows "\<exists>nso t' db1 db2 t2. trie_Commit H False t = (Inr (root_hash H a, nso), t') \<and>
    add_set ar nso db = Inr db1 \<and> Commit fuel (root_hash H a) db1 = Inr db2 \<and>
    trie_New (TrieID (root_hash H a)) (Some db2) = Inr t2 \<and> represents H t2 a \<and> reader t2 = Some db2 \<and>
    store_ok H (S \<union> subs a) db2 \<and> extends (blob_view db) (blob_view db2)"
  using assms by (rule commit_and_reopen)

theorem commit_then_reopen_witness:
  "\<exists>t nso t' db1 db2 t2.
     tryUpdate [1] [7] \<lparr>root = NilNode, reader = Some (NewTrieDB memdb_New), capture = None\<rparr> = (Inr (), t) \<and>
     trie_Commit const_hash False t = (Inr (root_hash const_hash one_node, nso), t') \<and>
     add_set (\<lambda>_. Inl ErrExpectedList) nso (NewTrieDB memdb_New) = Inr db1 \<and>
     Commit 9 (root_hash const_hash one_node) db1 = Inr db2 \<and>
     trie_New (TrieID (root_hash const_hash one_node)) (Some db2) = Inr t2 \<and>
     represents const_hash t2 one_node"
proof -
  obtain t where t: "tryUpdate [1] [7] \<lparr>root = NilNode, reader = Some (NewTrieDB memdb_New), capture = None\<rparr> = (Inr (), t)"
      "represents const_hash t one_node" "reader t = Some (NewTrieDB memdb_New)" using one_key by blast
  have "hd (const_hash one_blob) \<noteq> hd emptyRoot" "hd (const_hash one_blob) \<noteq> hd zeroHash"
    by (simp_all add: const_hash_def emptyRoot_bytes zeroHash_def HashLength_def)
  then have z: "emptyRoot \<noteq> const_hash one_blob" "zeroHash \<noteq> const_hash one_blob" by metis+
  have s: "subs one_node = {one_node}" by (simp add: one_node_def)
  have "universe const_hash ({} \<union> subs one_node)"
    using one_node_facts hash_fun_const z by (simp add: universe_def s)
  moreover have "size one_node + 1 < 9" by (simp add: one_node_def)
  ultimately show ?thesis
    using commit_then_reopen[OF store_ok_new[OF hash_fun_const] t(2,3), of 9 "\<lambda>_. Inl ErrExpectedList"] t(1)
    by blast
qed

end
